(* ===== verification/Prelude.thy ===== *)
theory Prelude
  imports Main "HOL-Library.Word" "HOL-Library.Char_ord" "HOL-Library.List_Lexorder"
    "HOL-Library.Multiset"
begin

text \<open>
  Shared vocabulary of the development: the names of the model's machine types, the parts of
  the Rust standard library the sources use (saturating arithmetic, ASCII case mapping, string
  search, decimal printing and parsing, hash tables), and the generic lemmas on them.

  \<^item> \<open>u64\<close> is a 64-bit word; \<open>usize\<close> values that only count the elements of
    a collection are \<open>nat\<close>.
  \<^item> A \<open>String\<close> is a \<open>string\<close> (a list of bytes); Rust orders strings bytewise,
    which is the lexicographic order of \<open>List_Lexorder\<close> over the byte order of
    \<open>Char_ord\<close>.
  \<^item> A \<open>HashMap\<close> is a map; where the code iterates over a hash table, the order is
    an explicit argument of the definition, because Rust does not fix it.
  \<^item> A \<open>Result\<close> is a sum, \<open>Inl\<close> for \<open>Err\<close>, \<open>Inr\<close> for \<open>Ok\<close>.
\<close>

section \<open>Machine types\<close>

type_synonym u64 = "64 word"
type_synonym ShardId = string
type_synonym SequenceNumber = string

named_theorems model_defs \<open>definitions the component proofs unfold together\<close>
named_theorems effect_simps \<open>equations describing the effect of one operation\<close>

section \<open>Saturating arithmetic on u64\<close>

definition saturating_sub :: "u64 \<Rightarrow> u64 \<Rightarrow> u64" where
  "saturating_sub a b = (if b \<le> a then a - b else 0)"

definition saturating_mul :: "u64 \<Rightarrow> u64 \<Rightarrow> u64" where
  "saturating_mul a b = (if unat a * unat b < 2 ^ 64 then a * b else 18446744073709551615)"

lemma saturating_sub_self [simp]: "saturating_sub a a = 0"
  by (simp add: saturating_sub_def)

lemma saturating_sub_le: "saturating_sub a b \<le> a"
  by (simp add: saturating_sub_def word_sub_le)

lemma unat_saturating_sub: "unat (saturating_sub a b) = unat a - unat b"
  by (auto simp: saturating_sub_def unat_sub word_le_nat_alt)

lemma unat_saturating_mul: "unat (saturating_mul a b) = min (unat a * unat b) (2 ^ 64 - 1)"
  by (auto simp: saturating_mul_def unat_word_ariths min_def)

section \<open>Lists\<close>

text \<open>\<open>Vec\<close> de-duplicated by first sight, as \<open>if seen.insert(key(x)) { out.push(x) }\<close>.\<close>

fun dedup_by :: "('a \<Rightarrow> 'k) \<Rightarrow> 'k set \<Rightarrow> 'a list \<Rightarrow> 'a list" where
  "dedup_by key seen [] = []"
| "dedup_by key seen (x # xs) =
     (if key x \<in> seen then dedup_by key seen xs
      else x # dedup_by key (insert (key x) seen) xs)"

lemma set_dedup_by: "set (dedup_by key seen xs) \<subseteq> {x \<in> set xs. key x \<notin> seen}"
proof (induction xs arbitrary: seen)
  case (Cons x xs)
  then have "set (dedup_by key seen xs) \<subseteq> {y \<in> set xs. key y \<notin> seen}"
    and "set (dedup_by key (insert (key x) seen) xs) \<subseteq> {y \<in> set xs. key y \<notin> insert (key x) seen}"
    by blast+
  then show ?case by auto
qed simp

lemma dedup_by_keys: "key ` set (dedup_by key seen xs) = key ` set xs - seen"
  by (induction xs arbitrary: seen) auto

lemma distinct_dedup_by: "distinct (map key (dedup_by key seen xs))"
proof (induction xs arbitrary: seen)
  case (Cons x xs)
  have "key x \<notin> key ` set (dedup_by key (insert (key x) seen) xs)"
    by (simp add: dedup_by_keys)
  with Cons show ?case by simp
qed simp

lemma dedup_by_distinct:
  "distinct (map key xs) \<Longrightarrow> key ` set xs \<inter> seen = {} \<Longrightarrow> dedup_by key seen xs = xs"
  by (induction xs arbitrary: seen) auto

lemma dedup_by_append:
  "dedup_by key seen (xs @ ys) = dedup_by key seen xs @ dedup_by key (seen \<union> key ` set xs) ys"
proof (induction xs arbitrary: seen)
  case (Cons x xs)
  show ?case
  proof (cases "key x \<in> seen")
    case True
    then have "insert (key x) (seen \<union> key ` set xs) = seen \<union> key ` set xs" by auto
    with True Cons show ?thesis by simp
  next
    case False
    with Cons show ?thesis by simp
  qed
qed simp

text \<open>Sorting by a key: \<open>sort_by(|a, b| a.key.cmp(&b.key))\<close> is stable, as \<open>sort_key\<close> is.\<close>

lemma set_take_subset_set: "x \<in> set (take n xs) \<Longrightarrow> x \<in> set xs"
  by (rule in_set_takeD)

lemma length_filter_disjoint:
  "(\<And>x. x \<in> set xs \<Longrightarrow> \<not> (P x \<and> Q x)) \<Longrightarrow>
   length (filter P xs) + length (filter Q xs) \<le> length xs"
proof (induction xs)
  case (Cons x xs)
  then have "length (filter P xs) + length (filter Q xs) \<le> length xs" by simp
  moreover have "\<not> (P x \<and> Q x)" using Cons.prems by simp
  ultimately show ?case by auto
qed simp

lemma count_filter_le: "distinct ys \<Longrightarrow> set ys \<subseteq> set (filter P xs) \<Longrightarrow> length ys \<le> length (filter P xs)"
  by (metis card_length card_mono distinct_card finite_set le_trans)

section \<open>Strings\<close>

definition starts_with :: "string \<Rightarrow> string \<Rightarrow> bool" where
  "starts_with p s \<longleftrightarrow> take (length p) s = p"

lemma starts_with_code [code]:
  "starts_with [] s = True"
  "starts_with (c # p) [] = False"
  "starts_with (c # p) (d # s) = (c = d \<and> starts_with p s)"
  by (auto simp: starts_with_def)

lemma starts_with_append [simp]: "starts_with p (p @ s)"
  by (simp add: starts_with_def)

lemma starts_with_iff: "starts_with p s \<longleftrightarrow> (\<exists>t. s = p @ t)"
  by (metis append_take_drop_id starts_with_append starts_with_def)

text \<open>\<open>to_ascii_uppercase\<close>: bytes \<open>a\<close> to \<open>z\<close> lose 32, every other byte is kept.\<close>

definition ascii_upper_char :: "char \<Rightarrow> char" where
  "ascii_upper_char c =
     (if CHR ''a'' \<le> c \<and> c \<le> CHR ''z'' then char_of (of_char c - 32 :: nat) else c)"

definition to_ascii_uppercase :: "string \<Rightarrow> string" where
  "to_ascii_uppercase = map ascii_upper_char"

text \<open>\<open>trim\<close> on ASCII: strips the white space bytes 9 to 13 and 32 at both ends.\<close>

definition is_space :: "char \<Rightarrow> bool" where
  "is_space c \<longleftrightarrow> (let n = of_char c :: nat in n = 32 \<or> 9 \<le> n \<and> n \<le> 13)"

definition trim :: "string \<Rightarrow> string" where
  "trim s = rev (dropWhile is_space (rev (dropWhile is_space s)))"

text \<open>\<open>rsplit_once(c)\<close>: the text before and after the last occurrence of \<open>c\<close>.\<close>

definition rsplit_once :: "char \<Rightarrow> string \<Rightarrow> (string \<times> string) option" where
  "rsplit_once c s =
     (if c \<in> set s
      then Some (rev (tl (dropWhile (\<lambda>x. x \<noteq> c) (rev s))), rev (takeWhile (\<lambda>x. x \<noteq> c) (rev s)))
      else None)"

lemma rsplit_once_append:
  assumes "c \<notin> set t"
  shows "rsplit_once c (s @ c # t) = Some (s, t)"
proof -
  have *: "\<forall>x \<in> set (rev t). x \<noteq> c" using assms by auto
  then have "dropWhile (\<lambda>x. x \<noteq> c) (rev t @ c # rev s) = c # rev s"
    and "takeWhile (\<lambda>x. x \<noteq> c) (rev t @ c # rev s) = rev t"
    using dropWhile_append2 [of "rev t" "\<lambda>x. x \<noteq> c" "c # rev s"]
      takeWhile_append2 [of "rev t" "\<lambda>x. x \<noteq> c" "c # rev s"] by auto
  then show ?thesis by (simp add: rsplit_once_def)
qed

lemma rsplit_once_Some:
  assumes "rsplit_once c s = Some (a, b)"
  shows "s = a @ c # b \<and> c \<notin> set b"
proof -
  let ?P = "\<lambda>x. x \<noteq> c"
  from assms have c: "c \<in> set s" and a: "a = rev (tl (dropWhile ?P (rev s)))"
    and b: "b = rev (takeWhile ?P (rev s))"
    by (auto simp: rsplit_once_def split: if_splits)
  from c have ne: "dropWhile ?P (rev s) \<noteq> []" by (auto simp: dropWhile_eq_Nil_conv)
  then have "hd (dropWhile ?P (rev s)) = c" using hd_dropWhile by blast
  with ne have "dropWhile ?P (rev s) = c # rev a" by (metis a list.collapse rev_rev_ident)
  moreover have "rev s = takeWhile ?P (rev s) @ dropWhile ?P (rev s)" by simp
  ultimately have "rev s = rev b @ c # rev a" by (simp add: b)
  then have "s = a @ c # b" by (metis append.assoc append_Cons append_Nil rev.simps(2) rev_append rev_rev_ident)
  moreover have "c \<notin> set b" by (auto simp: b dest: set_takeWhileD)
  ultimately show ?thesis by blast
qed

section \<open>Decimal printing and parsing\<close>

definition digit_char :: "nat \<Rightarrow> char" where
  "digit_char d = char_of (48 + d)"

definition digit_val :: "char \<Rightarrow> nat option" where
  "digit_val c = (let n = of_char c :: nat in if 48 \<le> n \<and> n < 58 then Some (n - 48) else None)"

text \<open>\<open>to_string\<close> of an unsigned integer.\<close>

fun nat_to_string :: "nat \<Rightarrow> string" where
  "nat_to_string n = (if n < 10 then [digit_char n] else nat_to_string (n div 10) @ [digit_char (n mod 10)])"

declare nat_to_string.simps [simp del]

fun parse_digits :: "nat \<Rightarrow> string \<Rightarrow> nat option" where
  "parse_digits acc [] = Some acc"
| "parse_digits acc (c # cs) =
     (case digit_val c of None \<Rightarrow> None | Some d \<Rightarrow> parse_digits (10 * acc + d) cs)"

definition parse_nat :: "string \<Rightarrow> nat option" where
  "parse_nat s = (if s = [] then None else parse_digits 0 s)"

text \<open>\<open>str::parse::<u64>\<close>: an optional plus sign, at least one digit, no overflow.\<close>

definition parse_u64 :: "string \<Rightarrow> u64 option" where
  "parse_u64 s =
     (let ds = (case s of [] \<Rightarrow> s | c # cs \<Rightarrow> if c = CHR ''+'' then cs else s) in
      case parse_nat ds of
        None \<Rightarrow> None
      | Some n \<Rightarrow> if n < 2 ^ 64 then Some (word_of_nat n) else None)"

text \<open>For evaluation: small numbers first, before the bound is computed.\<close>

lemma parse_u64_code [code]:
  "parse_u64 s =
     (let ds = (case s of [] \<Rightarrow> s | c # cs \<Rightarrow> if c = CHR ''+'' then cs else s) in
      case parse_nat ds of
        None \<Rightarrow> None
      | Some n \<Rightarrow> if n < 64 then Some (word_of_nat n) else if n < 2 ^ 64 then Some (word_of_nat n) else None)"
  by (simp add: parse_u64_def Let_def split: option.splits)

definition u64_to_string :: "u64 \<Rightarrow> string" where
  "u64_to_string w = nat_to_string (unat w)"

lemma digit_val_digit_char: "d < 10 \<Longrightarrow> digit_val (digit_char d) = Some d"
  by (simp add: digit_val_def digit_char_def Let_def)

lemma parse_digits_append:
  "parse_digits acc (s @ t) = Option.bind (parse_digits acc s) (\<lambda>a. parse_digits a t)"
  by (induction s arbitrary: acc) (auto split: option.splits)

lemma parse_digits_nat_to_string: "parse_digits 0 (nat_to_string n) = Some n"
proof (induction n rule: nat_to_string.induct)
  case (1 n)
  show ?case
  proof (cases "n < 10")
    case True
    then show ?thesis by (simp add: nat_to_string.simps [of n] digit_val_digit_char)
  next
    case False
    with "1.IH" show ?thesis
      by (simp add: nat_to_string.simps [of n] parse_digits_append digit_val_digit_char)
  qed
qed

lemma nat_to_string_nonempty: "nat_to_string n \<noteq> []"
  by (subst nat_to_string.simps) simp

lemma parse_nat_to_string [simp]: "parse_nat (nat_to_string n) = Some n"
  by (simp add: parse_nat_def nat_to_string_nonempty parse_digits_nat_to_string)

lemma nat_to_string_no_sign:
  assumes "nat_to_string n = c # cs"
  shows "c \<noteq> CHR ''+''"
proof
  assume "c = CHR ''+''"
  then have "parse_digits 0 (nat_to_string n) = None"
    using assms by (simp add: digit_val_def)
  then show False by (simp add: parse_digits_nat_to_string)
qed

lemma parse_u64_nat_to_string:
  "parse_u64 (nat_to_string n) = (if n < 2 ^ 64 then Some (word_of_nat n) else None)"
proof (cases "nat_to_string n")
  case Nil
  then show ?thesis by (simp add: nat_to_string_nonempty)
next
  case (Cons c cs)
  with nat_to_string_no_sign [OF Cons] parse_nat_to_string [of n] show ?thesis
    by (simp add: parse_u64_def)
qed

lemma parse_u64_to_string [simp]: "parse_u64 (u64_to_string w) = Some w"
  using unsigned_less [of w] by (simp add: u64_to_string_def parse_u64_nat_to_string)

section \<open>Bounded retries\<close>

text \<open>
  The body shared by both \<open>with_throttle_retry\<close> functions: run \<open>op\<close>; while it reports a
  retryable error and attempts remain, sleep the current delay and run it again with the doubled,
  capped delay. \<open>n\<close> is the number of further attempts allowed.
\<close>

fun retry_from ::
  "('r \<Rightarrow> bool) \<Rightarrow> ('e \<Rightarrow> u64 \<Rightarrow> 'e) \<Rightarrow> ('e \<Rightarrow> 'e \<times> 'r) \<Rightarrow> nat \<Rightarrow> u64 \<Rightarrow> 'e \<Rightarrow> 'e \<times> 'r" where
  "retry_from retryable sleep op 0 delay e = op e"
| "retry_from retryable sleep op (Suc n) delay e =
     (let (e', r) = op e in
      if retryable r then retry_from retryable sleep op n (min (delay * 2) 800) (sleep e' delay)
      else (e', r))"

text \<open>The environment right before the \<open>i\<close>-th attempt, when all earlier ones are retried.\<close>

fun retry_env :: "('e \<Rightarrow> u64 \<Rightarrow> 'e) \<Rightarrow> ('e \<Rightarrow> 'e \<times> 'r) \<Rightarrow> u64 \<Rightarrow> 'e \<Rightarrow> nat \<Rightarrow> 'e" where
  "retry_env sleep op delay e 0 = e"
| "retry_env sleep op delay e (Suc i) =
     retry_env sleep op (min (delay * 2) 800) (sleep (fst (op e)) delay) i"

lemma retry_from_attempts:
  "\<exists>i \<le> n. retry_from retryable sleep op n delay e = op (retry_env sleep op delay e i) \<and>
     (\<forall>j < i. retryable (snd (op (retry_env sleep op delay e j)))) \<and>
     (i < n \<longrightarrow> \<not> retryable (snd (retry_from retryable sleep op n delay e)))"
proof (induction n arbitrary: delay e)
  case (Suc n)
  obtain e' r where op: "op e = (e', r)" by fastforce
  show ?case
  proof (cases "retryable r")
    case True
    from Suc.IH [of "min (delay * 2) 800" "sleep e' delay"] obtain i where i: "i \<le> n"
      "retry_from retryable sleep op n (min (delay * 2) 800) (sleep e' delay) =
        op (retry_env sleep op (min (delay * 2) 800) (sleep e' delay) i)"
      "\<forall>j < i. retryable (snd (op (retry_env sleep op (min (delay * 2) 800) (sleep e' delay) j)))"
      "i < n \<longrightarrow> \<not> retryable (snd (retry_from retryable sleep op n (min (delay * 2) 800) (sleep e' delay)))"
      by blast
    have "retryable (snd (op (retry_env sleep op delay e j)))" if "j < Suc i" for j
      using that i(3) True op by (cases j) auto
    with i True op show ?thesis by (intro exI [of _ "Suc i"]) simp
  next
    case False
    with op show ?thesis by (intro exI [of _ 0]) simp
  qed
qed simp

text \<open>An invariant of the environment that every attempt and every sleep keeps.\<close>

lemma retry_from_inv:
  assumes "P e" and "\<And>e. P e \<Longrightarrow> retryable (snd (op e)) \<Longrightarrow> P (fst (op e))" and "\<And>e d. P e \<Longrightarrow> P (sleep e d)"
  shows "\<exists>e0. P e0 \<and> retry_from retryable sleep op n delay e = op e0"
  using assms(1)
proof (induction n arbitrary: delay e)
  case (Suc n)
  then show ?case
    using assms(2,3) [of e] assms(2) [of e]
    by (auto simp: Let_def split: prod.splits) (metis assms(3) fst_conv snd_conv)+
qed auto

end
