(* ===== verification/Multistream.thy ===== *)
theory Multistream
  imports Prelude
begin

text \<open>
  Lease-key namespacing (\<open>core/src/multistream.rs\<close>): a lease key is
  \<open>stream:shard\<close> and is split again at its last colon.
\<close>

definition multi_stream_lease_key :: "string \<Rightarrow> string \<Rightarrow> string" where
  "multi_stream_lease_key stream shard = stream @ '':'' @ shard"

definition single_stream_lease_key :: "string \<Rightarrow> string" where
  "single_stream_lease_key shard = shard"

definition parse_lease_key :: "string \<Rightarrow> (string \<times> string) option" where
  "parse_lease_key key = rsplit_once (CHR '':'') key"

definition shard_of :: "string \<Rightarrow> ShardId" where
  "shard_of key =
     (case parse_lease_key key of
        Some (_, shard) \<Rightarrow> shard
      | None \<Rightarrow> key)"

lemma parse_multi_stream_lease_key:
  "CHR '':'' \<notin> set shard \<Longrightarrow> parse_lease_key (multi_stream_lease_key stream shard) = Some (stream, shard)"
  by (simp add: parse_lease_key_def multi_stream_lease_key_def rsplit_once_append)

lemma parse_lease_key_Some:
  "parse_lease_key key = Some (stream, shard) \<Longrightarrow>
   key = multi_stream_lease_key stream shard \<and> CHR '':'' \<notin> set shard"
  by (auto simp: parse_lease_key_def multi_stream_lease_key_def dest: rsplit_once_Some)

text \<open>
  For a shard id without a colon the namespaced key parses back to exactly the
  stream and the shard (the stream may contain colons), \<open>shard_of\<close> recovers the shard from
  both key forms, and conversely every key that parses is the key built from its parts.
\<close>

lemma multi_stream_roundtrip:
  assumes "CHR '':'' \<notin> set shard"
  shows "parse_lease_key (multi_stream_lease_key stream shard) = Some (stream, shard) \<and>
    shard_of (multi_stream_lease_key stream shard) = shard \<and>
    shard_of (single_stream_lease_key shard) = shard \<and>
    (\<forall>st sh. parse_lease_key key = Some (st, sh) \<longrightarrow> multi_stream_lease_key st sh = key)"
proof (intro conjI allI impI)
  show k: "parse_lease_key (multi_stream_lease_key stream shard) = Some (stream, shard)"
    using assms by (rule parse_multi_stream_lease_key)
  show "shard_of (multi_stream_lease_key stream shard) = shard"
    by (simp add: shard_of_def k)
  show "shard_of (single_stream_lease_key shard) = shard"
    using assms by (simp add: shard_of_def single_stream_lease_key_def parse_lease_key_def rsplit_once_def)
  fix st sh assume "parse_lease_key key = Some (st, sh)"
  then show "multi_stream_lease_key st sh = key" using parse_lease_key_Some by metis
qed

end
