(* ===== verification/Backoff.thy ===== *)
theory Backoff
  imports Prelude
begin

text \<open>
  The adaptive poll backoff (\<open>core/src/backoff.rs\<close>): a floor between polls while records
  arrive, an exponential idle backoff up to a cap while they do not.
\<close>

record PollBackoff =
  min_interval_ms :: u64
  idle_base_ms :: u64
  max_ms :: u64
  current_idle_ms :: u64

definition poll_backoff_new :: "u64 \<Rightarrow> u64 \<Rightarrow> u64 \<Rightarrow> PollBackoff" where
  "poll_backoff_new min_i idle_base max_m =
     \<lparr>min_interval_ms = min_i, idle_base_ms = idle_base, max_ms = max_m, current_idle_ms = idle_base\<rparr>"

definition ddb_defaults :: PollBackoff where
  "ddb_defaults = poll_backoff_new 250 1000 5000"

definition next_sleep_ms :: "PollBackoff \<Rightarrow> bool \<Rightarrow> PollBackoff \<times> u64" where
  "next_sleep_ms b got_records =
     (if got_records then (b\<lparr>current_idle_ms := idle_base_ms b\<rparr>, min_interval_ms b)
      else (b\<lparr>current_idle_ms := min (saturating_mul (current_idle_ms b) 2) (max_ms b)\<rparr>,
            current_idle_ms b))"

text \<open>A run of the controller over a sequence of poll outcomes: the sleeps it returns.\<close>

fun backoff_run :: "PollBackoff \<Rightarrow> bool list \<Rightarrow> u64 list" where
  "backoff_run b [] = []"
| "backoff_run b (g # gs) = (let (b', s) = next_sleep_ms b g in s # backoff_run b' gs)"

definition backoff_wf :: "PollBackoff \<Rightarrow> bool" where
  "backoff_wf b \<longleftrightarrow> idle_base_ms b \<le> max_ms b \<and> current_idle_ms b \<le> max_ms b \<and>
     idle_base_ms b \<le> current_idle_ms b"

lemma saturating_double_ge: "a \<le> saturating_mul a 2"
proof -
  have "unat a < 2 ^ 64" using unsigned_less [of a] by simp
  then show ?thesis by (simp add: word_le_nat_alt unat_saturating_mul)
qed

lemma next_sleep_wf: "backoff_wf b \<Longrightarrow> backoff_wf (fst (next_sleep_ms b g))"
  using saturating_double_ge [of "current_idle_ms b"]
  by (auto simp: backoff_wf_def next_sleep_ms_def)

lemma next_sleep_frame [simp]:
  "min_interval_ms (fst (next_sleep_ms b g)) = min_interval_ms b"
  "max_ms (fst (next_sleep_ms b g)) = max_ms b"
  "idle_base_ms (fst (next_sleep_ms b g)) = idle_base_ms b"
  by (auto simp: next_sleep_ms_def)

text \<open>
  From a controller built with a base no larger than its cap, over any sequence of
  poll outcomes, every sleep after a non-empty poll is exactly the throttle floor and every sleep
  after an empty poll lies between the idle base and the cap, even where doubling saturates.
\<close>

lemma backoff_run_bounds:
  assumes "idle_base \<le> max_m" and "i < length gs"
  shows "backoff_run (poll_backoff_new mn idle_base max_m) gs ! i \<in>
           (if gs ! i then {mn} else {idle_base..max_m})"
proof -
  have "backoff_wf b \<Longrightarrow> i < length gs \<Longrightarrow> backoff_run b gs ! i \<in>
          (if gs ! i then {min_interval_ms b} else {idle_base_ms b..max_ms b})" for b
  proof (induction gs arbitrary: b i)
    case (Cons g gs)
    obtain b' s where n: "next_sleep_ms b g = (b', s)" by fastforce
    have "backoff_wf b'" and fr: "min_interval_ms b' = min_interval_ms b"
      "max_ms b' = max_ms b" "idle_base_ms b' = idle_base_ms b"
      using next_sleep_wf [OF Cons.prems(1), of g] next_sleep_frame [of b g] n by simp_all
    then show ?case
      using Cons.IH [of b' "i - 1"] Cons.prems n
      by (cases i) (auto simp: next_sleep_ms_def backoff_wf_def split: if_splits)
  qed simp
  moreover have "backoff_wf (poll_backoff_new mn idle_base max_m)"
    using assms(1) by (simp add: poll_backoff_new_def backoff_wf_def)
  ultimately have "backoff_run (poll_backoff_new mn idle_base max_m) gs ! i \<in>
      (if gs ! i then {min_interval_ms (poll_backoff_new mn idle_base max_m)}
       else {idle_base_ms (poll_backoff_new mn idle_base max_m)..max_ms (poll_backoff_new mn idle_base max_m)})"
    using assms(2) by blast
  then show ?thesis by (simp only: poll_backoff_new_def PollBackoff.simps)
qed

lemma backoff_run_bounds_witness:
  "backoff_run (poll_backoff_new 250 1000 5000) [False, False, False, False, True, False] =
     [1000, 2000, 4000, 5000, 250, 1000] \<and>
   backoff_run (poll_backoff_new 250 1000 5000) [False, False, False, False, True, False] ! 3
     \<in> {1000..5000}"
proof -
  have "(1000::u64) \<le> 5000" and i: "3 < length [False, False, False, False, True, False]" by simp_all
  from backoff_run_bounds [OF this, of 250]
  have "backoff_run (poll_backoff_new 250 1000 5000) [False, False, False, False, True, False] ! 3
     \<in> {1000..5000}" by simp
  then show ?thesis by (simp add: poll_backoff_new_def next_sleep_ms_def saturating_mul_def)
qed

end
