(* ===== verification/Taker.thy ===== *)
theory Taker
  imports Prelude
begin

text \<open>
  The lease-taker's balancing decision (\<open>core/src/taker.rs\<close>). The
  let-bound intermediate values of \<open>compute_leases_to_take\<close> are definitions of their own,
  so that its contract can name them. The one source of nondeterminism of the function, the
  iteration order of the \<open>counts\<close> hash map in \<open>max_by_key\<close>, is the argument
  \<open>ord\<close>; the results hold for every order that lists each worker once
  (\<open>hash_order\<close>).
\<close>

section \<open>Data\<close>

record LeaseSnapshot =
  snap_key :: string
  snap_owner :: "string option"
  snap_expired :: bool
  snap_completed :: bool

text \<open>What Rust documents of hash-table iteration: every element once, in an unspecified order.\<close>

definition hash_order :: "('a list \<Rightarrow> 'a list) \<Rightarrow> bool" where
  "hash_order ord \<longleftrightarrow> (\<forall>xs. distinct xs \<longrightarrow> distinct (ord xs) \<and> set (ord xs) = set xs)"

text \<open>\<open>Iterator::max_by_key\<close>: the last element among those with the greatest key.\<close>

fun max_by_key :: "('a \<Rightarrow> nat) \<Rightarrow> 'a list \<Rightarrow> 'a option" where
  "max_by_key f [] = None"
| "max_by_key f (x # xs) =
     (case max_by_key f xs of None \<Rightarrow> Some x | Some y \<Rightarrow> if f x \<le> f y then Some y else Some x)"

definition div_ceil :: "nat \<Rightarrow> nat \<Rightarrow> nat" where
  "div_ceil a b = (a + b - 1) div b"

section \<open>The decision\<close>

definition active_leases :: "LeaseSnapshot list \<Rightarrow> LeaseSnapshot list" where
  "active_leases leases = filter (\<lambda>l. \<not> snap_completed l) leases"

text \<open>The \<open>workers\<close> set: owners of non-expired active leases, and \<open>me\<close>.\<close>

definition live_owners :: "LeaseSnapshot list \<Rightarrow> string list" where
  "live_owners active = remdups (List.map_filter snap_owner (filter (\<lambda>l. \<not> snap_expired l) active))"

definition live_workers :: "string \<Rightarrow> LeaseSnapshot list \<Rightarrow> string list" where
  "live_workers me active = List.insert me (live_owners active)"

definition fair_target :: "string \<Rightarrow> LeaseSnapshot list \<Rightarrow> nat" where
  "fair_target me active = div_ceil (length active) (length (live_workers me active))"

text \<open>The leases a live worker holds; its length is \<open>my_current\<close> or a count of the victims.\<close>

definition live_leases_of :: "string \<Rightarrow> LeaseSnapshot list \<Rightarrow> LeaseSnapshot list" where
  "live_leases_of w active = filter (\<lambda>l. \<not> snap_expired l \<and> snap_owner l = Some w) active"

definition available_leases :: "string \<Rightarrow> LeaseSnapshot list \<Rightarrow> LeaseSnapshot list" where
  "available_leases me active =
     sort_key snap_key
       (filter (\<lambda>l. snap_owner l = None \<or> snap_expired l)
         (filter (\<lambda>l. snap_owner l \<noteq> Some me) active))"

text \<open>The push loops of both phases: push keys until the need or the cap is exhausted.\<close>

fun push_leases :: "nat \<Rightarrow> nat \<Rightarrow> string list \<Rightarrow> LeaseSnapshot list \<Rightarrow> nat \<times> string list" where
  "push_leases max_to_take need tak [] = (need, tak)"
| "push_leases max_to_take need tak (l # ls) =
     (if need = 0 \<or> length tak = max_to_take then (need, tak)
      else push_leases max_to_take (need - 1) (tak @ [snap_key l]) ls)"

text \<open>The \<open>counts\<close> map as the pairs its iterator yields.\<close>

definition other_counts ::
  "(string list \<Rightarrow> string list) \<Rightarrow> string \<Rightarrow> LeaseSnapshot list \<Rightarrow> (string \<times> nat) list" where
  "other_counts ord me active =
     map (\<lambda>w. (w, length (live_leases_of w active)))
       (ord (filter (\<lambda>w. w \<noteq> me) (live_owners active)))"

definition victim_leases :: "string \<Rightarrow> nat \<Rightarrow> LeaseSnapshot list \<Rightarrow> LeaseSnapshot list" where
  "victim_leases victim stealable active =
     List.take stealable (sort_key snap_key (live_leases_of victim active))"

definition compute_leases_to_take ::
  "(string list \<Rightarrow> string list) \<Rightarrow> LeaseSnapshot list \<Rightarrow> string \<Rightarrow> nat \<Rightarrow> string list" where
  "compute_leases_to_take ord leases me max_to_take =
     (let active = active_leases leases in
      if active = [] \<or> max_to_take = 0 then []
      else
        let target = fair_target me active;
            my_current = length (live_leases_of me active)
        in
        if target \<le> my_current then []
        else
          let (need, tak) = push_leases max_to_take (target - my_current) [] (available_leases me active)
          in
          if 0 < need \<and> length tak < max_to_take then
            (case max_by_key snd (other_counts ord me active) of
               None \<Rightarrow> tak
             | Some (victim, cnt) \<Rightarrow>
                 if target < cnt
                 then snd (push_leases max_to_take need tak (victim_leases victim (cnt - target) active))
                 else tak)
          else tak)"

text \<open>The fixture of the unit tests.\<close>

definition snap :: "string \<Rightarrow> string option \<Rightarrow> bool \<Rightarrow> bool \<Rightarrow> LeaseSnapshot" where
  "snap key owner expired completed =
     \<lparr>snap_key = key, snap_owner = owner, snap_expired = expired, snap_completed = completed\<rparr>"

section \<open>Lemmas\<close>

lemma hash_order_id: "hash_order id"
  by (simp add: hash_order_def)

lemma push_leases_eq:
  "length tak \<le> m \<Longrightarrow>
   push_leases m need tak ls =
     (let k = min (min need (m - length tak)) (length ls)
      in (need - k, tak @ map snap_key (List.take k ls)))"
proof (induction ls arbitrary: need tak)
  case (Cons l ls)
  show ?case
  proof (cases "need = 0 \<or> length tak = m")
    case False
    then obtain n where n: "need = Suc n" and lt: "length tak < m"
      using Cons.prems by (cases need) auto
    from lt obtain j where j: "m - length tak = Suc j" by (metis Suc_diff_Suc)
    then have "m - Suc (length tak) = j" by simp
    with False Cons.IH [of "tak @ [snap_key l]" n] n j lt show ?thesis
      by (simp add: Let_def)
  qed auto
qed simp

lemma max_by_key_None [simp]: "max_by_key f xs = None \<longleftrightarrow> xs = []"
  by (cases xs) (auto split: option.splits)

lemma max_by_key_Some:
  "max_by_key f xs = Some y \<Longrightarrow> y \<in> set xs \<and> (\<forall>x \<in> set xs. f x \<le> f y)"
proof (induction xs arbitrary: y)
  case (Cons x xs)
  then show ?case
    by (cases "max_by_key f xs") (auto split: if_splits dest: order_trans)
qed simp

lemma div_ceil_ge: "0 < n \<Longrightarrow> t \<le> n * div_ceil t n"
proof -
  assume "0 < n"
  then have "(t + n - 1) mod n \<le> n - 1" using mod_less_divisor [of n "t + n - 1"] by linarith
  moreover have "n * ((t + n - 1) div n) = t + n - 1 - (t + n - 1) mod n"
    by (simp add: minus_mod_eq_mult_div)
  ultimately show ?thesis using \<open>0 < n\<close> by (simp add: div_ceil_def)
qed

lemma set_live_owners:
  "set (live_owners active) = {w. \<exists>l \<in> set active. \<not> snap_expired l \<and> snap_owner l = Some w}"
  by (force simp: live_owners_def List.map_filter_def)

lemma distinct_live_owners [simp]: "distinct (live_owners active)"
  by (simp add: live_owners_def)

lemma live_owners_load: "w \<in> set (live_owners active) \<longleftrightarrow> live_leases_of w active \<noteq> []"
  by (auto simp: set_live_owners live_leases_of_def filter_empty_conv)

lemma live_workers_pos: "0 < length (live_workers me active)"
  by (auto simp: live_workers_def List.insert_def dest: length_pos_if_in_set)

lemma other_counts_member:
  assumes "hash_order ord"
  shows "(w, n) \<in> set (other_counts ord me active) \<longleftrightarrow>
           w \<noteq> me \<and> live_leases_of w active \<noteq> [] \<and> n = length (live_leases_of w active)"
proof -
  have "set (ord (filter (\<lambda>w. w \<noteq> me) (live_owners active))) = {w \<in> set (live_owners active). w \<noteq> me}"
    using assms by (simp add: hash_order_def)
  then show ?thesis by (auto simp: other_counts_def live_owners_load)
qed

text \<open>The steal phase, as a list: the leases it may push.\<close>

definition steal_candidates :: "(string list \<Rightarrow> string list) \<Rightarrow> string \<Rightarrow> LeaseSnapshot list \<Rightarrow> LeaseSnapshot list" where
  "steal_candidates ord me active =
     (case max_by_key snd (other_counts ord me active) of
        None \<Rightarrow> []
      | Some (victim, cnt) \<Rightarrow>
          if fair_target me active < cnt
          then victim_leases victim (cnt - fair_target me active) active else [])"

text \<open>Both phases together: a capped prefix of the available leases followed by the steals.\<close>

lemma push_twice:
  assumes "push_leases m need [] av = (need', out)"
  shows "(if 0 < need' \<and> length out < m then snd (push_leases m need' out st) else out) =
    map snap_key (List.take (min need m) (av @ st))"
proof -
  define k where "k = min (min need m) (length av)"
  have out: "need' = need - k" "out = map snap_key (List.take k av)" "length out = k"
    using assms by (auto simp: push_leases_eq k_def Let_def)
  show ?thesis
  proof (cases "0 < need' \<and> k < m")
    case True
    then have k: "k = length av" using out(1) by (auto simp: k_def)
    have "map snap_key (List.take (min (min (need - k) (m - k)) (length st)) st) = map snap_key (List.take (min need m - k) st)"
      by (simp add: min_diff take_map [symmetric] min_def)
    moreover have "List.take (min need m) av = av" using True k out(1) by simp
    ultimately show ?thesis using True k out by (simp add: push_leases_eq Let_def)
  next
    case False
    then have "min need m \<le> length av" using out(1) by (auto simp: k_def)
    with False show ?thesis unfolding out by (auto simp: k_def min_def)
  qed
qed

lemma compute_leases_to_take_eq:
  "compute_leases_to_take ord leases me m =
     (let active = active_leases leases; need = fair_target me active - length (live_leases_of me active)
      in map snap_key
           (List.take (min need m) (available_leases me active @ steal_candidates ord me active)))"
proof -
  let ?active = "active_leases leases"
  let ?need = "fair_target me ?active - length (live_leases_of me ?active)"
  have none: "fair_target me [] = 0"
    by (simp add: fair_target_def div_ceil_def live_workers_def live_owners_def List.map_filter_def)
  obtain need' out where push: "push_leases m ?need [] (available_leases me ?active) = (need', out)" by fastforce
  have steal: "compute_leases_to_take ord leases me m =
      (if 0 < need' \<and> length out < m then snd (push_leases m need' out (steal_candidates ord me ?active)) else out)"
    if "?active \<noteq> []" "m \<noteq> 0" "?need \<noteq> 0"
    using that push by (auto simp: compute_leases_to_take_def Let_def steal_candidates_def split: option.splits)
  show ?thesis
  proof (cases "?active = [] \<or> m = 0 \<or> ?need = 0")
    case True
    with none show ?thesis by (auto simp: compute_leases_to_take_def Let_def)
  next
    case False
    with steal push_twice [OF push] show ?thesis by (simp add: Let_def)
  qed
qed

lemma set_available:
  "l \<in> set (available_leases me active) \<longleftrightarrow>
     l \<in> set active \<and> snap_owner l \<noteq> Some me \<and> (snap_owner l = None \<or> snap_expired l)"
  by (auto simp: available_leases_def)

lemma set_steal_candidates:
  assumes "hash_order ord" and "l \<in> set (steal_candidates ord me active)"
  shows "l \<in> set active \<and> \<not> snap_expired l \<and>
    (\<exists>w. snap_owner l = Some w \<and> w \<noteq> me \<and> fair_target me active < length (live_leases_of w active))"
proof -
  from assms(2) obtain v c where mx: "max_by_key snd (other_counts ord me active) = Some (v, c)"
    and lt: "fair_target me active < c"
    and l: "l \<in> set (victim_leases v (c - fair_target me active) active)"
    by (cases "max_by_key snd (other_counts ord me active)")
      (auto simp: steal_candidates_def split: if_splits)
  from mx have "(v, c) \<in> set (other_counts ord me active)" by (blast dest: max_by_key_Some)
  then have "v \<noteq> me" "c = length (live_leases_of v active)"
    using other_counts_member [OF assms(1)] by auto
  moreover from l have "l \<in> set (live_leases_of v active)"
    by (auto simp: victim_leases_def dest: in_set_takeD)
  ultimately show ?thesis using lt by (auto simp: live_leases_of_def)
qed

lemma length_steal_candidates:
  assumes "hash_order ord"
  shows "steal_candidates ord me active = [] \<longleftrightarrow>
    (\<forall>w. w \<noteq> me \<longrightarrow> length (live_leases_of w active) \<le> fair_target me active)"
proof (cases "max_by_key snd (other_counts ord me active)")
  case None
  then have "other_counts ord me active = []" by simp
  then have "\<And>w. w \<noteq> me \<Longrightarrow> live_leases_of w active = []"
    using other_counts_member [OF assms, of _ _ me active] by auto
  with None show ?thesis by (auto simp: steal_candidates_def)
next
  case (Some vc)
  obtain v c where vc: "vc = (v, c)" by fastforce
  have mem: "(v, c) \<in> set (other_counts ord me active)"
    and mx: "\<And>w n. (w, n) \<in> set (other_counts ord me active) \<Longrightarrow> n \<le> c"
    using max_by_key_Some [OF Some] vc by auto
  from mem have v: "v \<noteq> me" "c = length (live_leases_of v active)"
    using other_counts_member [OF assms] by auto
  have bound: "length (live_leases_of w active) \<le> c" if "w \<noteq> me" for w
    using mx [of w] other_counts_member [OF assms, of w _ me active] that
    by (cases "live_leases_of w active = []") auto
  show ?thesis
  proof (cases "fair_target me active < c")
    case True
    then have "victim_leases v (c - fair_target me active) active \<noteq> []"
      using v by (auto simp: victim_leases_def) (metis length_0_conv length_sort not_less_zero)
    with True v Some vc show ?thesis by (auto simp: steal_candidates_def)
  next
    case False
    then have "length (live_leases_of w active) \<le> fair_target me active" if "w \<noteq> me" for w
      using bound [OF that] by linarith
    with False Some vc show ?thesis by (auto simp: steal_candidates_def)
  qed
qed


lemma taken_keys:
  assumes "k \<in> set (compute_leases_to_take ord leases me m)"
  obtains l where "l \<in> set (available_leases me (active_leases leases)) \<union>
      set (steal_candidates ord me (active_leases leases))" and "snap_key l = k"
proof -
  let ?a = "active_leases leases"
  from assms obtain n where "k \<in> snap_key ` set (List.take n (available_leases me ?a @ steal_candidates ord me ?a))"
    by (auto simp only: compute_leases_to_take_eq Let_def set_map)
  then obtain l where "l \<in> set (List.take n (available_leases me ?a @ steal_candidates ord me ?a))" "snap_key l = k"
    by blast
  then show ?thesis using that by (metis in_set_takeD set_append)
qed

lemma steal_candidates_owner:
  assumes "hash_order ord" and "w \<noteq> me" and "l \<in> set (steal_candidates ord me active)"
    and "snap_owner l = Some w"
  shows "length (steal_candidates ord me active) \<le>
    length (live_leases_of w active) - fair_target me active"
proof -
  from assms(3) obtain v c where mx: "max_by_key snd (other_counts ord me active) = Some (v, c)"
    and lt: "fair_target me active < c"
    and l: "l \<in> set (victim_leases v (c - fair_target me active) active)"
    by (cases "max_by_key snd (other_counts ord me active)")
      (auto simp: steal_candidates_def split: if_splits)
  from l have "l \<in> set (live_leases_of v active)"
    by (auto simp: victim_leases_def dest: in_set_takeD)
  with assms(4) have "v = w" by (auto simp: live_leases_of_def)
  moreover from mx have "c = length (live_leases_of v active)"
    using max_by_key_Some [OF mx] other_counts_member [OF assms(1)] by auto
  ultimately show ?thesis using mx lt by (simp add: steal_candidates_def victim_leases_def)
qed

lemma taken_lease_sound:
  assumes "hash_order ord" and "k \<in> set (compute_leases_to_take ord leases me m)"
  shows "\<exists>l \<in> set leases. snap_key l = k \<and> \<not> snap_completed l \<and> snap_owner l \<noteq> Some me \<and>
       (snap_owner l = None \<or> snap_expired l \<or>
        (\<exists>w. snap_owner l = Some w \<and>
           fair_target me (active_leases leases) < length (live_leases_of w (active_leases leases))))"
proof -
  let ?a = "active_leases leases"
  from assms(2) obtain l
    where l: "l \<in> set (available_leases me ?a) \<union> set (steal_candidates ord me ?a)" "snap_key l = k"
    by (rule taken_keys)
  moreover have "l \<in> set ?a \<Longrightarrow> l \<in> set leases \<and> \<not> snap_completed l" by (auto simp: active_leases_def)
  ultimately show ?thesis
    using set_available [of l me ?a] set_steal_candidates [OF assms(1), of l me ?a] by auto
qed

lemma length_compute_leases_to_take:
  "length (compute_leases_to_take ord leases me m) \<le>
     min (fair_target me (active_leases leases) - length (live_leases_of me (active_leases leases))) m"
  by (simp only: compute_leases_to_take_eq Let_def length_map length_take min.cobounded2)

lemma sum_live_leases:
  assumes "\<forall>l \<in> set active. \<not> snap_expired l \<and> (\<exists>w \<in> set ws. snap_owner l = Some w)" and "distinct ws"
  shows "(\<Sum>w \<leftarrow> ws. length (live_leases_of w active)) = length active"
  using assms(1)
proof (induction active)
  case (Cons l active)
  then obtain w where w: "w \<in> set ws" "snap_owner l = Some w" "\<not> snap_expired l" by auto
  have one: "(\<Sum>x \<leftarrow> ws. if w = x then 1 else 0 :: nat) = 1"
    using w(1) assms(2) by (induction ws) (auto simp: sum_list_0 split: if_splits)
  have "(\<Sum>x \<leftarrow> ws. length (live_leases_of x (l # active))) =
        (\<Sum>x \<leftarrow> ws. (if w = x then 1 else 0) + length (live_leases_of x active))"
    using w by (intro arg_cong [where f = sum_list] map_cong) (auto simp: live_leases_of_def)
  also have "\<dots> = 1 + length active"
    using Cons one by (simp add: sum_list_addf)
  finally show ?case by simp
qed (simp add: live_leases_of_def)

section \<open>Properties\<close>



text \<open>
  C25 (safety). Stealing never pushes its victim below the fair share: of a live worker's leases at
  most the surplus above the target is asked for, and none of a worker that is at or below it.
\<close>

theorem steal_keeps_victim_at_target:
  assumes "hash_order ord" and "distinct (map snap_key leases)" and "w \<noteq> me"
  shows "length (filter (\<lambda>l. snap_key l \<in> set (compute_leases_to_take ord leases me m))
            (live_leases_of w (active_leases leases)))
         \<le> length (live_leases_of w (active_leases leases)) - fair_target me (active_leases leases)"
proof -
  let ?a = "active_leases leases"
  let ?S = "steal_candidates ord me ?a"
  let ?F = "filter (\<lambda>l. snap_key l \<in> set (compute_leases_to_take ord leases me m)) (live_leases_of w ?a)"
  have inj: "inj_on snap_key (set leases)" and dist: "distinct leases"
    using assms(2) by (simp_all add: distinct_map)
  have "l \<in> set ?S" if l: "l \<in> set ?F" for l
  proof -
    from l have w: "l \<in> set ?a" "\<not> snap_expired l" "snap_owner l = Some w"
      and k: "snap_key l \<in> set (compute_leases_to_take ord leases me m)"
      by (auto simp: live_leases_of_def)
    from k obtain l' where l': "l' \<in> set (available_leases me ?a) \<union> set ?S" "snap_key l' = snap_key l"
      by (rule taken_keys)
    then have "l' \<in> set leases"
      using set_available [of l' me ?a] set_steal_candidates [OF assms(1), of l' me ?a]
      by (auto simp: active_leases_def)
    then have "l' = l" using inj l'(2) w(1) by (auto simp: inj_on_def active_leases_def)
    with l' w assms(3) show ?thesis using set_available [of l me ?a] by auto
  qed
  then have sub: "set ?F \<subseteq> set ?S" by blast
  have "distinct ?F" using dist by (simp add: live_leases_of_def active_leases_def)
  then have "length ?F \<le> length ?S" using sub by (metis card_length card_mono distinct_card finite_set le_trans)
  then show ?thesis
  proof (cases ?F)
    case (Cons l ls)
    then have "l \<in> set ?S" "snap_owner l = Some w"
      using sub by (auto simp: live_leases_of_def) (metis (mono_tags, lifting) filter_eq_Cons_iff filter_filter list.set_intros(1) mem_Collect_eq set_filter)
    with \<open>length ?F \<le> length ?S\<close> show ?thesis
      using steal_candidates_owner [OF assms(1,3)] by fastforce
  qed simp
qed

theorem steal_keeps_victim_at_target_witness:
  "length (filter (\<lambda>l. snap_key l \<in> set (compute_leases_to_take id
       [snap ''a'' (Some ''w1'') False False, snap ''b'' (Some ''w2'') False False,
        snap ''c'' (Some ''w2'') False False, snap ''d'' (Some ''w2'') False False] ''w1'' 10))
     (live_leases_of ''w2'' (active_leases
       [snap ''a'' (Some ''w1'') False False, snap ''b'' (Some ''w2'') False False,
        snap ''c'' (Some ''w2'') False False, snap ''d'' (Some ''w2'') False False]))) \<le> 1 \<and>
   compute_leases_to_take id
       [snap ''a'' (Some ''w1'') False False, snap ''b'' (Some ''w2'') False False,
        snap ''c'' (Some ''w2'') False False, snap ''d'' (Some ''w2'') False False] ''w1'' 10 = [''b'']"
    (is "length (filter _ (live_leases_of _ (active_leases ?ls))) \<le> 1 \<and> ?T = _")
proof -
  have "distinct (map snap_key ?ls)" and "''w2'' \<noteq> (''w1'' :: string)" by (simp_all add: snap_def)
  note steal_keeps_victim_at_target [OF hash_order_id this, of 10]
  moreover have "length (live_leases_of ''w2'' (active_leases ?ls)) - fair_target ''w1'' (active_leases ?ls) = 1"
    and "?T = [''b'']" by code_simp+
  ultimately show ?thesis by metis
qed

text \<open>
  With a positive cap, the decision is empty exactly when there is nothing to
  gain: no unfinished lease, or the worker already holds its fair share, or nothing is available
  and no other worker exceeds the fair share. In particular a worker below its share always
  claims an available lease.
\<close>

lemma compute_leases_to_take_quiescent:
  assumes "hash_order ord" and "0 < m"
  shows "compute_leases_to_take ord leases me m = [] \<longleftrightarrow>
    fair_target me (active_leases leases) \<le> length (live_leases_of me (active_leases leases)) \<or>
    (\<forall>l \<in> set (active_leases leases). snap_owner l = Some me \<or> snap_owner l \<noteq> None \<and> \<not> snap_expired l) \<and>
    (\<forall>w. w \<noteq> me \<longrightarrow> length (live_leases_of w (active_leases leases)) \<le> fair_target me (active_leases leases))"
proof -
  let ?a = "active_leases leases"
  have "available_leases me ?a = [] \<longleftrightarrow>
      (\<forall>l \<in> set ?a. snap_owner l = Some me \<or> snap_owner l \<noteq> None \<and> \<not> snap_expired l)"
    using set_available [of _ me ?a] by (metis (no_types, lifting) empty_iff list.set(1) list.set_intros(1) neq_Nil_conv)
  then show ?thesis
    using assms(2) length_steal_candidates [OF assms(1), of me ?a]
    by (auto simp: compute_leases_to_take_eq Let_def)
qed



end
