(* ===== verification/Coordinator.thy ===== *)
theory Coordinator
  imports Taker
begin

text \<open>
  The lease coordinator (\<open>core/src/coordinator.rs\<close>): a worker's view of the liveness of
  the other workers, kept from scan to scan of the lease table, and the take decision it feeds.
  Liveness is judged per worker from its heartbeat row; an owner without a heartbeat row gets a
  grace clock at first sight. \<open>tick\<close> is split at the comments of the source: the
  heartbeat loop, the grace loop, the \<open>retain\<close>, and the snapshot.
\<close>

section \<open>Data\<close>

definition HEARTBEAT_KEY_PREFIX :: string where
  "HEARTBEAT_KEY_PREFIX = ''__hb__:''"

definition heartbeat_key :: "string \<Rightarrow> string" where
  "heartbeat_key worker = HEARTBEAT_KEY_PREFIX @ worker"

definition is_heartbeat_key :: "string \<Rightarrow> bool" where
  "is_heartbeat_key key = starts_with HEARTBEAT_KEY_PREFIX key"

record RawLease =
  rl_key :: string
  rl_owner :: "string option"
  rl_counter :: u64
  rl_completed :: bool
  rl_checkpoint :: "string option"
  rl_parents :: "string list"

record Seen =
  seen_counter :: u64
  seen_last_change_ms :: u64

record LeaseCoordinator =
  coord_me :: string
  coord_max_take :: nat
  coord_lease_duration_ms :: u64
  coord_seen :: "string \<rightharpoonup> Seen"

definition coordinator_new :: "string \<Rightarrow> nat \<Rightarrow> u64 \<Rightarrow> LeaseCoordinator" where
  "coordinator_new me max_take dur =
     \<lparr>coord_me = me, coord_max_take = max_take, coord_lease_duration_ms = dur, coord_seen = Map.empty\<rparr>"

section \<open>The tick\<close>

definition observe_heartbeat :: "u64 \<Rightarrow> (string \<rightharpoonup> Seen) \<Rightarrow> RawLease \<Rightarrow> (string \<rightharpoonup> Seen)" where
  "observe_heartbeat now_ms seen r =
     (case rl_owner r of
        None \<Rightarrow> seen
      | Some worker \<Rightarrow>
          (case seen worker of
             Some s \<Rightarrow>
               if rl_counter r \<noteq> seen_counter s
               then seen(worker \<mapsto> \<lparr>seen_counter = rl_counter r, seen_last_change_ms = now_ms\<rparr>)
               else seen
           | None \<Rightarrow> seen(worker \<mapsto> \<lparr>seen_counter = rl_counter r, seen_last_change_ms = now_ms\<rparr>)))"

definition seed_grace :: "string \<Rightarrow> u64 \<Rightarrow> (string \<rightharpoonup> Seen) \<Rightarrow> RawLease \<Rightarrow> (string \<rightharpoonup> Seen)" where
  "seed_grace me now_ms seen r =
     (case rl_owner r of
        None \<Rightarrow> seen
      | Some ow \<Rightarrow>
          if ow \<noteq> me then
            (case seen ow of
               Some _ \<Rightarrow> seen
             | None \<Rightarrow> seen(ow \<mapsto> \<lparr>seen_counter = 0, seen_last_change_ms = now_ms\<rparr>))
          else seen)"

definition retain_workers :: "RawLease list \<Rightarrow> (string \<rightharpoonup> Seen) \<Rightarrow> (string \<rightharpoonup> Seen)" where
  "retain_workers rows seen =
     (\<lambda>w. if w \<in> set (List.map_filter rl_owner rows) then seen w else None)"

definition heartbeat_rows :: "RawLease list \<Rightarrow> RawLease list" where
  "heartbeat_rows rows = filter (\<lambda>r. is_heartbeat_key (rl_key r)) rows"

definition shard_rows :: "RawLease list \<Rightarrow> RawLease list" where
  "shard_rows rows = filter (\<lambda>r. \<not> is_heartbeat_key (rl_key r)) rows"

definition update_seen :: "string \<Rightarrow> u64 \<Rightarrow> RawLease list \<Rightarrow> (string \<rightharpoonup> Seen) \<Rightarrow> (string \<rightharpoonup> Seen)" where
  "update_seen me now_ms rows seen =
     retain_workers rows
       (foldl (seed_grace me now_ms)
         (foldl (observe_heartbeat now_ms) seen (heartbeat_rows rows))
         (shard_rows rows))"

definition is_owner_expired :: "LeaseCoordinator \<Rightarrow> string option \<Rightarrow> u64 \<Rightarrow> bool" where
  "is_owner_expired c owner now_ms =
     (case owner of
        None \<Rightarrow> False
      | Some ow \<Rightarrow>
          if ow = coord_me c then False
          else (case coord_seen c ow of
                  Some s \<Rightarrow> coord_lease_duration_ms c < saturating_sub now_ms (seen_last_change_ms s)
                | None \<Rightarrow> False))"

definition lease_snapshot :: "LeaseCoordinator \<Rightarrow> u64 \<Rightarrow> RawLease \<Rightarrow> LeaseSnapshot" where
  "lease_snapshot c now_ms r =
     \<lparr>snap_key = rl_key r, snap_owner = rl_owner r,
      snap_expired = is_owner_expired c (rl_owner r) now_ms, snap_completed = rl_completed r\<rparr>"

definition tick ::
  "(string list \<Rightarrow> string list) \<Rightarrow> LeaseCoordinator \<Rightarrow> RawLease list \<Rightarrow> u64 \<Rightarrow> LeaseCoordinator \<times> string list" where
  "tick ord c rows now_ms =
     (let c' = c\<lparr>coord_seen := update_seen (coord_me c) now_ms rows (coord_seen c)\<rparr>;
          snapshot = map (lease_snapshot c' now_ms) (shard_rows rows)
      in (c', compute_leases_to_take ord snapshot (coord_me c') (coord_max_take c')))"

text \<open>The fixtures of the unit tests.\<close>

definition row :: "string \<Rightarrow> string option \<Rightarrow> u64 \<Rightarrow> bool \<Rightarrow> RawLease" where
  "row key owner counter completed =
     \<lparr>rl_key = key, rl_owner = owner, rl_counter = counter, rl_completed = completed,
      rl_checkpoint = None, rl_parents = []\<rparr>"

definition hb :: "string \<Rightarrow> u64 \<Rightarrow> RawLease" where
  "hb worker counter = row (heartbeat_key worker) (Some worker) counter False"

definition balanced_with_hb :: "RawLease list" where
  "balanced_with_hb =
     [row ''a'' (Some ''w1'') 1 False, row ''b'' (Some ''w1'') 1 False,
      row ''c'' (Some ''w2'') 5 False, row ''d'' (Some ''w2'') 5 False,
      hb ''w1'' 100, hb ''w2'' 200]"

text \<open>A history of scans, each a table snapshot and the time it was taken.\<close>

fun tick_run ::
  "(string list \<Rightarrow> string list) \<Rightarrow> LeaseCoordinator \<Rightarrow> (RawLease list \<times> u64) list \<Rightarrow> LeaseCoordinator" where
  "tick_run ord c [] = c"
| "tick_run ord c ((rows, now_ms) # scans) = tick_run ord (fst (tick ord c rows now_ms)) scans"

section \<open>Lemmas\<close>

lemma is_heartbeat_key_heartbeat_key [simp]: "is_heartbeat_key (heartbeat_key w)"
  by (simp add: is_heartbeat_key_def heartbeat_key_def)

lemma is_heartbeat_key_iff: "is_heartbeat_key k \<longleftrightarrow> (\<exists>w. k = heartbeat_key w)"
  by (auto simp: is_heartbeat_key_def heartbeat_key_def starts_with_iff)

lemma tick_frame [simp]:
  "coord_me (fst (tick ord c rows now)) = coord_me c"
  "coord_max_take (fst (tick ord c rows now)) = coord_max_take c"
  "coord_lease_duration_ms (fst (tick ord c rows now)) = coord_lease_duration_ms c"
  by (simp_all add: tick_def Let_def)

lemma tick_seen: "coord_seen (fst (tick ord c rows now)) = update_seen (coord_me c) now rows (coord_seen c)"
  by (simp add: tick_def Let_def)

text \<open>The counters the heartbeat rows of a worker show in a scan.\<close>

definition hb_counters :: "string \<Rightarrow> RawLease list \<Rightarrow> u64 list" where
  "hb_counters w rows = map rl_counter (filter (\<lambda>r. rl_owner r = Some w) (heartbeat_rows rows))"

definition mentions :: "string \<Rightarrow> RawLease list \<Rightarrow> bool" where
  "mentions w rows \<longleftrightarrow> w \<in> set (List.map_filter rl_owner rows)"

text \<open>All heartbeat rows of \<open>w\<close> show \<open>k\<close>; without one, \<open>k\<close> is the seeded 0.\<close>

definition distinct_counter :: "string \<Rightarrow> u64 \<Rightarrow> RawLease list \<Rightarrow> bool" where
  "distinct_counter w k rows \<longleftrightarrow>
     (if hb_counters w rows = [] then k = 0 else set (hb_counters w rows) = {k})"

text \<open>The worker \<open>w\<close> holds more live, unfinished leases of the scan than the fair share.\<close>

definition surplus :: "LeaseCoordinator \<Rightarrow> RawLease list \<Rightarrow> u64 \<Rightarrow> string \<Rightarrow> bool" where
  "surplus c rows now w \<longleftrightarrow>
     (let active = active_leases (map (lease_snapshot c now) (shard_rows rows))
      in fair_target (coord_me c) active < length (live_leases_of w active))"

lemma mentions_iff: "mentions w rows \<longleftrightarrow> (\<exists>r \<in> set rows. rl_owner r = Some w)"
  by (force simp: mentions_def List.map_filter_def)

text \<open>One worker's entry after the heartbeat loop depends only on that worker's heartbeat rows.\<close>

fun observe_counters :: "u64 \<Rightarrow> Seen option \<Rightarrow> u64 list \<Rightarrow> Seen option" where
  "observe_counters now s [] = s"
| "observe_counters now s (k # ks) =
     observe_counters now
       (case s of
          Some s' \<Rightarrow> if k \<noteq> seen_counter s' then Some \<lparr>seen_counter = k, seen_last_change_ms = now\<rparr> else s
        | None \<Rightarrow> Some \<lparr>seen_counter = k, seen_last_change_ms = now\<rparr>) ks"

lemma foldl_observe_heartbeat:
  "foldl (observe_heartbeat now) seen rs w =
     observe_counters now (seen w) (map rl_counter (filter (\<lambda>r. rl_owner r = Some w) rs))"
  by (induction rs arbitrary: seen) (auto simp: observe_heartbeat_def split: option.splits)

lemma foldl_seed_grace:
  "foldl (seed_grace me now) seen rs w =
     (case seen w of
        Some s \<Rightarrow> Some s
      | None \<Rightarrow> if w \<noteq> me \<and> (\<exists>r \<in> set rs. rl_owner r = Some w)
                then Some \<lparr>seen_counter = 0, seen_last_change_ms = now\<rparr> else None)"
  by (induction rs arbitrary: seen) (auto simp: seed_grace_def split: option.splits)

lemma update_seen_eq:
  "update_seen me now rows seen w =
     (if \<not> mentions w rows then None
      else case observe_counters now (seen w) (hb_counters w rows) of
             Some s \<Rightarrow> Some s
           | None \<Rightarrow> if w \<noteq> me \<and> (\<exists>r \<in> set (shard_rows rows). rl_owner r = Some w)
                     then Some \<lparr>seen_counter = 0, seen_last_change_ms = now\<rparr> else None)"
  by (simp add: update_seen_def retain_workers_def foldl_seed_grace foldl_observe_heartbeat
      hb_counters_def mentions_def split: option.splits)

lemma observe_counters_stale:
  "set ks \<subseteq> {seen_counter s} \<Longrightarrow> observe_counters now (Some s) ks = Some s"
  by (induction ks) auto

lemma observe_counters_fresh:
  assumes "k \<in> set ks" "s = None \<or> (\<exists>s'. s = Some s' \<and> (k \<noteq> seen_counter s' \<or> seen_last_change_ms s' = now))"
  shows "\<exists>s'. observe_counters now s ks = Some s' \<and> seen_last_change_ms s' = now"
  using assms
proof (induction ks arbitrary: s)
  case (Cons k' ks)
  have done_now: "\<exists>s'. observe_counters now (Some t) ks = Some s' \<and> seen_last_change_ms s' = now"
    if "seen_last_change_ms t = now" for t
    using that by (induction ks arbitrary: t) (auto split: if_splits)
  show ?case
  proof (cases s)
    case None
    then show ?thesis using done_now by simp
  next
    case (Some t)
    show ?thesis
    proof (cases "k' \<noteq> seen_counter t \<or> seen_last_change_ms t = now")
      case True
      with Some done_now show ?thesis by auto
    next
      case False
      with Cons.prems Some have "k \<in> set ks" "k \<noteq> seen_counter t" by auto
      with Cons.IH [of "Some t"] False Some show ?thesis by auto
    qed
  qed
qed simp

lemma tick_result:
  "snd (tick ord c rows now) =
     compute_leases_to_take ord
       (map (lease_snapshot (fst (tick ord c rows now)) now) (shard_rows rows))
       (coord_me c) (coord_max_take c)"
  by (simp add: tick_def Let_def)

lemma lease_snapshot_simps [simp]:
  "snap_key (lease_snapshot c now r) = rl_key r"
  "snap_owner (lease_snapshot c now r) = rl_owner r"
  "snap_completed (lease_snapshot c now r) = rl_completed r"
  "snap_expired (lease_snapshot c now r) = is_owner_expired c (rl_owner r) now"
  by (simp_all add: lease_snapshot_def)

lemma is_owner_expired_fresh:
  "coord_seen c w = Some s \<Longrightarrow> seen_last_change_ms s = now \<Longrightarrow> \<not> is_owner_expired c (Some w) now"
  by (simp add: is_owner_expired_def)

lemma tick_takes:
  assumes "hash_order ord" and "k \<in> set (snd (tick ord c rows now))"
  shows "\<exists>r \<in> set rows. rl_key r = k \<and> \<not> is_heartbeat_key k \<and> \<not> rl_completed r \<and>
    rl_owner r \<noteq> Some (coord_me c) \<and>
    (rl_owner r = None \<or> is_owner_expired (fst (tick ord c rows now)) (rl_owner r) now \<or>
     (\<exists>w. rl_owner r = Some w \<and> surplus (fst (tick ord c rows now)) rows now w))"
proof -
  let ?c = "fst (tick ord c rows now)"
  let ?sn = "map (lease_snapshot ?c now) (shard_rows rows)"
  from assms(2) have "k \<in> set (compute_leases_to_take ord ?sn (coord_me c) (coord_max_take c))"
    by (simp add: tick_result)
  from taken_lease_sound [OF assms(1) this] obtain r where "r \<in> set (shard_rows rows)" "rl_key r = k"
    "\<not> rl_completed r" "rl_owner r \<noteq> Some (coord_me c)"
    "rl_owner r = None \<or> is_owner_expired ?c (rl_owner r) now \<or>
     (\<exists>w. rl_owner r = Some w \<and>
        fair_target (coord_me c) (active_leases ?sn) < length (live_leases_of w (active_leases ?sn)))"
    by auto
  then show ?thesis by (auto simp: shard_rows_def surplus_def)
qed

lemma update_seen_stale:
  assumes "mentions w rows" and "seen w = Some s" and "set (hb_counters w rows) \<subseteq> {seen_counter s}"
  shows "update_seen me now rows seen w = Some s"
  using assms by (simp add: update_seen_eq observe_counters_stale)

lemma tick_run_stale:
  assumes "coord_seen c w = Some s"
    and "\<forall>(rows, t) \<in> set scans. mentions w rows \<and> set (hb_counters w rows) \<subseteq> {seen_counter s}"
  shows "coord_seen (tick_run ord c scans) w = Some s"
  using assms
proof (induction scans arbitrary: c)
  case (Cons scan scans)
  obtain rows t where "scan = (rows, t)" by fastforce
  with Cons show ?case by (auto simp: tick_seen update_seen_stale)
qed simp

lemma tick_run_frame [simp]:
  "coord_me (tick_run ord c scans) = coord_me c"
  "coord_lease_duration_ms (tick_run ord c scans) = coord_lease_duration_ms c"
  by (induction scans arbitrary: c) auto

lemma tick_first_sight:
  assumes "coord_seen c w = None" and "w \<noteq> coord_me c" and "mentions w rows" and "distinct_counter w k rows"
  shows "coord_seen (fst (tick ord c rows t)) w = Some \<lparr>seen_counter = k, seen_last_change_ms = t\<rparr>"
proof (cases "hb_counters w rows")
  case Nil
  with assms(3) have "\<exists>r \<in> set (shard_rows rows). rl_owner r = Some w"
    by (auto simp: mentions_iff hb_counters_def heartbeat_rows_def shard_rows_def filter_empty_conv)
  with Nil assms show ?thesis
    by (auto simp: tick_seen update_seen_eq distinct_counter_def)
next
  case (Cons k' ks)
  with assms(4) have "k' = k" "set ks \<subseteq> {k}" by (auto simp: distinct_counter_def split: if_splits)
  with Cons assms(1,3) show ?thesis
    by (simp add: tick_seen update_seen_eq observe_counters_stale)
qed

section \<open>Properties\<close>

text \<open>
  C27 (safety). A tick only ever asks for shard leases: never for a heartbeat row, never for a
  finished lease, never for one this worker owns, and of the others only for those that are
  unowned, whose owner's clock is stale, or whose live owner holds more than the fair share.
\<close>

theorem tick_takes_only_takeable_shards:
  assumes "hash_order ord" and "k \<in> set (snd (tick ord c rows now))"
  shows "\<not> is_heartbeat_key k \<and> (\<exists>r \<in> set rows. rl_key r = k \<and> \<not> rl_completed r \<and>
    rl_owner r \<noteq> Some (coord_me c) \<and>
    (rl_owner r = None \<or> is_owner_expired (fst (tick ord c rows now)) (rl_owner r) now \<or>
     (\<exists>w. rl_owner r = Some w \<and> surplus (fst (tick ord c rows now)) rows now w)))"
  using tick_takes [OF assms] by blast

theorem tick_takes_only_takeable_shards_witness:
  "snd (tick id (coordinator_new ''w1'' 10 1000) [row ''x'' None 0 False, hb ''w2'' 1] 0) = [''x''] \<and>
   \<not> is_heartbeat_key ''x''"
proof -
  have t: "snd (tick id (coordinator_new ''w1'' 10 1000) [row ''x'' None 0 False, hb ''w2'' 1] 0) = [''x'']"
    by code_simp
  then have "''x'' \<in> set (snd (tick id (coordinator_new ''w1'' 10 1000) [row ''x'' None 0 False, hb ''w2'' 1] 0))"
    by simp
  from tick_takes_only_takeable_shards [OF hash_order_id this] t show ?thesis by blast
qed



text \<open>
  The expiry clock of an owner that stopped heartbeating. From the scan at
  \<open>t0\<close> in which a worker first appears, as long as every further scan still shows it with
  an unchanged heartbeat counter (or with no heartbeat row at all), it is judged expired exactly
  when more than the lease duration has passed since \<open>t0\<close>: the whole lease set of a dead
  worker becomes takeable at once, and never before.
\<close>

lemma stale_owner_expiry:
  assumes "coord_seen c w = None" and "w \<noteq> coord_me c" and "mentions w rows0" and "distinct_counter w k rows0"
    and "\<forall>(rows, t) \<in> set scans. mentions w rows \<and> set (hb_counters w rows) \<subseteq> {k}"
  shows "is_owner_expired (tick_run ord c ((rows0, t0) # scans)) (Some w) now \<longleftrightarrow>
    coord_lease_duration_ms c < saturating_sub now t0"
proof -
  have "coord_seen (tick_run ord c ((rows0, t0) # scans)) w = Some \<lparr>seen_counter = k, seen_last_change_ms = t0\<rparr>"
    using tick_run_stale [OF tick_first_sight [OF assms(1-4)]] assms(5) by simp
  then show ?thesis
    using assms(2) by (simp add: is_owner_expired_def)
qed

end
