(* ===== verification/Positions.thy ===== *)
theory Positions
  imports Prelude
begin

text \<open>
  The start positions and shared data of the core crate (\<open>core/src/lib.rs\<close>):
  \<open>InitialPosition\<close>, \<open>StartPosition\<close>, their encoding in the lease
  \<open>checkpoint\<close> column, the seeding of reshard children, and the records every other
  component exchanges (\<open>Record\<close>, \<open>ShardMeta\<close>, \<open>RecordBatch\<close>).
\<close>

section \<open>Data\<close>

definition SENTINEL_LATEST :: string where
  "SENTINEL_LATEST = ''LATEST''"

datatype InitialPosition = InitTrimHorizon | InitLatest

datatype StartPosition = TrimHorizon | Latest | After SequenceNumber

record Record =
  rec_shard_id :: ShardId
  rec_seq :: SequenceNumber
  rec_data :: "8 word list"

record ShardMeta =
  meta_id :: ShardId
  meta_parents :: "ShardId list"

record RecordBatch =
  batch_records :: "Record list"
  batch_shard_end :: bool
  batch_millis_behind_latest :: "int option"

section \<open>Positions and checkpoints\<close>

definition initial_position_default :: InitialPosition where
  "initial_position_default = InitTrimHorizon"

fun start_position_from :: "InitialPosition \<Rightarrow> StartPosition" where
  "start_position_from InitTrimHorizon = TrimHorizon"
| "start_position_from InitLatest = Latest"

definition from_checkpoint :: "string option \<Rightarrow> StartPosition" where
  "from_checkpoint cp =
     (case cp of
        None \<Rightarrow> TrimHorizon
      | Some s \<Rightarrow> if s = SENTINEL_LATEST then Latest else After s)"

fun as_checkpoint :: "StartPosition \<Rightarrow> string option" where
  "as_checkpoint TrimHorizon = None"
| "as_checkpoint Latest = Some SENTINEL_LATEST"
| "as_checkpoint (After s) = Some s"

fun is_start_mode :: "StartPosition \<Rightarrow> bool" where
  "is_start_mode (After s) = False"
| "is_start_mode _ = True"

definition seed_checkpoint :: "InitialPosition \<Rightarrow> string option" where
  "seed_checkpoint p = as_checkpoint (start_position_from p)"

definition parse_initial_position :: "string \<Rightarrow> InitialPosition option" where
  "parse_initial_position name =
     (let s = to_ascii_uppercase (trim name) in
      if s = ''TRIM_HORIZON'' \<or> s = ''TRIM-HORIZON'' \<or> s = ''TRIMHORIZON'' then Some InitTrimHorizon
      else if s = ''LATEST'' then Some InitLatest
      else None)"

text \<open>
  \<open>child_seed_checkpoint\<close>: the loop over the parents carries the mode inherited so far;
  the early returns are the \<open>None\<close> branches.
\<close>

fun child_seed_loop :: "StartPosition option \<Rightarrow> string option list \<Rightarrow> string option" where
  "child_seed_loop inherited [] = Option.bind inherited as_checkpoint"
| "child_seed_loop inherited (cp # cps) =
     (case from_checkpoint cp of
        TrimHorizon \<Rightarrow> None
      | After _ \<Rightarrow> None
      | mode \<Rightarrow>
          (case inherited of
             None \<Rightarrow> child_seed_loop (Some mode) cps
           | Some cur \<Rightarrow> if cur = mode then child_seed_loop inherited cps else None))"

definition child_seed_checkpoint :: "string option list \<Rightarrow> string option" where
  "child_seed_checkpoint cps = (if cps = [] then None else child_seed_loop None cps)"

section \<open>Lemmas\<close>

lemma from_checkpoint_simps [simp]:
  "from_checkpoint None = TrimHorizon"
  "from_checkpoint (Some s) = (if s = SENTINEL_LATEST then Latest else After s)"
  by (simp_all add: from_checkpoint_def)

lemma from_checkpoint_Latest [simp]: "from_checkpoint cp = Latest \<longleftrightarrow> cp = Some SENTINEL_LATEST"
  by (cases cp) auto

lemma from_checkpoint_TrimHorizon [simp]: "from_checkpoint cp = TrimHorizon \<longleftrightarrow> cp = None"
  by (cases cp) auto

lemma from_checkpoint_After:
  "from_checkpoint cp = After s \<longleftrightarrow> cp = Some s \<and> s \<noteq> SENTINEL_LATEST"
  by (cases cp) auto

lemma child_seed_loop_Latest:
  "child_seed_loop (Some Latest) cps =
     (if \<forall>cp \<in> set cps. cp = Some SENTINEL_LATEST then Some SENTINEL_LATEST else None)"
  by (induction cps) (auto split: StartPosition.splits simp: from_checkpoint_After)

lemma child_seed_checkpoint_eq:
  "child_seed_checkpoint cps =
     (if cps \<noteq> [] \<and> (\<forall>cp \<in> set cps. cp = Some SENTINEL_LATEST) then Some SENTINEL_LATEST else None)"
  by (cases cps)
    (auto simp: child_seed_checkpoint_def child_seed_loop_Latest from_checkpoint_After
       split: StartPosition.splits)

section \<open>Properties\<close>

text \<open>
  Decoding a persisted start position gives it back, for every position but an
  \<open>After\<close> carrying the sentinel text itself, which no DynamoDB sequence number is; and
  encoding a decoded checkpoint column gives the column back without exception.
\<close>

lemma start_position_roundtrip:
  "(p \<noteq> After SENTINEL_LATEST \<longrightarrow> from_checkpoint (as_checkpoint p) = p) \<and>
   as_checkpoint (from_checkpoint cp) = cp"
  by (cases p; cases cp) auto

text \<open>
  A freshly discovered child shard is seeded with the tip sentinel exactly when
  it has parents and every parent still carries that sentinel (none of them ever processed a
  record); in every other case it starts at its own beginning, so a reshard skips nothing.
\<close>

lemma child_seed_checkpoint_spec:
  "child_seed_checkpoint cps =
     (if cps \<noteq> [] \<and> list_all (\<lambda>cp. from_checkpoint cp = Latest) cps
      then as_checkpoint Latest else as_checkpoint TrimHorizon)"
  by (auto simp: child_seed_checkpoint_eq list_all_iff)

end
