(* ===== verification/Leader.thy ===== *)
theory Leader
  imports Coordinator Positions
begin

text \<open>
  The pure support of the leader-based shard sync (\<open>core/src/leader.rs\<close>): the reserved
  leader lease key and the reconstruction of the shard graph from lease rows, and the
  lineage-safe lease cleanup (\<open>core/src/cleanup.rs\<close>).
\<close>

section \<open>The shard graph from the lease table\<close>

definition LEADER_LEASE_KEY :: string where
  "LEADER_LEASE_KEY = ''__shard_sync_leader__''"

definition shard_metas_from_leases :: "RawLease list \<Rightarrow> ShardMeta list" where
  "shard_metas_from_leases rows =
     map (\<lambda>r. \<lparr>meta_id = rl_key r, meta_parents = rl_parents r\<rparr>)
       (filter (\<lambda>r. rl_key r \<noteq> LEADER_LEASE_KEY \<and> \<not> is_heartbeat_key (rl_key r)) rows)"

section \<open>Lease cleanup\<close>

record LeaseState =
  ls_completed :: bool
  ls_processing :: bool

text \<open>The \<open>children\<close> index: parent id to the ids pushed for it, in order.\<close>

definition add_child :: "(string \<rightharpoonup> string list) \<Rightarrow> string \<times> string \<Rightarrow> (string \<rightharpoonup> string list)" where
  "add_child m pc = m(fst pc \<mapsto> (case m (fst pc) of None \<Rightarrow> [] | Some k \<Rightarrow> k) @ [snd pc])"

definition children_map :: "ShardMeta list \<Rightarrow> (string \<rightharpoonup> string list)" where
  "children_map shards =
     foldl add_child Map.empty (concat (map (\<lambda>s. map (\<lambda>p. (p, meta_id s)) (meta_parents s)) shards))"

text \<open>The closures of the two filters.\<close>

definition lease_completed :: "(string \<rightharpoonup> LeaseState) \<Rightarrow> string \<Rightarrow> bool" where
  "lease_completed state k = (case state k of Some st \<Rightarrow> ls_completed st | None \<Rightarrow> False)"

definition under_way :: "(string \<rightharpoonup> LeaseState) \<Rightarrow> string \<Rightarrow> bool" where
  "under_way state c = (case state c of Some st \<Rightarrow> ls_processing st \<or> ls_completed st | None \<Rightarrow> False)"

definition kids_under_way :: "ShardMeta list \<Rightarrow> (string \<rightharpoonup> LeaseState) \<Rightarrow> string \<Rightarrow> bool" where
  "kids_under_way shards state k =
     (case children_map shards k of
        Some kids \<Rightarrow> kids \<noteq> [] \<and> list_all (under_way state) kids
      | None \<Rightarrow> False)"

definition leases_safe_to_delete :: "ShardMeta list \<Rightarrow> (string \<rightharpoonup> LeaseState) \<Rightarrow> string list" where
  "leases_safe_to_delete shards state =
     sort (map meta_id
       (filter (\<lambda>s. kids_under_way shards state (meta_id s))
         (filter (\<lambda>s. lease_completed state (meta_id s)) shards)))"

section \<open>Lemmas\<close>

lemma foldl_add_child:
  "foldl add_child m pcs p =
     (let ks = map snd (filter (\<lambda>pc. fst pc = p) pcs)
      in if ks = [] then m p else Some ((case m p of None \<Rightarrow> [] | Some k \<Rightarrow> k) @ ks))"
  by (induction pcs arbitrary: m) (auto simp: add_child_def Let_def split: option.splits)

lemma children_map_eq:
  "children_map shards p =
     (let ks = map snd (filter (\<lambda>pc. fst pc = p)
                 (concat (map (\<lambda>s. map (\<lambda>q. (q, meta_id s)) (meta_parents s)) shards)))
      in if ks = [] then None else Some ks)"
  by (simp add: children_map_def foldl_add_child)

lemma set_child_pairs:
  "set (map snd (filter (\<lambda>pc. fst pc = p) (concat (map (\<lambda>s. map (\<lambda>q. (q, meta_id s)) (meta_parents s)) shards)))) =
     {meta_id s | s. s \<in> set shards \<and> p \<in> set (meta_parents s)}"
  by (induction shards) (auto simp: image_iff)

lemma set_children_map:
  assumes "children_map shards p = Some ks"
  shows "set ks = {meta_id s | s. s \<in> set shards \<and> p \<in> set (meta_parents s)}"
proof -
  from assms have "ks = map snd (filter (\<lambda>pc. fst pc = p)
      (concat (map (\<lambda>s. map (\<lambda>q. (q, meta_id s)) (meta_parents s)) shards)))"
    by (simp only: children_map_eq Let_def option.inject split: if_splits) auto
  then show ?thesis by (simp only: set_child_pairs)
qed

lemma filter_key_image: "k \<in> f ` {x \<in> S. P (f x)} \<longleftrightarrow> k \<in> f ` S \<and> P k"
  by auto

lemma children_map_None:
  "children_map shards p = None \<longleftrightarrow> (\<forall>s \<in> set shards. p \<notin> set (meta_parents s))"
  by (auto simp: children_map_eq Let_def filter_empty_conv)

lemma children_map_nonempty: "children_map shards p = Some ks \<Longrightarrow> ks \<noteq> []"
  by (auto simp: children_map_eq Let_def split: if_splits)

lemma leases_safe_to_delete_iff:
  "k \<in> set (leases_safe_to_delete shards state) \<longleftrightarrow>
     (\<exists>s \<in> set shards. meta_id s = k) \<and> lease_completed state k \<and>
     (\<exists>c \<in> set shards. k \<in> set (meta_parents c)) \<and>
     (\<forall>c \<in> set shards. k \<in> set (meta_parents c) \<longrightarrow> under_way state (meta_id c))"
proof -
  have "kids_under_way shards state k \<longleftrightarrow> (\<exists>c \<in> set shards. k \<in> set (meta_parents c)) \<and>
     (\<forall>c \<in> set shards. k \<in> set (meta_parents c) \<longrightarrow> under_way state (meta_id c))"
  proof (cases "children_map shards k")
    case None
    then have "\<not> kids_under_way shards state k" by (simp add: kids_under_way_def)
    moreover from None have "\<forall>c \<in> set shards. k \<notin> set (meta_parents c)" by (simp only: children_map_None)
    ultimately show ?thesis by blast
  next
    case (Some ks)
    have ks: "set ks = {meta_id s | s. s \<in> set shards \<and> k \<in> set (meta_parents s)}" and ne: "ks \<noteq> []"
      using Some by (rule set_children_map, rule children_map_nonempty)
    then have "\<exists>c \<in> set shards. k \<in> set (meta_parents c)"
      by (cases ks) auto
    moreover have "kids_under_way shards state k \<longleftrightarrow> (\<forall>c \<in> set ks. under_way state c)"
      using Some ne by (simp add: kids_under_way_def list_all_iff)
    ultimately show ?thesis unfolding ks by blast
  qed
  then show ?thesis by (auto simp: leases_safe_to_delete_def)
qed

section \<open>Properties\<close>

text \<open>
  A lease is offered for deletion exactly when its shard is completed, at least
  one child of it is published, and every published child's lease exists and is processing or
  completed; a completed shard without known children is kept as a tombstone. The list is sorted.
\<close>

lemma leases_safe_to_delete_spec:
  "sorted (leases_safe_to_delete shards state) \<and>
   (k \<in> set (leases_safe_to_delete shards state) \<longleftrightarrow>
     (\<exists>s \<in> set shards. meta_id s = k) \<and> (\<exists>st. state k = Some st \<and> ls_completed st) \<and>
     (\<exists>c \<in> set shards. k \<in> set (meta_parents c)) \<and>
     (\<forall>c \<in> set shards. k \<in> set (meta_parents c) \<longrightarrow>
        (\<exists>st. state (meta_id c) = Some st \<and> (ls_processing st \<or> ls_completed st))))"
proof -
  have "sorted (leases_safe_to_delete shards state)" by (simp add: leases_safe_to_delete_def)
  then show ?thesis
    by (simp only: leases_safe_to_delete_iff) (auto simp: lease_completed_def under_way_def split: option.splits)
qed

end
