(* ===== verification/Scheduler.thy ===== *)
theory Scheduler
  imports Positions
begin

text \<open>
  The single-worker scheduler of \<open>core/src/lib.rs\<close>: the traits \<open>StreamSource\<close> and
  \<open>LeaseStore\<close> are records of operations on a state of their own, the record processor is
  observed as the sequence of callbacks it receives. \<open>drain_shard\<close> is the inner delivery
  loop, \<open>run_pass\<close> the loop over the described shards and \<open>run_scheduler\<close> the outer
  loop; a loop that never ends is \<open>None\<close>. The in-memory source and lease store of the
  tests are the executable instances.

  Shown: parents end before their children start, on any source; over a source that serves a
  shard's log in order, every shard's records are delivered in order from the checkpoint, without
  gap or repetition; and the scheduler ends with every shard complete where the lineage is
  well-founded.
\<close>

section \<open>Traits\<close>

record 's StreamSource =
  describe_shards :: "'s \<Rightarrow> 's \<times> ShardMeta list"
  get_records :: "'s \<Rightarrow> ShardId \<Rightarrow> SequenceNumber option \<Rightarrow> 's \<times> RecordBatch"

record 'l LeaseStore =
  checkpoint_at :: "'l \<Rightarrow> ShardId \<Rightarrow> SequenceNumber \<Rightarrow> 'l"
  last_checkpoint :: "'l \<Rightarrow> ShardId \<Rightarrow> SequenceNumber option"
  mark_done :: "'l \<Rightarrow> ShardId \<Rightarrow> 'l"
  is_complete :: "'l \<Rightarrow> ShardId \<Rightarrow> bool"

datatype callback = Initialize ShardId | ProcessRecords "Record list" | ShardEnded ShardId

record ('s, 'l) sched_state =
  source :: 's
  leases :: 'l
  calls :: "callback list"

definition call :: "callback \<Rightarrow> ('s, 'l) sched_state \<Rightarrow> ('s, 'l) sched_state" where
  "call c st = st\<lparr>calls := calls st @ [c]\<rparr>"

definition scheduler_new :: "'s \<Rightarrow> 'l \<Rightarrow> ('s, 'l) sched_state" where
  "scheduler_new s l = \<lparr>source = s, leases = l, calls = []\<rparr>"

section \<open>The scheduler\<close>

definition eligible_shard :: "'l LeaseStore \<Rightarrow> 'l \<Rightarrow> ShardMeta \<Rightarrow> bool" where
  "eligible_shard ls l meta =
     (if is_complete ls l (meta_id meta) then False
      else \<forall>p \<in> set (meta_parents meta). is_complete ls l p)"

text \<open>One turn of the delivery loop: fetch after the checkpoint, deliver, checkpoint the last record.\<close>

definition poll_shard ::
  "'s StreamSource \<Rightarrow> 'l LeaseStore \<Rightarrow> ShardId \<Rightarrow> ('s, 'l) sched_state \<Rightarrow> ('s, 'l) sched_state \<times> RecordBatch" where
  "poll_shard src ls shard st =
     (let after = last_checkpoint ls (leases st) shard;
          (s', batch) = get_records src (source st) shard after;
          recs = batch_records batch;
          st1 = st\<lparr>source := s'\<rparr>
      in (if recs \<noteq> []
          then (call (ProcessRecords recs) st1)
                 \<lparr>leases := checkpoint_at ls (leases st1) shard (rec_seq (last recs))\<rparr>
          else st1, batch))"

definition end_shard :: "'l LeaseStore \<Rightarrow> ShardId \<Rightarrow> ('s, 'l) sched_state \<Rightarrow> ('s, 'l) sched_state" where
  "end_shard ls shard st = (call (ShardEnded shard) st)\<lparr>leases := mark_done ls (leases st) shard\<rparr>"

partial_function (option) drain_shard ::
  "'s StreamSource \<Rightarrow> 'l LeaseStore \<Rightarrow> ShardId \<Rightarrow> ('s, 'l) sched_state \<Rightarrow> ('s, 'l) sched_state option" where
  "drain_shard src ls shard st =
     (let (st', batch) = poll_shard src ls shard st in
      if batch_shard_end batch then Some (end_shard ls shard st')
      else if batch_records batch = [] then Some st'
      else drain_shard src ls shard st')"

fun run_pass ::
  "'s StreamSource \<Rightarrow> 'l LeaseStore \<Rightarrow> ShardMeta list \<Rightarrow> bool \<Rightarrow> ('s, 'l) sched_state \<Rightarrow>
   (('s, 'l) sched_state \<times> bool) option" where
  "run_pass src ls [] progressed st = Some (st, progressed)"
| "run_pass src ls (meta # metas) progressed st =
     (if \<not> eligible_shard ls (leases st) meta then run_pass src ls metas progressed st
      else
        case drain_shard src ls (meta_id meta) (call (Initialize (meta_id meta)) st) of
          None \<Rightarrow> None
        | Some st' \<Rightarrow> run_pass src ls metas True st')"

partial_function (option) run_scheduler ::
  "'s StreamSource \<Rightarrow> 'l LeaseStore \<Rightarrow> ('s, 'l) sched_state \<Rightarrow> ('s, 'l) sched_state option" where
  "run_scheduler src ls st =
     (let (s', shards) = describe_shards src (source st); st1 = st\<lparr>source := s'\<rparr> in
      if \<forall>m \<in> set shards. is_complete ls (leases st1) (meta_id m) then Some st1
      else
        case run_pass src ls shards False st1 of
          None \<Rightarrow> None
        | Some (st2, progressed) \<Rightarrow> if progressed then run_scheduler src ls st2 else Some st2)"

section \<open>The in-memory instances\<close>

record InMemSource =
  metas :: "ShardMeta list"
  data_of :: "ShardId \<rightharpoonup> Record list"

fun after_token :: "SequenceNumber \<Rightarrow> Record list \<Rightarrow> Record list option" where
  "after_token tok [] = None"
| "after_token tok (r # rs) = (if rec_seq r = tok then Some rs else after_token tok rs)"

definition in_mem_get_records :: "InMemSource \<Rightarrow> ShardId \<Rightarrow> SequenceNumber option \<Rightarrow> RecordBatch" where
  "in_mem_get_records s shard after =
     (let all = (case data_of s shard of None \<Rightarrow> [] | Some rs \<Rightarrow> rs)
      in \<lparr>batch_records =
            (case after of
               None \<Rightarrow> all
             | Some tok \<Rightarrow> (case after_token tok all of Some rs \<Rightarrow> rs | None \<Rightarrow> all)),
          batch_shard_end = True, batch_millis_behind_latest = None\<rparr>)"

definition in_mem_source :: "InMemSource StreamSource" where
  "in_mem_source = \<lparr>describe_shards = (\<lambda>s. (s, metas s)), get_records = (\<lambda>s sh a. (s, in_mem_get_records s sh a))\<rparr>"

record InMemLeases =
  checkpoints :: "ShardId \<rightharpoonup> SequenceNumber"
  complete :: "ShardId \<rightharpoonup> bool"

definition in_mem_leases :: "InMemLeases LeaseStore" where
  "in_mem_leases =
     \<lparr>checkpoint_at = (\<lambda>l s q. l\<lparr>checkpoints := (checkpoints l)(s \<mapsto> q)\<rparr>),
      last_checkpoint = (\<lambda>l s. checkpoints l s),
      mark_done = (\<lambda>l s. l\<lparr>complete := (complete l)(s \<mapsto> True)\<rparr>),
      is_complete = (\<lambda>l s. case complete l s of None \<Rightarrow> False | Some b \<Rightarrow> b)\<rparr>"

definition in_mem_leases_default :: InMemLeases where
  "in_mem_leases_default = \<lparr>checkpoints = Map.empty, complete = Map.empty\<rparr>"

definition rec :: "string \<Rightarrow> string \<Rightarrow> Record" where
  "rec shard q = \<lparr>rec_shard_id = shard, rec_seq = q, rec_data = []\<rparr>"

text \<open>The events the recording processor of the tests logs for a callback.\<close>

fun recording_events :: "callback \<Rightarrow> string list" where
  "recording_events (Initialize s) = [''init:'' @ s]"
| "recording_events (ProcessRecords rs) = map (\<lambda>r. ''rec:'' @ rec_shard_id r @ '':'' @ rec_seq r) rs"
| "recording_events (ShardEnded s) = [''end:'' @ s]"

section \<open>The contract of a lease store\<close>

locale lease_store_laws =
  fixes ls :: "'l LeaseStore"
  assumes complete_mark: "is_complete ls (mark_done ls l s) t \<longleftrightarrow> t = s \<or> is_complete ls l t"
    and complete_checkpoint: "is_complete ls (checkpoint_at ls l s q) t \<longleftrightarrow> is_complete ls l t"
    and last_mark: "last_checkpoint ls (mark_done ls l s) t = last_checkpoint ls l t"
    and last_checkpoint: "last_checkpoint ls (checkpoint_at ls l s q) t = (if t = s then Some q else last_checkpoint ls l t)"

interpretation in_mem: lease_store_laws in_mem_leases
  by unfold_locales (auto simp: in_mem_leases_def)

section \<open>Invariants of the loops\<close>

text \<open>What every turn and every end of a shard keep, the loops keep.\<close>

lemma drain_shard_inv:
  assumes "drain_shard src ls sh st = Some st'" and "I st"
    and poll: "\<And>st st1 b. I st \<Longrightarrow> poll_shard src ls sh st = (st1, b) \<Longrightarrow> I st1"
    and fin: "\<And>st st1 b. I st \<Longrightarrow> poll_shard src ls sh st = (st1, b) \<Longrightarrow> batch_shard_end b \<Longrightarrow> I (end_shard ls sh st1)"
  shows "I st'"
proof -
  have "src = src \<longrightarrow> ls = ls \<longrightarrow> sh = sh \<longrightarrow> I st \<longrightarrow> I st'"
  proof (rule drain_shard.raw_induct [OF _ assms(1), where P = "\<lambda>a b c st st'. a = src \<longrightarrow> b = ls \<longrightarrow> c = sh \<longrightarrow> I st \<longrightarrow> I st'"],
      intro impI, goal_cases)
    case (1 drain a l c st st')
    obtain st1 b where p: "poll_shard src ls sh st = (st1, b)" by fastforce
    with 1 poll [OF _ p] fin [OF _ p] show ?case by (auto split: if_splits)
  qed
  with assms(2) show ?thesis by blast
qed

lemma run_pass_inv:
  assumes "run_pass src ls ms b st = Some (st', b')" and "I st"
    and "\<And>m st st'. m \<in> set ms \<Longrightarrow> I st \<Longrightarrow> eligible_shard ls (leases st) m \<Longrightarrow>
      drain_shard src ls (meta_id m) (call (Initialize (meta_id m)) st) = Some st' \<Longrightarrow> I st'"
  shows "I st'"
  using assms
proof (induction ms arbitrary: b st)
  case (Cons m ms)
  show ?case
  proof (cases "eligible_shard ls (leases st) m")
    case True
    with Cons.prems(1) obtain st1 where d: "drain_shard src ls (meta_id m) (call (Initialize (meta_id m)) st) = Some st1"
      "run_pass src ls ms True st1 = Some (st', b')"
      by (auto split: option.splits)
    have "I st1" using Cons.prems(3) [OF _ Cons.prems(2) True d(1)] by simp
    from d(2) this show ?thesis by (rule Cons.IH) (rule Cons.prems(3); simp)
  next
    case False
    with Cons.prems(1) have "run_pass src ls ms b st = Some (st', b')" by simp
    from this Cons.prems(2) show ?thesis by (rule Cons.IH) (rule Cons.prems(3); simp)
  qed
qed simp

lemma run_scheduler_inv:
  assumes "run_scheduler src ls st = Some st'" and "I st"
    and desc: "\<And>st s' ms. I st \<Longrightarrow> describe_shards src (source st) = (s', ms) \<Longrightarrow> I (st\<lparr>source := s'\<rparr>)"
    and drain: "\<And>m st0 s' ms st st'. I st0 \<Longrightarrow> describe_shards src (source st0) = (s', ms) \<Longrightarrow> m \<in> set ms \<Longrightarrow> I st \<Longrightarrow>
      eligible_shard ls (leases st) m \<Longrightarrow>
      drain_shard src ls (meta_id m) (call (Initialize (meta_id m)) st) = Some st' \<Longrightarrow> I st'"
  shows "I st'"
proof -
  have "src = src \<longrightarrow> ls = ls \<longrightarrow> I st \<longrightarrow> I st'"
  proof (rule run_scheduler.raw_induct [OF _ assms(1), where P = "\<lambda>a b st st'. a = src \<longrightarrow> b = ls \<longrightarrow> I st \<longrightarrow> I st'"],
      intro impI, goal_cases)
    case (1 run a l st st')
    obtain s' ms where d: "describe_shards src (source st) = (s', ms)" by fastforce
    have i: "I st" "I (st\<lparr>source := s'\<rparr>)" using desc [OF _ d] 1 by simp_all
    have pass: "I st2" if "run_pass src ls ms False (st\<lparr>source := s'\<rparr>) = Some (st2, p)" for st2 p
      using that i(2) by (rule run_pass_inv [where I = I]) (rule drain [OF i(1) d])
    from 1 d i pass show ?case by (auto simp: Let_def split: if_splits option.splits)
  qed
  with assms(2) show ?thesis by blast
qed

subsection \<open>Parents end before children start\<close>

definition parents_first :: "(ShardId \<Rightarrow> ShardId list) \<Rightarrow> ShardId set \<Rightarrow> callback list \<Rightarrow> bool" where
  "parents_first G done cs \<longleftrightarrow>
     (\<forall>xs c ys. cs = xs @ Initialize c # ys \<longrightarrow> (\<forall>p \<in> set (G c). p \<in> done \<or> ShardEnded p \<in> set xs))"

lemma parents_first_Nil [simp]: "parents_first G done []"
  by (simp add: parents_first_def)

lemma parents_first_snoc:
  "parents_first G done (cs @ [c]) \<longleftrightarrow>
     parents_first G done cs \<and>
     (case c of Initialize s \<Rightarrow> \<forall>p \<in> set (G s). p \<in> done \<or> ShardEnded p \<in> set cs | _ \<Rightarrow> True)"
  (is "?l \<longleftrightarrow> ?r")
proof
  assume l: ?l
  have "parents_first G done cs"
    unfolding parents_first_def
  proof (intro allI impI)
    fix xs s ys assume "cs = xs @ Initialize s # ys"
    then have "cs @ [c] = xs @ Initialize s # (ys @ [c])" by simp
    with l show "\<forall>p \<in> set (G s). p \<in> done \<or> ShardEnded p \<in> set xs" unfolding parents_first_def by blast
  qed
  moreover have "\<forall>p \<in> set (G s). p \<in> done \<or> ShardEnded p \<in> set cs" if "c = Initialize s" for s
    using l that unfolding parents_first_def by blast
  ultimately show ?r by (cases c) auto
next
  assume r: ?r
  show ?l
    unfolding parents_first_def
  proof (intro allI impI)
    fix xs s ys assume eq: "cs @ [c] = xs @ Initialize s # ys"
    show "\<forall>p \<in> set (G s). p \<in> done \<or> ShardEnded p \<in> set xs"
    proof (cases ys rule: rev_cases)
      case Nil
      with eq r show ?thesis by auto
    next
      case (snoc zs z)
      with eq have "cs = xs @ Initialize s # zs" by auto
      with r show ?thesis unfolding parents_first_def by blast
    qed
  qed
qed

text \<open>
  What holds of a state of the scheduler: its calls are parent-first, and a shard is complete only
  if it was at the start or its end was reported.
\<close>

definition order_inv :: "(ShardId \<Rightarrow> ShardId list) \<Rightarrow> 'l LeaseStore \<Rightarrow> ShardId set \<Rightarrow> ('s, 'l) sched_state \<Rightarrow> bool" where
  "order_inv G ls done st \<longleftrightarrow>
     parents_first G done (calls st) \<and>
     (\<forall>s. is_complete ls (leases st) s \<longrightarrow> s \<in> done \<or> ShardEnded s \<in> set (calls st))"

context lease_store_laws
begin

lemma order_inv_poll: "order_inv G ls done st \<Longrightarrow> order_inv G ls done (fst (poll_shard src ls sh st))"
  by (auto simp: order_inv_def poll_shard_def call_def Let_def parents_first_snoc complete_checkpoint
      split: prod.splits)

lemma order_inv_end: "order_inv G ls done st \<Longrightarrow> order_inv G ls done (end_shard ls sh st)"
  by (auto simp: order_inv_def end_shard_def call_def parents_first_snoc complete_mark)

lemma order_inv_drain:
  assumes "drain_shard src ls sh st = Some st'" and "order_inv G ls done st"
  shows "order_inv G ls done st'"
  using assms
  by (rule drain_shard_inv) (use order_inv_poll order_inv_end in \<open>metis fst_conv\<close>)+

lemma order_inv_start:
  assumes "order_inv G ls done st" "eligible_shard ls (leases st) m" "meta_parents m = G (meta_id m)"
  shows "order_inv G ls done (call (Initialize (meta_id m)) st)"
  using assms by (auto simp: order_inv_def call_def parents_first_snoc eligible_shard_def split: if_splits)

lemma complete_has_ended:
  assumes "run_scheduler src ls st = Some st'" and "\<forall>s. is_complete ls (leases st) s \<longrightarrow> s \<in> done \<or> ShardEnded s \<in> set (calls st)"
  shows "\<forall>s. is_complete ls (leases st') s \<longrightarrow> s \<in> done \<or> ShardEnded s \<in> set (calls st')"
  using assms
proof (rule run_scheduler_inv)
  fix m st st'
  assume i: "\<forall>s. is_complete ls (leases st) s \<longrightarrow> s \<in> done \<or> ShardEnded s \<in> set (calls st)"
    and d: "drain_shard src ls (meta_id m) (call (Initialize (meta_id m)) st) = Some st'"
  show "\<forall>s. is_complete ls (leases st') s \<longrightarrow> s \<in> done \<or> ShardEnded s \<in> set (calls st')"
    by (rule drain_shard_inv [OF d])
       (use i in \<open>auto simp: poll_shard_def end_shard_def call_def Let_def complete_checkpoint complete_mark
          split: prod.splits if_splits\<close>)
qed simp

lemma order_inv_run:
  assumes "run_scheduler src ls st = Some st'" and "ok (source st)" "order_inv G ls done st"
    and desc: "\<And>s s' ms. ok s \<Longrightarrow> describe_shards src s = (s', ms) \<Longrightarrow>
      ok s' \<and> (\<forall>m \<in> set ms. meta_parents m = G (meta_id m))"
    and get: "\<And>s sh after s' b. ok s \<Longrightarrow> get_records src s sh after = (s', b) \<Longrightarrow> ok s'"
  shows "order_inv G ls done st'"
proof -
  have "ok (source st') \<and> order_inv G ls done st'"
  proof (rule run_scheduler_inv [OF assms(1)])
    show "ok (source st) \<and> order_inv G ls done st" using assms(2,3) by simp
  next
    fix st s' ms assume "ok (source st) \<and> order_inv G ls done st" "describe_shards src (source st) = (s', ms)"
    then show "ok (source (st\<lparr>source := s'\<rparr>)) \<and> order_inv G ls done (st\<lparr>source := s'\<rparr>)"
      using desc by (auto simp: order_inv_def)
  next
    fix m st0 s' ms st st'
    assume st0: "ok (source st0) \<and> order_inv G ls done st0" "describe_shards src (source st0) = (s', ms)" "m \<in> set ms"
      and st: "ok (source st) \<and> order_inv G ls done st" "eligible_shard ls (leases st) m"
      and d: "drain_shard src ls (meta_id m) (call (Initialize (meta_id m)) st) = Some st'"
    have "order_inv G ls done (call (Initialize (meta_id m)) st)"
      using order_inv_start [of G "done" st m] st st0 desc by blast
    moreover have "ok (source st')"
      by (rule drain_shard_inv [OF d, where I = "\<lambda>st. ok (source st)"])
         (use st get in \<open>auto simp: poll_shard_def end_shard_def call_def Let_def split: prod.splits if_splits\<close>)
    ultimately show "ok (source st') \<and> order_inv G ls done st'" using order_inv_drain [OF d] by blast
  qed
  then show ?thesis ..
qed

end

subsection \<open>Delivery in order from the checkpoint\<close>

text \<open>
  A source that serves each shard from a log: a batch is the next stretch of the log after the
  checkpoint token, and the end is reported only with the last stretch.
\<close>

definition valid_token :: "Record list \<Rightarrow> SequenceNumber option \<Rightarrow> bool" where
  "valid_token L after = (case after of None \<Rightarrow> True | Some q \<Rightarrow> q \<in> set (map rec_seq L))"

definition log_pos :: "Record list \<Rightarrow> SequenceNumber option \<Rightarrow> nat" where
  "log_pos L after =
     (case after of
        None \<Rightarrow> 0
      | Some q \<Rightarrow> (case after_token q L of None \<Rightarrow> 0 | Some rs \<Rightarrow> length L - length rs))"

lemma after_token_nth:
  "distinct (map rec_seq L) \<Longrightarrow> i < length L \<Longrightarrow> after_token (rec_seq (L ! i)) L = Some (drop (Suc i) L)"
proof (induction L arbitrary: i)
  case (Cons r L)
  then show ?case by (cases i) auto
qed simp

lemma log_pos_nth: "distinct (map rec_seq L) \<Longrightarrow> i < length L \<Longrightarrow> log_pos L (Some (rec_seq (L ! i))) = Suc i"
  by (simp add: log_pos_def after_token_nth)

lemma log_pos_le: "log_pos L after \<le> length L"
  by (auto simp: log_pos_def split: option.splits)

lemma log_pos_last:
  assumes "distinct (map rec_seq L)" "take n (drop p L) \<noteq> []"
  shows "log_pos L (Some (rec_seq (last (take n (drop p L))))) = p + length (take n (drop p L))"
    and "valid_token L (Some (rec_seq (last (take n (drop p L)))))"
proof -
  let ?xs = "take n (drop p L)"
  have i: "p + (length ?xs - 1) < length L" using assms(2) by auto
  have "last ?xs = L ! (p + (length ?xs - 1))"
    using assms(2) by (simp add: last_conv_nth min_def)
  moreover have "Suc (p + (length ?xs - 1)) = p + length ?xs"
    using assms(2) by (cases "length ?xs") auto
  ultimately show "log_pos L (Some (rec_seq (last ?xs))) = p + length ?xs"
      "valid_token L (Some (rec_seq (last ?xs)))"
    using log_pos_nth [OF assms(1) i] i by (simp_all add: valid_token_def)
qed

fun called_records :: "callback \<Rightarrow> Record list" where
  "called_records (ProcessRecords rs) = rs"
| "called_records _ = []"

definition deliveries :: "ShardId \<Rightarrow> callback list \<Rightarrow> Record list" where
  "deliveries sh cs = filter (\<lambda>r. rec_shard_id r = sh) (concat (map called_records cs))"

lemma deliveries_snoc: "deliveries sh (cs @ [c]) = deliveries sh cs @ filter (\<lambda>r. rec_shard_id r = sh) (called_records c)"
  by (simp add: deliveries_def)

locale log_source =
  fixes src :: "'s StreamSource" and ok :: "'s \<Rightarrow> bool" and slog :: "'s \<Rightarrow> ShardId \<Rightarrow> Record list"
  assumes log_distinct: "ok s \<Longrightarrow> distinct (map rec_seq (slog s sh))"
    and log_shard: "ok s \<Longrightarrow> r \<in> set (slog s sh) \<Longrightarrow> rec_shard_id r = sh"
    and describe_keeps: "ok s \<Longrightarrow> describe_shards src s = (s', ms) \<Longrightarrow> ok s' \<and> slog s' = slog s"
    and serves: "ok s \<Longrightarrow> valid_token (slog s sh) after \<Longrightarrow> get_records src s sh after = (s', b) \<Longrightarrow>
      ok s' \<and> slog s' = slog s \<and>
      (\<exists>n. batch_records b = take n (drop (log_pos (slog s sh) after) (slog s sh))) \<and>
      (batch_shard_end b \<longrightarrow> log_pos (slog s sh) after + length (batch_records b) = length (slog s sh))"

locale scheduler_on_log = log_source src ok slog + lease_store_laws ls
  for src :: "'s StreamSource" and ok slog and ls :: "'l LeaseStore"

text \<open>
  \<open>start sh\<close> is the position of shard \<open>sh\<close> when the scheduler starts; what was delivered
  is the log from there to the current checkpoint.
\<close>

definition shard_log_inv :: "Record list \<Rightarrow> nat \<Rightarrow> ShardId \<Rightarrow> callback list \<Rightarrow> string option \<Rightarrow> bool" where
  "shard_log_inv log start sh cs c \<longleftrightarrow>
     valid_token log c \<and> start \<le> log_pos log c \<and>
     deliveries sh cs = take (log_pos log c - start) (drop start log) \<and>
     (ShardEnded sh \<in> set cs \<longrightarrow> log_pos log c = length log)"

definition log_inv ::
  "('s \<Rightarrow> bool) \<Rightarrow> ('s \<Rightarrow> ShardId \<Rightarrow> Record list) \<Rightarrow> 'l LeaseStore \<Rightarrow> (ShardId \<Rightarrow> Record list) \<Rightarrow> (ShardId \<Rightarrow> nat) \<Rightarrow>
   ('s, 'l) sched_state \<Rightarrow> bool" where
  "log_inv ok slog ls L start st \<longleftrightarrow>
     ok (source st) \<and> slog (source st) = L \<and>
     (\<forall>sh. shard_log_inv (L sh) (start sh) sh (calls st) (last_checkpoint ls (leases st) sh))"

lemmas log_inv_defs = log_inv_def shard_log_inv_def

lemma log_inv_calls:
  assumes "log_inv ok slog ls L start st" "called_records c = []" "\<And>s. c \<noteq> ShardEnded s"
  shows "log_inv ok slog ls L start (call c st)"
  using assms by (auto simp: log_inv_defs call_def deliveries_snoc Let_def)

lemma take_extend:
  assumes "start \<le> p" "xs = take n (drop p L)"
  shows "take (p - start) (drop start L) @ xs = take (p + length xs - start) (drop start L)"
proof -
  have "drop p L = drop (p - start) (drop start L)" using assms(1) by simp
  moreover have "p + length xs - start = (p - start) + length xs" using assms(1) by simp
  moreover have "xs = take (length xs) (drop p L)" using assms(2) by (simp add: min_def)
  ultimately show ?thesis by (metis take_add)
qed

text \<open>A batch of a shard moves the position of this shard and of no other.\<close>

lemma shard_log_deliver:
  assumes "shard_log_inv log start sh cs c" "distinct (map rec_seq log)" "xs = take n (drop (log_pos log c) log)" "xs \<noteq> []"
    and "\<forall>r \<in> set xs. rec_shard_id r = sh"
  shows "shard_log_inv log start sh (cs @ [ProcessRecords xs]) (Some (rec_seq (last xs)))"
    and "log_pos log (Some (rec_seq (last xs))) = log_pos log c + length xs"
proof -
  show pos: "log_pos log (Some (rec_seq (last xs))) = log_pos log c + length xs"
    using log_pos_last [OF assms(2), of n "log_pos log c"] assms(3,4) by auto
  have "valid_token log (Some (rec_seq (last xs)))" using log_pos_last [OF assms(2), of n "log_pos log c"] assms(3,4) by auto
  moreover have "filter (\<lambda>r. rec_shard_id r = sh) xs = xs" using assms(5) by simp
  moreover have "start \<le> log_pos log c" using assms(1) by (simp add: shard_log_inv_def)
  ultimately show "shard_log_inv log start sh (cs @ [ProcessRecords xs]) (Some (rec_seq (last xs)))"
    using assms(1) take_extend [OF _ assms(3), of start] pos log_pos_le [of log "Some (rec_seq (last xs))"]
    by (auto simp: shard_log_inv_def deliveries_snoc)
qed

lemma shard_log_others:
  assumes "shard_log_inv log start t cs c" "\<forall>r \<in> set xs. rec_shard_id r = sh" "t \<noteq> sh"
  shows "shard_log_inv log start t (cs @ [ProcessRecords xs]) c"
  using assms by (auto simp: shard_log_inv_def deliveries_snoc filter_empty_conv)

context scheduler_on_log
begin

lemma log_inv_poll:
  assumes inv: "log_inv ok slog ls L start st" and p: "poll_shard src ls sh st = (st1, b)"
  shows "log_inv ok slog ls L start st1"
    and "batch_shard_end b \<Longrightarrow> log_pos (L sh) (last_checkpoint ls (leases st1) sh) = length (L sh)"
proof -
  let ?after = "last_checkpoint ls (leases st) sh" and ?xs = "batch_records b"
  obtain s' where g: "get_records src (source st) sh ?after = (s', b)"
    using p by (auto simp: poll_shard_def Let_def split: prod.splits)
  have st: "ok (source st)" "slog (source st) = L" "valid_token (L sh) ?after" using inv by (auto simp: log_inv_defs)
  obtain n where n: "?xs = take n (drop (log_pos (L sh) ?after) (L sh))" and s': "ok s'" "slog s' = L"
    and e: "batch_shard_end b \<longrightarrow> log_pos (L sh) ?after + length ?xs = length (L sh)"
    using serves [OF st(1) _ g] st(3) unfolding st(2) by blast
  have d: "distinct (map rec_seq (L sh))" using log_distinct [OF st(1)] st(2) by simp
  have shard: "\<forall>r \<in> set ?xs. rec_shard_id r = sh"
    using log_shard [OF st(1), of _ sh] st(2) n by (metis in_set_dropD in_set_takeD)
  have old: "shard_log_inv (L t) (start t) t (calls st) (last_checkpoint ls (leases st) t)" for t
    using inv by (simp add: log_inv_def)
  note deliver = shard_log_deliver [OF old d n _ shard]
  have st1: "st1 = (if ?xs = [] then st\<lparr>source := s'\<rparr> else st\<lparr>source := s', calls := calls st @ [ProcessRecords ?xs],
      leases := checkpoint_at ls (leases st) sh (rec_seq (last ?xs))\<rparr>)"
    using p g by (auto simp: poll_shard_def call_def Let_def)
  show "log_inv ok slog ls L start st1"
    using old deliver(1) shard_log_others [OF old shard] s' by (simp add: st1 log_inv_def last_checkpoint)
  show "batch_shard_end b \<Longrightarrow> log_pos (L sh) (last_checkpoint ls (leases st1) sh) = length (L sh)"
    using e deliver(2) by (cases "?xs = []") (simp_all add: st1 last_checkpoint)
qed

lemma log_inv_end:
  assumes "log_inv ok slog ls L start st" "log_pos (L sh) (last_checkpoint ls (leases st) sh) = length (L sh)"
  shows "log_inv ok slog ls L start (end_shard ls sh st)"
  using assms by (auto simp: log_inv_defs Let_def end_shard_def call_def deliveries_snoc last_mark)

lemma log_inv_drain:
  assumes "drain_shard src ls sh st = Some st'" and "log_inv ok slog ls L start st"
  shows "log_inv ok slog ls L start st'"
  using assms by (rule drain_shard_inv) (use log_inv_poll log_inv_end in blast)+

lemma log_inv_run:
  assumes "run_scheduler src ls st = Some st'" and "log_inv ok slog ls L start st"
  shows "log_inv ok slog ls L start st'"
  using assms
proof (rule run_scheduler_inv)
  fix st s' ms assume "log_inv ok slog ls L start st" "describe_shards src (source st) = (s', ms)"
  then show "log_inv ok slog ls L start (st\<lparr>source := s'\<rparr>)" using describe_keeps by (auto simp: log_inv_defs)
next
  fix m st st' assume i: "log_inv ok slog ls L start st"
    and d: "drain_shard src ls (meta_id m) (call (Initialize (meta_id m)) st) = Some st'"
  show "log_inv ok slog ls L start st'" by (rule log_inv_drain [OF d log_inv_calls [OF i]]) auto
qed

end

subsection \<open>Termination on a closing stream\<close>

text \<open>
  A stream whose shard list no longer changes and whose shards are all closed: an empty batch
  comes only with the end of the shard.
\<close>

locale closed_stream = scheduler_on_log src ok slog ls
  for src :: "'s StreamSource" and ok slog and ls :: "'l LeaseStore" +
  fixes graph :: "'s \<Rightarrow> ShardMeta list"
  assumes describe_graph: "ok s \<Longrightarrow> describe_shards src s = (s', ms) \<Longrightarrow> ms = graph s \<and> graph s' = graph s"
    and get_graph: "ok s \<Longrightarrow> get_records src s sh after = (s', b) \<Longrightarrow> graph s' = graph s"
    and progress: "ok s \<Longrightarrow> valid_token (slog s sh) after \<Longrightarrow> get_records src s sh after = (s', b) \<Longrightarrow>
      batch_records b = [] \<Longrightarrow> batch_shard_end b"

definition keeps_done :: "'l LeaseStore \<Rightarrow> ('s, 'l) sched_state \<Rightarrow> ('s, 'l) sched_state \<Rightarrow> bool" where
  "keeps_done ls st st' \<longleftrightarrow> (\<forall>s. is_complete ls (leases st) s \<longrightarrow> is_complete ls (leases st') s)"

context closed_stream
begin

lemma poll_facts:
  assumes inv: "log_inv ok slog ls L start st" and p: "poll_shard src ls sh st = (st1, b)"
  shows "keeps_done ls st st1" and "graph (source st1) = graph (source st)"
    and "batch_records b = [] \<Longrightarrow> batch_shard_end b"
    and "batch_records b \<noteq> [] \<Longrightarrow>
      log_pos (L sh) (last_checkpoint ls (leases st) sh) < log_pos (L sh) (last_checkpoint ls (leases st1) sh)"
proof -
  let ?after = "last_checkpoint ls (leases st) sh"
  obtain s' where g: "get_records src (source st) sh ?after = (s', b)"
    using p by (auto simp: poll_shard_def Let_def split: prod.splits)
  have ok: "ok (source st)" "slog (source st) = L" "valid_token (L sh) ?after"
    using inv by (auto simp: log_inv_defs Let_def)
  show "keeps_done ls st st1"
    using p g by (auto simp: poll_shard_def Let_def keeps_done_def call_def complete_checkpoint)
  show "graph (source st1) = graph (source st)"
    using p g get_graph [OF ok(1) g] by (auto simp: poll_shard_def Let_def call_def)
  show "batch_records b = [] \<Longrightarrow> batch_shard_end b" using progress [OF ok(1) _ g] ok by simp
  assume ne: "batch_records b \<noteq> []"
  obtain n where n: "batch_records b = take n (drop (log_pos (L sh) ?after) (L sh))"
    using serves [OF ok(1) _ g] ok(3) unfolding ok(2) by blast
  have "distinct (map rec_seq (L sh))" using log_distinct [OF ok(1)] ok(2) by simp
  from log_pos_last(1) [OF this, of n "log_pos (L sh) ?after"] n ne
  have "log_pos (L sh) (Some (rec_seq (last (batch_records b)))) = log_pos (L sh) ?after + length (batch_records b)" by simp
  moreover have "last_checkpoint ls (leases st1) sh = Some (rec_seq (last (batch_records b)))"
    using p g ne by (auto simp: poll_shard_def Let_def call_def last_checkpoint)
  ultimately show "log_pos (L sh) ?after < log_pos (L sh) (last_checkpoint ls (leases st1) sh)" using ne by simp
qed

lemma drain_terminates:
  assumes "log_inv ok slog ls L start st"
  shows "\<exists>st'. drain_shard src ls sh st = Some st' \<and> log_inv ok slog ls L start st' \<and> keeps_done ls st st' \<and>
    graph (source st') = graph (source st) \<and> is_complete ls (leases st') sh"
  using assms
proof (induction "length (L sh) - log_pos (L sh) (last_checkpoint ls (leases st) sh)" arbitrary: st rule: less_induct)
  case less
  obtain st1 b where p: "poll_shard src ls sh st = (st1, b)" by fastforce
  note facts = poll_facts [OF less.prems p] and inv1 = log_inv_poll [OF less.prems p]
  show ?case
  proof (cases "batch_shard_end b")
    case True
    then have "drain_shard src ls sh st = Some (end_shard ls sh st1)" by (simp add: drain_shard.simps p)
    moreover have "log_inv ok slog ls L start (end_shard ls sh st1)" using log_inv_end [OF inv1(1)] inv1(2) True by simp
    ultimately show ?thesis
      using facts(1,2) by (auto simp: end_shard_def call_def keeps_done_def complete_mark)
  next
    case False
    with facts(3) have ne: "batch_records b \<noteq> []" by blast
    have "length (L sh) - log_pos (L sh) (last_checkpoint ls (leases st1) sh) <
        length (L sh) - log_pos (L sh) (last_checkpoint ls (leases st) sh)"
      using facts(4) [OF ne] log_pos_le [of "L sh" "last_checkpoint ls (leases st1) sh"] by linarith
    from less.hyps [OF this inv1(1)] obtain st' where "drain_shard src ls sh st1 = Some st'"
      "log_inv ok slog ls L start st'" "keeps_done ls st1 st'" "graph (source st') = graph (source st1)"
      "is_complete ls (leases st') sh" by blast
    moreover have "drain_shard src ls sh st = drain_shard src ls sh st1"
      using False ne by (subst drain_shard.simps) (simp add: p)
    ultimately show ?thesis using facts(1,2) by (auto simp: keeps_done_def)
  qed
qed

lemma pass_terminates:
  assumes "log_inv ok slog ls L start st"
  shows "\<exists>st' b'. run_pass src ls ms b st = Some (st', b') \<and> log_inv ok slog ls L start st' \<and> keeps_done ls st st' \<and>
    graph (source st') = graph (source st) \<and> (b \<longrightarrow> b') \<and>
    (\<forall>m \<in> set ms. eligible_shard ls (leases st) m \<longrightarrow> is_complete ls (leases st') (meta_id m) \<and> b')"
  using assms
proof (induction ms arbitrary: b st)
  case Nil
  then show ?case by (simp add: keeps_done_def)
next
  case (Cons m ms)
  show ?case
  proof (cases "eligible_shard ls (leases st) m")
    case False
    from Cons.IH [OF Cons.prems, of b] False show ?thesis by auto
  next
    case True
    let ?st = "call (Initialize (meta_id m)) st"
    have "log_inv ok slog ls L start ?st" using log_inv_calls [OF Cons.prems] by simp
    from drain_terminates [OF this, of "meta_id m"] obtain st1 where st1: "drain_shard src ls (meta_id m) ?st = Some st1"
      "log_inv ok slog ls L start st1" "keeps_done ls ?st st1" "graph (source st1) = graph (source ?st)"
      "is_complete ls (leases st1) (meta_id m)" by blast
    from Cons.IH [OF st1(2), of True] obtain st' b' where st': "run_pass src ls ms True st1 = Some (st', b')"
      "log_inv ok slog ls L start st'" "keeps_done ls st1 st'" "graph (source st') = graph (source st1)" "b'"
      "\<forall>m \<in> set ms. eligible_shard ls (leases st1) m \<longrightarrow> is_complete ls (leases st') (meta_id m)" by blast
    have mono: "keeps_done ls st st'" using st1(3) st'(3) by (simp add: keeps_done_def call_def)
    have "is_complete ls (leases st') (meta_id x)" if "x \<in> set ms" "eligible_shard ls (leases st) x" for x
    proof (cases "is_complete ls (leases st1) (meta_id x)")
      case True
      with st'(3) show ?thesis by (simp add: keeps_done_def)
    next
      case False
      with that(2) st1(3) have "eligible_shard ls (leases st1) x"
        by (auto simp: eligible_shard_def keeps_done_def call_def split: if_splits)
      with st'(6) that(1) show ?thesis by blast
    qed
    moreover have "is_complete ls (leases st') (meta_id m)" using st1(5) st'(3) by (simp add: keeps_done_def)
    moreover have "run_pass src ls (m # ms) b st = Some (st', b')" using True st1(1) st'(1) by simp
    moreover have "graph (source st') = graph (source st)" using st'(4) st1(4) by (simp add: call_def)
    ultimately show ?thesis using st'(2,5) mono by (intro exI [of _ st'] exI [of _ b']) auto
  qed
qed

lemma min_rank_eligible:
  assumes "m \<in> set G" "\<not> is_complete ls l (meta_id m)"
    and "\<forall>m \<in> set G. \<forall>p \<in> set (meta_parents m).
      rank p < (rank (meta_id m) :: nat) \<and> (p \<in> meta_id ` set G \<or> is_complete ls l p)"
  shows "\<exists>m \<in> set G. eligible_shard ls l m"
proof -
  let ?A = "\<lambda>m. m \<in> set G \<and> \<not> is_complete ls l (meta_id m)"
  obtain x where x: "?A x" "\<And>y. ?A y \<Longrightarrow> rank (meta_id x) \<le> rank (meta_id y)"
    using assms(1,2) ex_has_least_nat [of ?A m "\<lambda>m. rank (meta_id m)"] by blast
  have "is_complete ls l p" if "p \<in> set (meta_parents x)" for p
  proof (rule ccontr)
    assume np: "\<not> is_complete ls l p"
    with assms(3) x(1) that obtain y where "y \<in> set G" "p = meta_id y" "rank p < rank (meta_id x)" by fastforce
    with x(2) [of y] np show False by simp
  qed
  with x(1) show ?thesis by (auto simp: eligible_shard_def)
qed

lemma run_terminates:
  assumes "log_inv ok slog ls L start st"
    and "\<forall>m \<in> set (graph (source st)). \<forall>p \<in> set (meta_parents m).
      rank p < (rank (meta_id m) :: nat) \<and> (p \<in> meta_id ` set (graph (source st)) \<or> is_complete ls (leases st) p)"
  shows "\<exists>st'. run_scheduler src ls st = Some st' \<and>
    (\<forall>m \<in> set (graph (source st)). is_complete ls (leases st') (meta_id m))"
  using assms
proof (induction "card {s \<in> meta_id ` set (graph (source st)). \<not> is_complete ls (leases st) s}" arbitrary: st
    rule: less_induct)
  case less
  let ?G = "graph (source st)"
  have ok: "ok (source st)" using less.prems(1) by (simp add: log_inv_defs)
  obtain s' where d: "describe_shards src (source st) = (s', ?G)" and s': "graph s' = ?G" "ok s'" "slog s' = slog (source st)"
    using describe_graph [OF ok] describe_keeps [OF ok] by (metis prod.exhaust)
  let ?st = "st\<lparr>source := s'\<rparr>"
  have inv: "log_inv ok slog ls L start ?st" using less.prems(1) s' by (simp add: log_inv_defs)
  show ?case
  proof (cases "\<forall>m \<in> set ?G. is_complete ls (leases st) (meta_id m)")
    case True
    then show ?thesis by (simp add: run_scheduler.simps d)
  next
    case False
    then obtain m where "m \<in> set ?G" "\<not> is_complete ls (leases st) (meta_id m)" by blast
    from min_rank_eligible [OF this less.prems(2)] obtain x where x: "x \<in> set ?G" "eligible_shard ls (leases st) x" by blast
    from pass_terminates [OF inv, of ?G False] obtain st2 b2 where p: "run_pass src ls ?G False ?st = Some (st2, b2)"
      "log_inv ok slog ls L start st2" "keeps_done ls ?st st2" "graph (source st2) = graph (source ?st)"
      "\<forall>m \<in> set ?G. eligible_shard ls (leases ?st) m \<longrightarrow> is_complete ls (leases st2) (meta_id m) \<and> b2" by blast
    have b2: b2 "is_complete ls (leases st2) (meta_id x)" using p(5) x by auto
    have g2: "graph (source st2) = ?G" using p(4) s'(1) by simp
    let ?open = "\<lambda>l. {s \<in> meta_id ` set ?G. \<not> is_complete ls l s}"
    have "meta_id x \<in> ?open (leases st)" using x by (auto simp: eligible_shard_def split: if_splits)
    moreover have "?open (leases st2) \<subseteq> ?open (leases st) - {meta_id x}" using p(3) b2 by (auto simp: keeps_done_def)
    ultimately have "card (?open (leases st2)) < card (?open (leases st))"
      by (intro psubset_card_mono) auto
    then have lt: "card {s \<in> meta_id ` set (graph (source st2)). \<not> is_complete ls (leases st2) s} <
        card {s \<in> meta_id ` set (graph (source st)). \<not> is_complete ls (leases st) s}" by (simp add: g2)
    have "\<forall>m \<in> set ?G. \<forall>p \<in> set (meta_parents m).
        rank p < rank (meta_id m) \<and> (p \<in> meta_id ` set ?G \<or> is_complete ls (leases st2) p)"
      using less.prems(2) p(3) by (fastforce simp: keeps_done_def)
    with less.hyps [OF lt p(2)] g2 obtain st' where "run_scheduler src ls st2 = Some st'"
      "\<forall>m \<in> set ?G. is_complete ls (leases st') (meta_id m)" by auto
    moreover have "run_scheduler src ls st = run_scheduler src ls st2"
      using False b2(1) p(1) by (subst run_scheduler.simps) (auto simp: d Let_def)
    ultimately show ?thesis by auto
  qed
qed

end

section \<open>The in-memory instances satisfy the contracts\<close>

definition in_mem_log :: "InMemSource \<Rightarrow> ShardId \<Rightarrow> Record list" where
  "in_mem_log s sh = (case data_of s sh of None \<Rightarrow> [] | Some rs \<Rightarrow> rs)"

definition in_mem_ok :: "InMemSource \<Rightarrow> bool" where
  "in_mem_ok s \<longleftrightarrow>
     (\<forall>sh. distinct (map rec_seq (in_mem_log s sh)) \<and> (\<forall>r \<in> set (in_mem_log s sh). rec_shard_id r = sh))"

lemma after_token_drop: "after_token q L = Some rs \<Longrightarrow> rs = drop (length L - length rs) L \<and> length rs < length L"
  by (induction L) (auto split: if_splits simp: Suc_diff_le)

lemma after_token_None: "after_token q L = None \<longleftrightarrow> q \<notin> set (map rec_seq L)"
  by (induction L) auto

lemma in_mem_get_records_drop:
  "valid_token (in_mem_log s sh) after \<Longrightarrow>
   batch_records (in_mem_get_records s sh after) = drop (log_pos (in_mem_log s sh) after) (in_mem_log s sh)"
  by (auto simp: in_mem_get_records_def in_mem_log_def [symmetric] log_pos_def Let_def valid_token_def after_token_None
      dest: after_token_drop split: option.splits)

interpretation in_mem_stream: closed_stream in_mem_source in_mem_ok in_mem_log in_mem_leases metas
proof unfold_locales
  fix s sh after s' b
  assume "in_mem_ok s" "valid_token (in_mem_log s sh) after" "get_records in_mem_source s sh after = (s', b)"
  then show "in_mem_ok s' \<and> in_mem_log s' = in_mem_log s \<and>
      (\<exists>n. batch_records b = take n (drop (log_pos (in_mem_log s sh) after) (in_mem_log s sh))) \<and>
      (batch_shard_end b \<longrightarrow> log_pos (in_mem_log s sh) after + length (batch_records b) = length (in_mem_log s sh))"
    using in_mem_get_records_drop [of s sh after] log_pos_le [of "in_mem_log s sh" after]
    by (auto simp: in_mem_source_def intro!: exI [of _ "length (in_mem_log s sh)"])
qed (auto simp: in_mem_source_def in_mem_ok_def in_mem_get_records_def Let_def)

text \<open>The stream of the first ordering test: the child is listed before its parent.\<close>

definition reshard_source :: InMemSource where
  "reshard_source =
     \<lparr>metas = [\<lparr>meta_id = ''shard-child'', meta_parents = [''shard-parent'']\<rparr>,
               \<lparr>meta_id = ''shard-parent'', meta_parents = []\<rparr>],
      data_of = [''shard-parent'' \<mapsto> [rec ''shard-parent'' ''1'', rec ''shard-parent'' ''2''],
                 ''shard-child'' \<mapsto> [rec ''shard-child'' ''3'', rec ''shard-child'' ''4'']]\<rparr>"

definition reshard_start :: "(InMemSource, InMemLeases) sched_state" where
  "reshard_start = scheduler_new reshard_source in_mem_leases_default"

definition reshard_rank :: "ShardId \<Rightarrow> nat" where
  "reshard_rank s = (if s = ''shard-child'' then 1 else 0)"

lemma reshard_source_ok: "in_mem_ok (source reshard_start)"
  by (auto simp: in_mem_ok_def in_mem_log_def reshard_start_def scheduler_new_def reshard_source_def rec_def)

section \<open>Properties\<close>


definition reshard_run :: "(InMemSource, InMemLeases) sched_state" where
  "reshard_run = \<lparr>source = reshard_source,
     leases = \<lparr>checkpoints = [''shard-parent'' \<mapsto> ''2'', ''shard-child'' \<mapsto> ''4''],
               complete = [''shard-parent'' \<mapsto> True, ''shard-child'' \<mapsto> True]\<rparr>,
     calls = [Initialize ''shard-parent'',
              ProcessRecords [rec ''shard-parent'' ''1'', rec ''shard-parent'' ''2''], ShardEnded ''shard-parent'',
              Initialize ''shard-child'',
              ProcessRecords [rec ''shard-child'' ''3'', rec ''shard-child'' ''4''], ShardEnded ''shard-child'']\<rparr>"

lemma in_mem_drain:
  "drain_shard in_mem_source ls sh st = Some (end_shard ls sh (fst (poll_shard in_mem_source ls sh st)))"
  by (subst drain_shard.simps)
     (simp add: poll_shard_def in_mem_source_def in_mem_get_records_def Let_def split: prod.splits)

lemma in_mem_ops:
  "describe_shards in_mem_source s = (s, metas s)"
  "get_records in_mem_source s sh a = (s, in_mem_get_records s sh a)"
  "checkpoint_at in_mem_leases l sh q = l\<lparr>checkpoints := (checkpoints l)(sh \<mapsto> q)\<rparr>"
  "last_checkpoint in_mem_leases l sh = checkpoints l sh"
  "mark_done in_mem_leases l sh = l\<lparr>complete := (complete l)(sh \<mapsto> True)\<rparr>"
  "is_complete in_mem_leases l sh = (case complete l sh of None \<Rightarrow> False | Some b \<Rightarrow> b)"
  by (simp_all add: in_mem_source_def in_mem_leases_def)

lemmas in_mem_eval = in_mem_drain in_mem_ops poll_shard_def end_shard_def call_def eligible_shard_def Let_def
  in_mem_get_records_def in_mem_leases_default_def reshard_start_def
  reshard_source_def reshard_run_def scheduler_new_def rec_def

lemma reshard_run_eq: "run_scheduler in_mem_source in_mem_leases reshard_start = Some reshard_run"
  by (subst run_scheduler.simps, simp add: in_mem_eval, subst run_scheduler.simps, simp add: in_mem_eval,
      subst run_scheduler.simps, simp add: in_mem_eval)


text \<open>
  C12. Order, no gap, no repetition: over a source that serves each shard from a log, after a run
  (one that ends, however it ends) the records delivered for a shard are, in order, exactly the
  stretch of its log between the checkpoint it started from and the checkpoint it has now; and if
  the shard was ended, that is all the rest of its log.
\<close>

theorem delivery_in_order:
  assumes "scheduler_on_log src ok slog ls" and "ok s0"
    and "\<And>sh. valid_token (slog s0 sh) (last_checkpoint ls l0 sh)"
    and "run_scheduler src ls (scheduler_new s0 l0) = Some st"
  shows "deliveries sh (calls st) =
      take (log_pos (slog s0 sh) (last_checkpoint ls (leases st) sh) - log_pos (slog s0 sh) (last_checkpoint ls l0 sh))
        (drop (log_pos (slog s0 sh) (last_checkpoint ls l0 sh)) (slog s0 sh)) \<and>
    (ShardEnded sh \<in> set (calls st) \<longrightarrow>
       deliveries sh (calls st) = drop (log_pos (slog s0 sh) (last_checkpoint ls l0 sh)) (slog s0 sh))"
proof -
  let ?start = "\<lambda>sh. log_pos (slog s0 sh) (last_checkpoint ls l0 sh)"
  have "log_inv ok slog ls (slog s0) ?start (scheduler_new s0 l0)"
    using assms(2,3) by (simp add: log_inv_defs scheduler_new_def deliveries_def)
  from scheduler_on_log.log_inv_run [OF assms(1,4) this] show ?thesis by (auto simp: log_inv_defs Let_def)
qed

theorem delivery_in_order_witness:
  "deliveries ''shard-child'' (calls reshard_run) = [rec ''shard-child'' ''3'', rec ''shard-child'' ''4'']"
proof -
  have ok: "in_mem_ok reshard_source" using reshard_source_ok by (simp add: reshard_start_def scheduler_new_def)
  have run: "run_scheduler in_mem_source in_mem_leases (scheduler_new reshard_source in_mem_leases_default) = Some reshard_run"
    using reshard_run_eq by (simp add: reshard_start_def)
  have tok: "valid_token (in_mem_log reshard_source sh) (last_checkpoint in_mem_leases in_mem_leases_default sh)" for sh
    by (simp add: valid_token_def in_mem_leases_def in_mem_leases_default_def)
  from delivery_in_order [OF in_mem_stream.scheduler_on_log_axioms ok tok run, of "''shard-child''", THEN conjunct2]
  show ?thesis
    by (simp add: reshard_run_def in_mem_leases_def in_mem_leases_default_def log_pos_def in_mem_log_def reshard_source_def)
qed

text \<open>
  C13. Termination and completeness: on a closed stream whose lineage is well-founded (every
  parent has a smaller rank, and is described or already complete), the scheduler returns, every
  described shard is complete, and every shard that was not complete before got all the rest of
  its log.
\<close>

theorem scheduler_drains_stream:
  assumes "closed_stream src ok slog ls graph" and "ok s0"
    and "\<And>sh. valid_token (slog s0 sh) (last_checkpoint ls l0 sh)"
    and "\<forall>m \<in> set (graph s0). \<forall>p \<in> set (meta_parents m).
      rank p < (rank (meta_id m) :: nat) \<and> (p \<in> meta_id ` set (graph s0) \<or> is_complete ls l0 p)"
  shows "\<exists>st. run_scheduler src ls (scheduler_new s0 l0) = Some st \<and>
    (\<forall>m \<in> set (graph s0). is_complete ls (leases st) (meta_id m) \<and>
       (\<not> is_complete ls l0 (meta_id m) \<longrightarrow>
          deliveries (meta_id m) (calls st) =
            drop (log_pos (slog s0 (meta_id m)) (last_checkpoint ls l0 (meta_id m))) (slog s0 (meta_id m))))"
proof -
  let ?start = "\<lambda>sh. log_pos (slog s0 sh) (last_checkpoint ls l0 sh)"
  let ?st0 = "scheduler_new s0 l0"
  note on_log = closed_stream.axioms(1) [OF assms(1)]
  note laws = scheduler_on_log.axioms(2) [OF on_log]
  have inv: "log_inv ok slog ls (slog s0) ?start ?st0"
    using assms(2,3) by (simp add: log_inv_defs scheduler_new_def deliveries_def)
  from closed_stream.run_terminates [OF assms(1) inv, of rank] assms(4) obtain st
    where st: "run_scheduler src ls ?st0 = Some st" "\<forall>m \<in> set (graph s0). is_complete ls (leases st) (meta_id m)"
    by (auto simp: scheduler_new_def)
  from lease_store_laws.complete_has_ended [OF laws st(1), of "{s. is_complete ls l0 s}"]
  have "\<forall>s. is_complete ls (leases st) s \<longrightarrow> is_complete ls l0 s \<or> ShardEnded s \<in> set (calls st)"
    by (simp add: scheduler_new_def)
  with scheduler_on_log.log_inv_run [OF on_log st(1) inv] st show ?thesis
    by (intro exI [of _ st]) (auto simp: log_inv_defs Let_def)
qed

theorem scheduler_drains_stream_witness:
  "\<exists>st. run_scheduler in_mem_source in_mem_leases (scheduler_new reshard_source in_mem_leases_default) = Some st \<and>
     deliveries ''shard-parent'' (calls st) = [rec ''shard-parent'' ''1'', rec ''shard-parent'' ''2'']"
proof -
  have ok: "in_mem_ok reshard_source" using reshard_source_ok by (simp add: reshard_start_def scheduler_new_def)
  have "\<forall>m \<in> set (metas reshard_source). \<forall>p \<in> set (meta_parents m). reshard_rank p < reshard_rank (meta_id m) \<and>
      (p \<in> meta_id ` set (metas reshard_source) \<or> is_complete in_mem_leases in_mem_leases_default p)"
    by (simp add: reshard_source_def reshard_rank_def)
  from scheduler_drains_stream [OF in_mem_stream.closed_stream_axioms ok _ this] show ?thesis
    by (fastforce simp: valid_token_def in_mem_leases_def in_mem_leases_default_def reshard_source_def
        in_mem_log_def log_pos_def)
qed

end
