(* ===== verification/DynamoDB.thy ===== *)
theory DynamoDB
  imports Prelude
begin

text \<open>
  The DynamoDB service as the lease store sees it. The service is not part of the repository: it
  is a parameter, a function \<open>send\<close> from a request and an environment to an outcome and the
  next environment, and this theory states what the store relies on as the locale
  \<open>dynamodb_service\<close>: conditional writes are atomic, a failed condition and a throttled
  request leave the table alone, any other error may or may not have applied the write, and a
  consistent read returns the current item.

  Requests carry the condition and update expressions of the sources as syntax trees with their
  placeholder values. \<open>sim_send\<close> is an executable table with a script of injected faults
  that satisfies the laws; it instantiates the parameter where a theorem is applied.
\<close>

section \<open>Requests\<close>

datatype AttributeValue =
    AV_S string | AV_N string | AV_BOOL bool | AV_NULL bool | AV_B "8 word list"
  | AV_M "(string \<times> AttributeValue) list" | AV_L "AttributeValue list"
  | AV_SS "string list" | AV_NS "string list" | AV_BS "8 word list list"

type_synonym ddb_item = "string \<rightharpoonup> AttributeValue"
type_synonym ddb_table = "string \<rightharpoonup> ddb_item"

definition LEASE_KEY :: string where "LEASE_KEY = ''leaseKey''"

datatype cond_expr =
    AttributeNotExists string
  | AttributeExists string
  | AttrEq string string
  | AndCond cond_expr cond_expr

datatype update_action =
    SetTo string string
  | SetPlus string string string
  | RemoveAttr string
  | AddTo string string

text \<open>
  \<open>upd_return\<close> says that the updated attributes are asked for
  (\<open>ReturnValue::UpdatedNew\<close>); \<open>create_units\<close> is the provisioned throughput, \<open>None\<close> for
  on-demand billing. One request is one call to the service: what the client library retries on
  its own is not modelled.

  Items are addressed by the value of their \<open>leaseKey\<close>, the partition key of the table.
\<close>

datatype ddb_request =
    PutItem (req_table: string) (put_item: ddb_item) (put_cond: cond_expr)
  | UpdateItem (req_table: string) (upd_key: string) (upd_actions: "update_action list")
      (upd_cond: "cond_expr option") (upd_values: "(string \<times> AttributeValue) list") (upd_return: bool)
  | DeleteItem (req_table: string) (del_key: string) (del_cond: cond_expr)
      (del_values: "(string \<times> AttributeValue) list")
  | GetItem (req_table: string) (get_key: string)
  | Scan (req_table: string) (scan_start: "string option")
  | DescribeTable (req_table: string)
  | CreateTable (req_table: string) (create_units: "(64 word \<times> 64 word) option")
  | UpdateContinuousBackups (req_table: string) (pitr_enabled: bool)

record ddb_error =
  err_code :: "string option"
  err_msg :: string

record ddb_output =
  out_item :: "ddb_item option"
  out_items :: "ddb_item list"
  out_last_key :: "string option"
  out_status :: "string option"

definition CONDITIONAL_CHECK_FAILED :: string where
  "CONDITIONAL_CHECK_FAILED = ''ConditionalCheckFailedException''"

definition THROTTLE_CODES :: "string list" where
  "THROTTLE_CODES =
     [''ProvisionedThroughputExceededException'', ''ThrottlingException'',
      ''RequestLimitExceeded'', ''LimitExceededException'']"

section \<open>The documented effect of a write\<close>

fun num_of :: "AttributeValue \<Rightarrow> nat option" where
  "num_of (AV_N s) = parse_nat s"
| "num_of _ = None"

text \<open>Equality of attribute values: numbers by value, everything else as it is.\<close>

definition av_eq :: "AttributeValue \<Rightarrow> AttributeValue \<Rightarrow> bool" where
  "av_eq a b = (case (num_of a, num_of b) of (Some m, Some n) \<Rightarrow> m = n | _ \<Rightarrow> a = b)"

fun eval_cond :: "(string \<times> AttributeValue) list \<Rightarrow> cond_expr \<Rightarrow> ddb_item option \<Rightarrow> bool" where
  "eval_cond vs (AttributeNotExists a) it = (case it of None \<Rightarrow> True | Some i \<Rightarrow> i a = None)"
| "eval_cond vs (AttributeExists a) it = (case it of None \<Rightarrow> False | Some i \<Rightarrow> i a \<noteq> None)"
| "eval_cond vs (AttrEq a p) it =
     (case it of
        None \<Rightarrow> False
      | Some i \<Rightarrow> (case (i a, map_of vs p) of (Some x, Some v) \<Rightarrow> av_eq x v | _ \<Rightarrow> False))"
| "eval_cond vs (AndCond c d) it = (eval_cond vs c it \<and> eval_cond vs d it)"

definition num_plus :: "AttributeValue option \<Rightarrow> AttributeValue option \<Rightarrow> AttributeValue option" where
  "num_plus a b =
     (case (Option.bind a num_of, Option.bind b num_of) of
        (Some m, Some n) \<Rightarrow> Some (AV_N (nat_to_string (m + n)))
      | _ \<Rightarrow> a)"

fun apply_action :: "(string \<times> AttributeValue) list \<Rightarrow> update_action \<Rightarrow> ddb_item \<Rightarrow> ddb_item" where
  "apply_action vs (SetTo a p) i = i(a := map_of vs p)"
| "apply_action vs (SetPlus a b p) i = i(a := num_plus (i b) (map_of vs p))"
| "apply_action vs (RemoveAttr a) i = i(a := None)"
| "apply_action vs (AddTo a p) i =
     i(a := (case i a of None \<Rightarrow> map_of vs p | Some x \<Rightarrow> num_plus (Some x) (map_of vs p)))"

fun action_attr :: "update_action \<Rightarrow> string" where
  "action_attr (SetTo a p) = a"
| "action_attr (SetPlus a b p) = a"
| "action_attr (RemoveAttr a) = a"
| "action_attr (AddTo a p) = a"

fun is_write :: "ddb_request \<Rightarrow> bool" where
  "is_write (PutItem _ _ _) = True"
| "is_write (UpdateItem _ _ _ _ _ _) = True"
| "is_write (DeleteItem _ _ _ _) = True"
| "is_write _ = False"

definition put_key :: "ddb_item \<Rightarrow> string" where
  "put_key it = (case it LEASE_KEY of Some (AV_S k) \<Rightarrow> k | _ \<Rightarrow> [])"

fun req_key :: "ddb_request \<Rightarrow> string" where
  "req_key (PutItem t it c) = put_key it"
| "req_key (UpdateItem t k acts c vs ret) = k"
| "req_key (DeleteItem t k c vs) = k"
| "req_key (GetItem t k) = k"
| "req_key _ = []"

fun cond_holds :: "ddb_request \<Rightarrow> ddb_item option \<Rightarrow> bool" where
  "cond_holds (PutItem t it c) old = eval_cond [] c old"
| "cond_holds (UpdateItem t k acts c vs ret) old = (case c of None \<Rightarrow> True | Some c \<Rightarrow> eval_cond vs c old)"
| "cond_holds (DeleteItem t k c vs) old = eval_cond vs c old"
| "cond_holds _ old = True"

text \<open>An update of an absent item creates it with its key.\<close>

fun new_item :: "ddb_request \<Rightarrow> ddb_item option \<Rightarrow> ddb_item option" where
  "new_item (PutItem t it c) old = Some it"
| "new_item (UpdateItem t k acts c vs ret) old =
     Some (fold (apply_action vs) acts (case old of None \<Rightarrow> [LEASE_KEY \<mapsto> AV_S k] | Some i \<Rightarrow> i))"
| "new_item (DeleteItem t k c vs) old = None"
| "new_item _ old = old"

definition write_effect :: "ddb_request \<Rightarrow> (string \<Rightarrow> ddb_table) \<Rightarrow> (string \<Rightarrow> ddb_table)" where
  "write_effect r db =
     db(req_table r := (db (req_table r))(req_key r := new_item r (db (req_table r) (req_key r))))"

section \<open>The contract of the service\<close>

locale dynamodb_service =
  fixes send :: "'e \<Rightarrow> ddb_request \<Rightarrow> 'e \<times> (ddb_error + ddb_output)"
    and items :: "'e \<Rightarrow> string \<Rightarrow> ddb_table"
  assumes write_ok: "is_write r \<Longrightarrow> send e r = (e', Inr out) \<Longrightarrow>
      cond_holds r (items e (req_table r) (req_key r)) \<and> items e' = write_effect r (items e)"
    and write_cond_failed: "is_write r \<Longrightarrow> send e r = (e', Inl err) \<Longrightarrow>
      err_code err = Some CONDITIONAL_CHECK_FAILED \<Longrightarrow>
      \<not> cond_holds r (items e (req_table r) (req_key r)) \<and> items e' = items e"
    and write_throttled: "is_write r \<Longrightarrow> send e r = (e', Inl err) \<Longrightarrow>
      err_code err = Some c \<Longrightarrow> c \<in> set THROTTLE_CODES \<Longrightarrow> items e' = items e"
    and write_failed: "is_write r \<Longrightarrow> send e r = (e', Inl err) \<Longrightarrow>
      items e' = items e \<or>
      cond_holds r (items e (req_table r) (req_key r)) \<and> items e' = write_effect r (items e)"
    and read_frame: "\<not> is_write r \<Longrightarrow> send e r = (e', res) \<Longrightarrow> items e' = items e"
    and get_item: "send e (GetItem t k) = (e', Inr out) \<Longrightarrow> out_item out = items e t k"
    and updated_new: "send e (UpdateItem t k acts cnd vs True) = (e', Inr out) \<Longrightarrow>
      \<exists>attrs. out_item out = Some attrs \<and>
        (\<forall>a \<in> set (map action_attr acts). attrs a = Option.bind (items e' t k) (\<lambda>i. i a))"

section \<open>An executable instance\<close>

text \<open>
  A table (its key order kept as a list, so that it can be scanned), and a script that says for
  each call whether it is served, or fails with an error code without effect, or fails after it
  took effect (a lost reply).
\<close>

datatype fault = Served | Refused string | ReplyLost

record sim =
  sim_keys :: "string list"
  sim_db :: "string \<Rightarrow> ddb_table"
  sim_faults :: "fault list"

definition sim_reply :: "ddb_request \<Rightarrow> (string \<Rightarrow> ddb_table) \<Rightarrow> string list \<Rightarrow> ddb_output" where
  "sim_reply r db keys =
     \<lparr>out_item =
        (case r of
           GetItem t k \<Rightarrow> db t k
         | UpdateItem t k acts _ _ _ \<Rightarrow>
             Some (\<lambda>a. if a \<in> set (map action_attr acts) then Option.bind (db t k) (\<lambda>i. i a) else None)
         | _ \<Rightarrow> None),
      out_items = (case r of Scan t _ \<Rightarrow> List.map_filter (db t) keys | _ \<Rightarrow> []),
      out_last_key = None,
      out_status = Some ''ACTIVE''\<rparr>"

definition sim_serve :: "sim \<Rightarrow> ddb_request \<Rightarrow> sim \<times> (ddb_error + ddb_output)" where
  "sim_serve e r =
     (if is_write r \<and> \<not> cond_holds r (sim_db e (req_table r) (req_key r))
      then (e, Inl \<lparr>err_code = Some CONDITIONAL_CHECK_FAILED, err_msg = ''condition''\<rparr>)
      else
        let e' = (if is_write r
                  then e\<lparr>sim_keys := List.insert (req_key r) (sim_keys e), sim_db := write_effect r (sim_db e)\<rparr>
                  else e)
        in (e', Inr (sim_reply r (sim_db e') (sim_keys e'))))"

definition sim_send :: "sim \<Rightarrow> ddb_request \<Rightarrow> sim \<times> (ddb_error + ddb_output)" where
  "sim_send e r =
     (case sim_faults e of
        [] \<Rightarrow> sim_serve e r
      | f # fs \<Rightarrow>
          let e' = e\<lparr>sim_faults := fs\<rparr> in
          (case f of
             Served \<Rightarrow> sim_serve e' r
           | Refused code \<Rightarrow>
               if code = CONDITIONAL_CHECK_FAILED then sim_serve e' r
               else (e', Inl \<lparr>err_code = Some code, err_msg = code\<rparr>)
           | ReplyLost \<Rightarrow> (fst (sim_serve e' r), Inl \<lparr>err_code = None, err_msg = ''dispatch''\<rparr>)))"

lemma sim_serve_ok:
  "sim_serve e r = (e', Inr out) \<Longrightarrow>
   (is_write r \<longrightarrow> cond_holds r (sim_db e (req_table r) (req_key r)) \<and> sim_db e' = write_effect r (sim_db e)) \<and>
   (\<not> is_write r \<longrightarrow> sim_db e' = sim_db e) \<and> out = sim_reply r (sim_db e') (sim_keys e')"
  by (auto simp: sim_serve_def Let_def split: if_splits)

lemma sim_serve_err:
  "sim_serve e r = (e', Inl err) \<Longrightarrow>
   is_write r \<and> \<not> cond_holds r (sim_db e (req_table r) (req_key r)) \<and> e' = e \<and>
   err_code err = Some CONDITIONAL_CHECK_FAILED"
  by (auto simp: sim_serve_def Let_def split: if_splits)

lemma throttle_not_cond: "CONDITIONAL_CHECK_FAILED \<notin> set THROTTLE_CODES"
  by (simp add: CONDITIONAL_CHECK_FAILED_def THROTTLE_CODES_def)

lemma sim_send_cases:
  assumes "sim_send e r = (e', res)"
  obtains (served) e0 where "sim_db e0 = sim_db e" "sim_serve e0 r = (e', res)"
    | (refused) code where "sim_db e' = sim_db e" "res = Inl \<lparr>err_code = Some code, err_msg = code\<rparr>"
        "code \<noteq> CONDITIONAL_CHECK_FAILED"
    | (lost) e0 res0 where "sim_db e0 = sim_db e" "sim_serve e0 r = (e', res0)"
        "res = Inl \<lparr>err_code = None, err_msg = ''dispatch''\<rparr>"
proof (cases "sim_faults e")
  case Nil
  with assms show ?thesis by (intro served [of e]) (simp_all add: sim_send_def)
next
  case (Cons f fs)
  let ?e = "e\<lparr>sim_faults := fs\<rparr>"
  have db: "sim_db ?e = sim_db e" by simp
  show ?thesis
  proof (cases f)
    case Served
    with assms Cons db show ?thesis by (intro served [of ?e]) (simp_all add: sim_send_def)
  next
    case (Refused code)
    show ?thesis
    proof (cases "code = CONDITIONAL_CHECK_FAILED")
      case True
      with assms Cons Refused db show ?thesis by (intro served [of ?e]) (simp_all add: sim_send_def)
    next
      case False
      with assms Cons Refused db show ?thesis by (intro refused [of code]) (auto simp: sim_send_def)
    qed
  next
    case ReplyLost
    with assms Cons db show ?thesis
      by (intro lost [of ?e "snd (sim_serve ?e r)"]) (auto simp: sim_send_def)
  qed
qed

interpretation sim: dynamodb_service sim_send sim_db
proof unfold_locales
  fix r e e' out assume w: "is_write r" and s: "sim_send e r = (e', Inr out)"
  from s show "cond_holds r (sim_db e (req_table r) (req_key r)) \<and> sim_db e' = write_effect r (sim_db e)"
    by (cases rule: sim_send_cases) (use w in \<open>auto dest: sim_serve_ok\<close>)
next
  fix r e e' err assume w: "is_write r" and s: "sim_send e r = (e', Inl err)"
    and c: "err_code err = Some CONDITIONAL_CHECK_FAILED"
  from s show "\<not> cond_holds r (sim_db e (req_table r) (req_key r)) \<and> sim_db e' = sim_db e"
    by (cases rule: sim_send_cases) (use c in \<open>auto dest!: sim_serve_err\<close>)
next
  fix r e e' err c assume w: "is_write r" and s: "sim_send e r = (e', Inl err)"
    and c: "err_code err = Some c" "c \<in> set THROTTLE_CODES"
  from s show "sim_db e' = sim_db e"
    by (cases rule: sim_send_cases) (use c throttle_not_cond in \<open>auto dest!: sim_serve_err\<close>)
next
  fix r e e' err assume w: "is_write r" and s: "sim_send e r = (e', Inl err)"
  from s show "sim_db e' = sim_db e \<or>
      cond_holds r (sim_db e (req_table r) (req_key r)) \<and> sim_db e' = write_effect r (sim_db e)"
  proof (cases rule: sim_send_cases)
    case (lost e0 res0)
    then show ?thesis using w by (cases res0) (auto dest: sim_serve_ok sim_serve_err)
  qed (auto dest: sim_serve_err)
next
  fix r e e' and res :: "ddb_error + ddb_output"
  assume nw: "\<not> is_write r" and s: "sim_send e r = (e', res)"
  from s show "sim_db e' = sim_db e"
  proof (cases rule: sim_send_cases)
    case (served e0)
    then show ?thesis using nw by (cases res) (auto dest: sim_serve_ok sim_serve_err)
  next
    case (lost e0 res0)
    then show ?thesis using nw by (cases res0) (auto dest: sim_serve_ok sim_serve_err)
  qed
next
  fix e t k e' out assume "sim_send e (GetItem t k) = (e', Inr out)"
  then show "out_item out = sim_db e t k"
    by (cases rule: sim_send_cases) (auto dest!: sim_serve_ok simp: sim_reply_def)
next
  fix e t k acts cnd vs e' out assume "sim_send e (UpdateItem t k acts cnd vs True) = (e', Inr out)"
  then show "\<exists>attrs. out_item out = Some attrs \<and>
      (\<forall>a \<in> set (map action_attr acts). attrs a = Option.bind (sim_db e' t k) (\<lambda>i. i a))"
    by (cases rule: sim_send_cases) (auto dest!: sim_serve_ok simp: sim_reply_def)
qed

end
