(* ===== verification/Lease_Store.thy ===== *)
theory Lease_Store
  imports DynamoDB
begin

text \<open>
  The DynamoDB lease store (\<open>lease-dynamodb/src/lib.rs\<close>, \<open>lease-dynamodb/src/dynamodb.rs\<close>).
  Every operation of \<open>DynamoDbLeaseStore\<close> is a definition over the service parameter of
  \<open>DynamoDB\<close>: it builds the request of the source, sends it and maps the outcome.

  The abstract specification is a table of \<open>Lease\<close> rows with one atomic
  compare-and-set per operation (\<open>cas\<close>); \<open>wf_item\<close> is the format of the rows the store
  writes. The lemmas show that each operation implements its compare-and-set on the abstract
  table, and keeps the format.
\<close>

section \<open>Leases\<close>

record Lease =
  lease_key :: string
  lease_owner :: "string option"
  lease_counter :: u64
  lease_checkpoint :: "string option"
  lease_completed :: bool
  lease_parents :: "string list"

definition single_stream_lease_key :: "string \<Rightarrow> string" where
  "single_stream_lease_key shard_id = shard_id"

definition is_takeable :: "Lease \<Rightarrow> u64 \<Rightarrow> bool" where
  "is_takeable l last_seen_counter = (lease_owner l = None \<or> lease_counter l = last_seen_counter)"

definition LEASE_OWNER :: string where "LEASE_OWNER = ''leaseOwner''"
definition LEASE_COUNTER :: string where "LEASE_COUNTER = ''leaseCounter''"
definition CHECKPOINT :: string where "CHECKPOINT = ''checkpoint''"
definition COMPLETED :: string where "COMPLETED = ''completed''"
definition PARENTS :: string where "PARENTS = ''parentShardIds''"

lemmas attr_names = LEASE_KEY_def LEASE_OWNER_def LEASE_COUNTER_def CHECKPOINT_def COMPLETED_def PARENTS_def

fun as_s :: "AttributeValue \<Rightarrow> string option" where
  "as_s (AV_S s) = Some s"
| "as_s _ = None"

fun as_n :: "AttributeValue \<Rightarrow> string option" where
  "as_n (AV_N s) = Some s"
| "as_n _ = None"

fun as_bool :: "AttributeValue \<Rightarrow> bool option" where
  "as_bool (AV_BOOL b) = Some b"
| "as_bool _ = None"

fun as_l :: "AttributeValue \<Rightarrow> AttributeValue list option" where
  "as_l (AV_L l) = Some l"
| "as_l _ = None"

definition unwrap_or :: "'a \<Rightarrow> 'a option \<Rightarrow> 'a" where
  "unwrap_or d x = (case x of None \<Rightarrow> d | Some y \<Rightarrow> y)"

lemma unwrap_or_simps [simp]: "unwrap_or d None = d" "unwrap_or d (Some x) = x"
  by (simp_all add: unwrap_or_def)

definition item_to_lease :: "ddb_item \<Rightarrow> Lease" where
  "item_to_lease i =
     \<lparr>lease_key = unwrap_or [] (Option.bind (i LEASE_KEY) as_s),
      lease_owner = Option.bind (i LEASE_OWNER) as_s,
      lease_counter = unwrap_or 0 (Option.bind (Option.bind (i LEASE_COUNTER) as_n) parse_u64),
      lease_checkpoint = Option.bind (i CHECKPOINT) as_s,
      lease_completed = unwrap_or False (Option.bind (i COMPLETED) as_bool),
      lease_parents = unwrap_or [] (map_option (List.map_filter as_s) (Option.bind (i PARENTS) as_l))\<rparr>"

section \<open>Errors and throttle retries\<close>

datatype lease_error = Lost | Throttled string | Aws string

definition classify :: "ddb_error \<Rightarrow> lease_error" where
  "classify e =
     (if err_code e = Some CONDITIONAL_CHECK_FAILED then Lost
      else if (case err_code e of None \<Rightarrow> False | Some c \<Rightarrow> c \<in> set THROTTLE_CODES)
      then Throttled (err_msg e) else Aws (err_msg e))"

definition is_throttled :: "lease_error + 'r \<Rightarrow> bool" where
  "is_throttled r = (case r of Inl (Throttled _) \<Rightarrow> True | _ \<Rightarrow> False)"

definition with_throttle_retry ::
  "('e \<Rightarrow> u64 \<Rightarrow> 'e) \<Rightarrow> ('e \<Rightarrow> 'e \<times> (lease_error + 'r)) \<Rightarrow> 'e \<Rightarrow> 'e \<times> (lease_error + 'r)" where
  "with_throttle_retry sleep op e = retry_from is_throttled sleep op 4 50 e"

section \<open>The store and its operations\<close>

datatype LeaseBilling = PayPerRequest | Provisioned (read_capacity: "64 word") (write_capacity: "64 word")

record LeaseTableConfig =
  billing :: LeaseBilling
  pitr :: bool

record 'e DynamoDbLeaseStore =
  client :: "'e \<Rightarrow> ddb_request \<Rightarrow> 'e \<times> (ddb_error + ddb_output)"
  rt_sleep :: "'e \<Rightarrow> u64 \<Rightarrow> 'e"
  table :: string
  table_config :: LeaseTableConfig

definition lease_table_config_default :: LeaseTableConfig where
  "lease_table_config_default = \<lparr>billing = PayPerRequest, pitr = False\<rparr>"

definition lease_store_new ::
  "('e \<Rightarrow> ddb_request \<Rightarrow> 'e \<times> (ddb_error + ddb_output)) \<Rightarrow> ('e \<Rightarrow> u64 \<Rightarrow> 'e) \<Rightarrow> string \<Rightarrow> 'e DynamoDbLeaseStore" where
  "lease_store_new cl sl tbl = \<lparr>client = cl, rt_sleep = sl, table = tbl, table_config = lease_table_config_default\<rparr>"

definition with_table_config :: "LeaseTableConfig \<Rightarrow> 'e DynamoDbLeaseStore \<Rightarrow> 'e DynamoDbLeaseStore" where
  "with_table_config cfg st = st\<lparr>table_config := cfg\<rparr>"

text \<open>
  \<open>renew\<close>, \<open>checkpoint\<close> and \<open>heartbeat\<close> retry a throttled attempt; the
  closure they pass to \<open>with_throttle_retry\<close> is the \<open>_once\<close> definition.
\<close>

text \<open>\<open>res.map(ok).map_err(err)\<close> on the outcome of a request.\<close>

definition reply :: "(ddb_error \<Rightarrow> 'x) \<Rightarrow> (ddb_output \<Rightarrow> 'r) \<Rightarrow> 'e \<times> (ddb_error + ddb_output) \<Rightarrow> 'e \<times> ('x + 'r)" where
  "reply on_err on_ok = (\<lambda>(e, r). (e, map_sum on_err on_ok r))"

definition aws_error :: "ddb_error \<Rightarrow> lease_error" where
  "aws_error e = Aws (err_msg e)"

definition owned_values :: "string \<Rightarrow> u64 \<Rightarrow> (string \<times> AttributeValue) list" where
  "owned_values owner c = [('':c'', AV_N (u64_to_string c)), ('':o'', AV_S owner)]"

definition owned_cond :: cond_expr where
  "owned_cond = AndCond (AttrEq LEASE_COUNTER '':c'') (AttrEq LEASE_OWNER '':o'')"

definition get_lease :: "'e DynamoDbLeaseStore \<Rightarrow> string \<Rightarrow> 'e \<Rightarrow> 'e \<times> (string + Lease option)" where
  "get_lease st key e =
     reply err_msg (\<lambda>out. map_option item_to_lease (out_item out)) (client st e (GetItem (table st) key))"

definition claim_request :: "string \<Rightarrow> string \<Rightarrow> string \<Rightarrow> u64 \<Rightarrow> ddb_request" where
  "claim_request tbl key owner seen =
     UpdateItem tbl key [SetTo LEASE_OWNER '':o'', SetPlus LEASE_COUNTER LEASE_COUNTER '':one'']
       (Some (AttrEq LEASE_COUNTER '':c''))
       [('':o'', AV_S owner), ('':one'', AV_N ''1''), ('':c'', AV_N (u64_to_string seen))] False"

definition claim :: "'e DynamoDbLeaseStore \<Rightarrow> string \<Rightarrow> string \<Rightarrow> u64 \<Rightarrow> 'e \<Rightarrow> 'e \<times> (lease_error + Lease)" where
  "claim st key owner seen_counter e =
     reply classify
       (\<lambda>_. \<lparr>lease_key = key, lease_owner = Some owner, lease_counter = seen_counter + 1,
             lease_checkpoint = None, lease_completed = False, lease_parents = []\<rparr>)
       (client st e (claim_request (table st) key owner seen_counter))"

definition create_owned_request :: "string \<Rightarrow> string \<Rightarrow> string \<Rightarrow> ddb_request" where
  "create_owned_request tbl key owner =
     PutItem tbl [LEASE_KEY \<mapsto> AV_S key, LEASE_OWNER \<mapsto> AV_S owner, LEASE_COUNTER \<mapsto> AV_N ''1'']
       (AttributeNotExists LEASE_KEY)"

definition acquire :: "'e DynamoDbLeaseStore \<Rightarrow> string \<Rightarrow> string \<Rightarrow> 'e \<Rightarrow> 'e \<times> (lease_error + Lease)" where
  "acquire st key owner e =
     (case client st e (create_owned_request (table st) key owner) of
        (e1, Inr _) \<Rightarrow>
          (e1, Inr \<lparr>lease_key = key, lease_owner = Some owner, lease_counter = 1,
                    lease_checkpoint = None, lease_completed = False, lease_parents = []\<rparr>)
      | (e1, Inl err) \<Rightarrow>
          if err_code err \<noteq> Some CONDITIONAL_CHECK_FAILED then (e1, Inl (aws_error err))
          else
            (case get_lease st key e1 of
               (e2, Inl msg) \<Rightarrow> (e2, Inl (Aws msg))
             | (e2, Inr None) \<Rightarrow> (e2, Inl (Aws ''lease vanished''))
             | (e2, Inr (Some current)) \<Rightarrow> claim st key owner (lease_counter current) e2))"

definition renew_request :: "string \<Rightarrow> string \<Rightarrow> string \<Rightarrow> u64 \<Rightarrow> ddb_request" where
  "renew_request tbl key owner c =
     UpdateItem tbl key [SetPlus LEASE_COUNTER LEASE_COUNTER '':one''] (Some owned_cond)
       (('':one'', AV_N ''1'') # owned_values owner c) False"

definition renew_once ::
  "'e DynamoDbLeaseStore \<Rightarrow> string \<Rightarrow> string \<Rightarrow> u64 \<Rightarrow> 'e \<Rightarrow> 'e \<times> (lease_error + u64)" where
  "renew_once st key owner c e = reply classify (\<lambda>_. c + 1) (client st e (renew_request (table st) key owner c))"

definition renew ::
  "'e DynamoDbLeaseStore \<Rightarrow> string \<Rightarrow> string \<Rightarrow> u64 \<Rightarrow> 'e \<Rightarrow> 'e \<times> (lease_error + u64)" where
  "renew st key owner c = with_throttle_retry (rt_sleep st) (renew_once st key owner c)"

definition checkpoint_request :: "string \<Rightarrow> string \<Rightarrow> string \<Rightarrow> u64 \<Rightarrow> string \<Rightarrow> ddb_request" where
  "checkpoint_request tbl key owner c seq =
     UpdateItem tbl key [SetTo CHECKPOINT '':cp'', SetPlus LEASE_COUNTER LEASE_COUNTER '':one''] (Some owned_cond)
       (('':cp'', AV_S seq) # ('':one'', AV_N ''1'') # owned_values owner c) False"

definition checkpoint_once ::
  "'e DynamoDbLeaseStore \<Rightarrow> string \<Rightarrow> string \<Rightarrow> u64 \<Rightarrow> string \<Rightarrow> 'e \<Rightarrow> 'e \<times> (lease_error + u64)" where
  "checkpoint_once st key owner c seq e = reply classify (\<lambda>_. c + 1) (client st e (checkpoint_request (table st) key owner c seq))"

definition checkpoint ::
  "'e DynamoDbLeaseStore \<Rightarrow> string \<Rightarrow> string \<Rightarrow> u64 \<Rightarrow> string \<Rightarrow> 'e \<Rightarrow> 'e \<times> (lease_error + u64)" where
  "checkpoint st key owner c seq = with_throttle_retry (rt_sleep st) (checkpoint_once st key owner c seq)"

definition heartbeat_request :: "string \<Rightarrow> string \<Rightarrow> ddb_request" where
  "heartbeat_request tbl worker =
     UpdateItem tbl (''__hb__:'' @ worker) [SetTo LEASE_OWNER '':w'', AddTo LEASE_COUNTER '':one''] None
       [('':w'', AV_S worker), ('':one'', AV_N ''1'')] True"

definition heartbeat_once :: "'e DynamoDbLeaseStore \<Rightarrow> string \<Rightarrow> 'e \<Rightarrow> 'e \<times> (lease_error + u64)" where
  "heartbeat_once st worker e =
     reply classify
       (\<lambda>out. unwrap_or 0
          (Option.bind (Option.bind (Option.bind (out_item out) (\<lambda>a. a LEASE_COUNTER)) as_n) parse_u64))
       (client st e (heartbeat_request (table st) worker))"

definition heartbeat :: "'e DynamoDbLeaseStore \<Rightarrow> string \<Rightarrow> 'e \<Rightarrow> 'e \<times> (lease_error + u64)" where
  "heartbeat st worker = with_throttle_retry (rt_sleep st) (heartbeat_once st worker)"

definition complete_request :: "string \<Rightarrow> string \<Rightarrow> string \<Rightarrow> u64 \<Rightarrow> ddb_request" where
  "complete_request tbl key owner c =
     UpdateItem tbl key [SetTo COMPLETED '':t''] (Some owned_cond)
       (('':t'', AV_BOOL True) # owned_values owner c) False"

definition mark_complete :: "'e DynamoDbLeaseStore \<Rightarrow> string \<Rightarrow> string \<Rightarrow> u64 \<Rightarrow> 'e \<Rightarrow> 'e \<times> (lease_error + unit)" where
  "mark_complete st key owner c e =
     reply classify (\<lambda>_. ()) (client st e (complete_request (table st) key owner c))"

definition delete_request :: "string \<Rightarrow> string \<Rightarrow> ddb_request" where
  "delete_request tbl key =
     DeleteItem tbl key (AndCond (AttributeExists LEASE_KEY) (AttrEq COMPLETED '':t''))
       [('':t'', AV_BOOL True)]"

definition delete_lease :: "'e DynamoDbLeaseStore \<Rightarrow> string \<Rightarrow> 'e \<Rightarrow> 'e \<times> (lease_error + unit)" where
  "delete_lease st key e = reply classify (\<lambda>_. ()) (client st e (delete_request (table st) key))"

definition release_request :: "string \<Rightarrow> string \<Rightarrow> string \<Rightarrow> u64 \<Rightarrow> ddb_request" where
  "release_request tbl key owner c =
     UpdateItem tbl key [RemoveAttr LEASE_OWNER, SetPlus LEASE_COUNTER LEASE_COUNTER '':one''] (Some owned_cond)
       (('':one'', AV_N ''1'') # owned_values owner c) False"

definition release :: "'e DynamoDbLeaseStore \<Rightarrow> string \<Rightarrow> string \<Rightarrow> u64 \<Rightarrow> 'e \<Rightarrow> 'e \<times> (lease_error + unit)" where
  "release st key owner c e =
     reply classify (\<lambda>_. ()) (client st e (release_request (table st) key owner c))"

definition create_shard_request :: "string \<Rightarrow> string \<Rightarrow> string list \<Rightarrow> string option \<Rightarrow> ddb_request" where
  "create_shard_request tbl key parents cp =
     PutItem tbl
       (let put = [LEASE_KEY \<mapsto> AV_S key, LEASE_COUNTER \<mapsto> AV_N ''0''];
            put = (case cp of None \<Rightarrow> put | Some s \<Rightarrow> put(CHECKPOINT \<mapsto> AV_S s))
        in if parents \<noteq> [] then put(PARENTS \<mapsto> AV_L (map AV_S parents)) else put)
       (AttributeNotExists LEASE_KEY)"

definition create_shard_lease ::
  "'e DynamoDbLeaseStore \<Rightarrow> string \<Rightarrow> string list \<Rightarrow> string option \<Rightarrow> 'e \<Rightarrow> 'e \<times> (lease_error + unit)" where
  "create_shard_lease st key parents cp e =
     (case client st e (create_shard_request (table st) key parents cp) of
        (e', Inr _) \<Rightarrow> (e', Inr ())
      | (e', Inl err) \<Rightarrow>
          if err_code err = Some CONDITIONAL_CHECK_FAILED then (e', Inr ()) else (e', Inl (aws_error err)))"

definition try_acquire_leadership ::
  "'e DynamoDbLeaseStore \<Rightarrow> string \<Rightarrow> string \<Rightarrow> u64 option \<Rightarrow> 'e \<Rightarrow> 'e \<times> (lease_error + u64 option)" where
  "try_acquire_leadership st key owner expected e =
     (let (e', r, held) =
        (case expected of
           None \<Rightarrow> (case client st e (create_owned_request (table st) key owner) of (e', r) \<Rightarrow> (e', r, 1))
         | Some c \<Rightarrow> (case client st e (claim_request (table st) key owner c) of (e', r) \<Rightarrow> (e', r, c + 1)))
      in case r of
           Inr _ \<Rightarrow> (e', Inr (Some held))
         | Inl err \<Rightarrow>
             if err_code err = Some CONDITIONAL_CHECK_FAILED then (e', Inr None) else (e', Inl (aws_error err)))"

text \<open>
  The scan loop of \<open>list_all\<close> asks for page after page until the service reports no last
  key; \<open>None\<close> is the loop that never ends.
\<close>

partial_function (option) scan_pages ::
  "'e DynamoDbLeaseStore \<Rightarrow> Lease list \<Rightarrow> string option \<Rightarrow> 'e \<Rightarrow> ('e \<times> (string + Lease list)) option" where
  "scan_pages st out start e =
     (case client st e (Scan (table st) start) of
        (e', Inl err) \<Rightarrow> Some (e', Inl (err_msg err))
      | (e', Inr resp) \<Rightarrow>
          (let out' = out @ map item_to_lease (out_items resp) in
           case out_last_key resp of
             None \<Rightarrow> Some (e', Inr out')
           | Some k \<Rightarrow> scan_pages st out' (Some k) e'))"

definition list_all_leases :: "'e DynamoDbLeaseStore \<Rightarrow> 'e \<Rightarrow> ('e \<times> (string + Lease list)) option" where
  "list_all_leases st e = scan_pages st [] None e"

section \<open>Creating the table\<close>

partial_function (option) wait_active :: "'e DynamoDbLeaseStore \<Rightarrow> 'e \<Rightarrow> ('e \<times> (string + unit)) option" where
  "wait_active st e =
     (case client st e (DescribeTable (table st)) of
        (e', Inl err) \<Rightarrow> Some (e', Inl (err_msg err))
      | (e', Inr d) \<Rightarrow>
          if out_status d = Some ''ACTIVE'' then Some (e', Inr ())
          else wait_active st (rt_sleep st e' 500))"

text \<open>\<open>n\<close> is what is left of the twelve retries, \<open>attempt\<close> the counter of the source.\<close>

fun enable_pitr :: "'e DynamoDbLeaseStore \<Rightarrow> nat \<Rightarrow> u64 \<Rightarrow> 'e \<Rightarrow> 'e \<times> (string + unit)" where
  "enable_pitr st n attempt e =
     (case client st e (UpdateContinuousBackups (table st) True) of
        (e', Inr _) \<Rightarrow> (e', Inr ())
      | (e', Inl err) \<Rightarrow>
          (case n of
             0 \<Rightarrow> (e', Inl (err_msg err))
           | Suc m \<Rightarrow>
               if err_code err = Some ''ContinuousBackupsUnavailableException''
               then enable_pitr st m (attempt + 1) (rt_sleep st e' (500 * (attempt + 1)))
               else (e', Inl (err_msg err))))"

declare enable_pitr.simps [simp del]

definition ensure_table :: "'e DynamoDbLeaseStore \<Rightarrow> 'e \<Rightarrow> ('e \<times> (string + unit)) option" where
  "ensure_table st e =
     (let (e1, d) = client st e (DescribeTable (table st));
          exists = (case d of Inr _ \<Rightarrow> True | Inl _ \<Rightarrow> False);
          (e2, created) =
            (if \<not> exists
             then client st e1
                    (CreateTable (table st)
                       (case billing (table_config st) of PayPerRequest \<Rightarrow> None | Provisioned r w \<Rightarrow> Some (r, w)))
             else (e1, d))
      in case created of
           Inl err \<Rightarrow> Some (e2, Inl (err_msg err))
         | Inr _ \<Rightarrow>
             (case wait_active st e2 of
                None \<Rightarrow> None
              | Some (e3, Inl msg) \<Rightarrow> Some (e3, Inl msg)
              | Some (e3, Inr _) \<Rightarrow>
                  if \<not> exists \<and> pitr (table_config st) then Some (enable_pitr st 12 0 e3)
                  else Some (e3, Inr ())))"

section \<open>Rows in the store's format\<close>

definition attr_ok :: "(AttributeValue \<Rightarrow> 'a option) \<Rightarrow> AttributeValue option \<Rightarrow> bool" where
  "attr_ok dec a = (case a of None \<Rightarrow> True | Some v \<Rightarrow> dec v \<noteq> None)"

definition counter_ok :: "AttributeValue option \<Rightarrow> bool" where
  "counter_ok a = (case Option.bind a num_of of None \<Rightarrow> False | Some n \<Rightarrow> n < 2 ^ 64)"

definition wf_item :: "string \<Rightarrow> ddb_item \<Rightarrow> bool" where
  "wf_item k i =
     (i LEASE_KEY = Some (AV_S k) \<and> counter_ok (i LEASE_COUNTER) \<and> attr_ok as_s (i LEASE_OWNER) \<and>
      attr_ok as_s (i CHECKPOINT) \<and> attr_ok as_bool (i COMPLETED) \<and> attr_ok as_l (i PARENTS))"

definition wf_table :: "ddb_table \<Rightarrow> bool" where
  "wf_table R = (\<forall>k i. R k = Some i \<longrightarrow> wf_item k i)"

definition lease_rows :: "ddb_table \<Rightarrow> string \<rightharpoonup> Lease" where
  "lease_rows R k = map_option item_to_lease (R k)"

lemma wf_tableD: "wf_table R \<Longrightarrow> R k = Some i \<Longrightarrow> wf_item k i"
  by (simp add: wf_table_def)

lemma wf_table_upd: "wf_table R \<Longrightarrow> (\<And>i. v = Some i \<Longrightarrow> wf_item k i) \<Longrightarrow> wf_table (R(k := v))"
  by (simp add: wf_table_def)

lemma lease_rows_upd: "lease_rows (R(k := v)) = (lease_rows R)(k := map_option item_to_lease v)"
  by (simp add: lease_rows_def fun_eq_iff)

lemma parse_nat_u64: "parse_nat s = Some n \<Longrightarrow> parse_u64 s = (if n < 2 ^ 64 then Some (word_of_nat n) else None)"
  by (cases s) (auto simp: parse_u64_def parse_nat_def digit_val_def)

lemma counter_okE:
  assumes "counter_ok a"
  obtains s n where "a = Some (AV_N s)" "parse_nat s = Some n" "parse_u64 s = Some (word_of_nat n)" "n < 2 ^ 64"
proof -
  from assms obtain v n where v: "a = Some v" "num_of v = Some n" "n < 2 ^ 64"
    by (auto simp: counter_ok_def split: option.splits bind_splits)
  then obtain s where "v = AV_N s" by (cases v) auto
  with v that show ?thesis by (auto simp: parse_nat_u64)
qed

lemma parse_nat_u64_to_string [simp]: "parse_nat (u64_to_string c) = Some (unat c)"
  by (simp add: u64_to_string_def)

lemma word_of_nat_eq_unat: "n < 2 ^ 64 \<Longrightarrow> word_of_nat n = (c :: u64) \<longleftrightarrow> n = unat c"
  by (auto simp: unsigned_of_nat take_bit_nat_eq_self)

section \<open>The abstract specification: compare-and-set\<close>

text \<open>
  An operation on row \<open>k\<close> with guard \<open>g\<close> and effect \<open>f\<close>: it succeeds where the
  guard holds and has the effect; \<open>Lost\<close> means the guard failed and nothing changed; a
  throttled call changed nothing; after any other error the effect may have happened.
\<close>

definition cas ::
  "('a option \<Rightarrow> bool) \<Rightarrow> ('a option \<Rightarrow> 'a option) \<Rightarrow> string \<Rightarrow> (string \<rightharpoonup> 'a) \<Rightarrow> (string \<rightharpoonup> 'a) \<Rightarrow>
   lease_error + 'r \<Rightarrow> bool" where
  "cas g f k R R' res =
     (case res of
        Inr _ \<Rightarrow> g (R k) \<and> R' = R(k := f (R k))
      | Inl Lost \<Rightarrow> \<not> g (R k) \<and> R' = R
      | Inl (Throttled _) \<Rightarrow> R' = R
      | Inl (Aws _) \<Rightarrow> R' = R \<or> g (R k) \<and> R' = R(k := f (R k)))"

lemma cas_lease_rows:
  assumes c: "cas g f k R R' res"
    and g: "g (R k) \<longleftrightarrow> G (lease_rows R k)"
    and f: "g (R k) \<Longrightarrow> map_option item_to_lease (f (R k)) = F (lease_rows R k)"
  shows "cas G F k (lease_rows R) (lease_rows R') res"
  using c g f by (auto simp: cas_def lease_rows_upd split: sum.splits lease_error.splits)

lemma cas_wf:
  assumes "cas g f k R R' res" "wf_table R"
    and "\<And>i. g (R k) \<Longrightarrow> f (R k) = Some i \<Longrightarrow> wf_item k i"
  shows "wf_table R'"
  using assms by (auto simp: cas_def wf_table_upd split: sum.splits lease_error.splits)

text \<open>Guards and effects of the operations on an abstract row.\<close>

definition at_counter :: "u64 \<Rightarrow> Lease option \<Rightarrow> bool" where
  "at_counter c l = (case l of None \<Rightarrow> False | Some l \<Rightarrow> lease_counter l = c)"

definition held_by :: "string \<Rightarrow> u64 \<Rightarrow> Lease option \<Rightarrow> bool" where
  "held_by o' c l = (case l of None \<Rightarrow> False | Some l \<Rightarrow> lease_counter l = c \<and> lease_owner l = Some o')"

text \<open>A row whose counter can still be incremented: below the largest \<open>u64\<close>.\<close>

definition below_max :: "Lease option \<Rightarrow> bool" where
  "below_max l = (\<not> at_counter (- 1) l)"

definition is_completed :: "Lease option \<Rightarrow> bool" where
  "is_completed l = (case l of None \<Rightarrow> False | Some l \<Rightarrow> lease_completed l)"

definition bump :: "Lease \<Rightarrow> Lease" where
  "bump l = l\<lparr>lease_counter := lease_counter l + 1\<rparr>"

definition fresh_lease :: "string \<Rightarrow> string option \<Rightarrow> u64 \<Rightarrow> string option \<Rightarrow> string list \<Rightarrow> Lease" where
  "fresh_lease k ow c cp ps =
     \<lparr>lease_key = k, lease_owner = ow, lease_counter = c, lease_checkpoint = cp, lease_completed = False,
      lease_parents = ps\<rparr>"

lemmas row_defs = at_counter_def held_by_def is_completed_def bump_def fresh_lease_def

section \<open>The requests on rows in the format\<close>

lemma parse_nat_01 [simp]: "parse_nat ''1'' = Some 1" "parse_nat ''0'' = Some 0"
  by (simp_all add: parse_nat_def digit_val_def)

lemma parse_u64_01 [simp]: "parse_u64 ''1'' = Some 1" "parse_u64 ''0'' = Some 0"
  by (simp_all add: parse_u64_def)

lemma cond_counter:
  assumes "wf_item k i" "map_of vs p = Some (AV_N (u64_to_string c))"
  shows "eval_cond vs (AttrEq LEASE_COUNTER p) (Some i) \<longleftrightarrow> lease_counter (item_to_lease i) = c"
proof -
  from assms(1) obtain s n where "i LEASE_COUNTER = Some (AV_N s)" "parse_nat s = Some n"
      "parse_u64 s = Some (word_of_nat n)" "n < 2 ^ 64"
    by (auto simp: wf_item_def elim: counter_okE)
  with assms(2) show ?thesis
    by (simp add: item_to_lease_def av_eq_def word_of_nat_eq_unat)
qed

lemma cond_owner:
  assumes "wf_item k i" "map_of vs p = Some (AV_S ow)"
  shows "eval_cond vs (AttrEq LEASE_OWNER p) (Some i) \<longleftrightarrow> lease_owner (item_to_lease i) = Some ow"
proof (cases "i LEASE_OWNER")
  case (Some v)
  with assms show ?thesis by (cases v) (auto simp: wf_item_def attr_ok_def item_to_lease_def av_eq_def)
qed (use assms in \<open>simp add: item_to_lease_def\<close>)

lemma cond_completed:
  assumes "wf_item k i" "map_of vs p = Some (AV_BOOL True)"
  shows "eval_cond vs (AttrEq COMPLETED p) (Some i) \<longleftrightarrow> lease_completed (item_to_lease i)"
proof (cases "i COMPLETED")
  case (Some v)
  with assms show ?thesis by (cases v) (auto simp: wf_item_def attr_ok_def item_to_lease_def av_eq_def)
qed (use assms in \<open>simp add: item_to_lease_def\<close>)

lemma owned_cond_row:
  assumes "wf_item k i" "map_of vs '':c'' = Some (AV_N (u64_to_string c))" "map_of vs '':o'' = Some (AV_S ow)"
  shows "eval_cond vs owned_cond (Some i) \<longleftrightarrow> held_by ow c (Some (item_to_lease i))"
  using assms by (simp add: owned_cond_def cond_counter cond_owner held_by_def del: eval_cond.simps(3))

text \<open>The counter written by \<open>leaseCounter + :one\<close>, below the largest \<open>u64\<close>.\<close>

lemma counter_plus_one:
  assumes "wf_item k i" "lease_counter (item_to_lease i) \<noteq> - 1"
  obtains s where "num_plus (i LEASE_COUNTER) (Some (AV_N ''1'')) = Some (AV_N s)"
    "parse_u64 s = Some (lease_counter (item_to_lease i) + 1)" "counter_ok (Some (AV_N s))"
proof -
  from assms(1) obtain s n where s: "i LEASE_COUNTER = Some (AV_N s)" "parse_nat s = Some n"
      "parse_u64 s = Some (word_of_nat n)" "n < 2 ^ 64"
    by (auto simp: wf_item_def elim: counter_okE)
  then have c: "lease_counter (item_to_lease i) = word_of_nat n" by (simp add: item_to_lease_def)
  have "n \<noteq> 2 ^ 64 - 1"
  proof
    assume "n = 2 ^ 64 - 1"
    then have "word_of_nat n = (- 1 :: u64)" by simp
    with c assms(2) show False by simp
  qed
  with s have n: "n + 1 < 2 ^ 64" by simp
  show ?thesis
    by (rule that [of "nat_to_string (n + 1)"])
       (use s n c in \<open>auto simp: num_plus_def parse_u64_nat_to_string counter_ok_def\<close>)
qed

lemma item_bump:
  assumes "wf_item k i" "lease_counter (item_to_lease i) \<noteq> - 1"
  defines "j \<equiv> i(LEASE_COUNTER := num_plus (i LEASE_COUNTER) (Some (AV_N ''1'')))"
  shows "item_to_lease j = bump (item_to_lease i)" and "wf_item k j"
proof -
  obtain s where "num_plus (i LEASE_COUNTER) (Some (AV_N ''1'')) = Some (AV_N s)"
    "parse_u64 s = Some (lease_counter (item_to_lease i) + 1)" "counter_ok (Some (AV_N s))"
    using counter_plus_one [OF assms(1,2)] .
  then show "item_to_lease j = bump (item_to_lease i)" "wf_item k j"
    using assms(1) by (simp_all add: j_def item_to_lease_def bump_def wf_item_def attr_names)
qed

text \<open>Setting the other attributes.\<close>

lemma item_set_owner:
  "item_to_lease (i(LEASE_OWNER := Some (AV_S ow))) = (item_to_lease i)\<lparr>lease_owner := Some ow\<rparr>"
  "wf_item k i \<Longrightarrow> wf_item k (i(LEASE_OWNER := Some (AV_S ow)))"
  "item_to_lease (i(LEASE_OWNER := None)) = (item_to_lease i)\<lparr>lease_owner := None\<rparr>"
  "wf_item k i \<Longrightarrow> wf_item k (i(LEASE_OWNER := None))"
  by (simp_all add: item_to_lease_def wf_item_def attr_names attr_ok_def)

lemma item_set_checkpoint:
  "item_to_lease (i(CHECKPOINT := Some (AV_S cp))) = (item_to_lease i)\<lparr>lease_checkpoint := Some cp\<rparr>"
  "wf_item k i \<Longrightarrow> wf_item k (i(CHECKPOINT := Some (AV_S cp)))"
  by (simp_all add: item_to_lease_def wf_item_def attr_names attr_ok_def)

lemma item_set_completed:
  "item_to_lease (i(COMPLETED := Some (AV_BOOL b))) = (item_to_lease i)\<lparr>lease_completed := b\<rparr>"
  "wf_item k i \<Longrightarrow> wf_item k (i(COMPLETED := Some (AV_BOOL b)))"
  by (simp_all add: item_to_lease_def wf_item_def attr_names attr_ok_def)

lemmas item_sets = item_set_owner item_set_checkpoint item_set_completed

lemma attr_names_distinct [simp]:
  "LEASE_COUNTER \<noteq> LEASE_OWNER" "LEASE_COUNTER \<noteq> CHECKPOINT" "LEASE_COUNTER \<noteq> COMPLETED"
  "LEASE_OWNER \<noteq> LEASE_COUNTER" "CHECKPOINT \<noteq> LEASE_COUNTER" "COMPLETED \<noteq> LEASE_COUNTER"
  by (simp_all add: attr_names)

text \<open>
  Request \<open>r\<close> has guard \<open>G\<close> and effect \<open>F\<close> on rows in the format, and keeps the
  format, wherever the counter of the row is below the maximum.
\<close>

definition implements ::
  "ddb_request \<Rightarrow> (Lease option \<Rightarrow> bool) \<Rightarrow> (Lease option \<Rightarrow> Lease option) \<Rightarrow> bool" where
  "implements r G F \<longleftrightarrow>
     is_write r \<and>
     (\<forall>old. pred_option (wf_item (req_key r)) old \<and> below_max (map_option item_to_lease old) \<longrightarrow>
       (cond_holds r old \<longleftrightarrow> G (map_option item_to_lease old)) \<and>
       (cond_holds r old \<longrightarrow>
          map_option item_to_lease (new_item r old) = F (map_option item_to_lease old) \<and>
          pred_option (wf_item (req_key r)) (new_item r old)))"

lemma implementsI:
  assumes "is_write r"
    and "cond_holds r None \<longleftrightarrow> G None"
    and "G None \<Longrightarrow>
      map_option item_to_lease (new_item r None) = F None \<and> pred_option (wf_item (req_key r)) (new_item r None)"
    and "\<And>i. wf_item (req_key r) i \<Longrightarrow> below_max (Some (item_to_lease i)) \<Longrightarrow>
      cond_holds r (Some i) \<longleftrightarrow> G (Some (item_to_lease i))"
    and "\<And>i. wf_item (req_key r) i \<Longrightarrow> below_max (Some (item_to_lease i)) \<Longrightarrow> G (Some (item_to_lease i)) \<Longrightarrow>
      map_option item_to_lease (new_item r (Some i)) = F (Some (item_to_lease i)) \<and>
      pred_option (wf_item (req_key r)) (new_item r (Some i))"
  shows "implements r G F"
  unfolding implements_def
proof (intro conjI assms(1) allI impI)
  fix old assume "pred_option (wf_item (req_key r)) old \<and> below_max (map_option item_to_lease old)"
  then show "cond_holds r old \<longleftrightarrow> G (map_option item_to_lease old)"
      and "cond_holds r old \<Longrightarrow> map_option item_to_lease (new_item r old) = F (map_option item_to_lease old)"
      and "cond_holds r old \<Longrightarrow> pred_option (wf_item (req_key r)) (new_item r old)"
    using assms(2-5) by (cases old; simp)+
qed

lemma claim_implements:
  "implements (claim_request t k ow c) (at_counter c)
    (map_option (\<lambda>l. bump (l\<lparr>lease_owner := Some ow\<rparr>)))"
proof (rule implementsI, goal_cases)
  case (4 i)
  then show ?case by (simp add: claim_request_def at_counter_def cond_counter del: eval_cond.simps(3))
next
  case (5 i)
  let ?i = "i(LEASE_OWNER := Some (AV_S ow))"
  have "wf_item k ?i" "lease_counter (item_to_lease ?i) \<noteq> - 1"
    using 5 by (simp_all add: item_sets claim_request_def at_counter_def below_max_def)
  then show ?case using item_bump [of k ?i] by (simp add: claim_request_def item_sets)
qed (simp_all add: claim_request_def at_counter_def)

text \<open>The requests conditioned on owner and counter, with their updates but the counter's first.\<close>

lemma owned_implements:
  assumes r: "r = UpdateItem t k (acts @ [SetPlus LEASE_COUNTER LEASE_COUNTER '':one'']) (Some owned_cond) vs ret"
    and vs: "map_of vs '':c'' = Some (AV_N (u64_to_string c))" "map_of vs '':o'' = Some (AV_S ow)"
      "map_of vs '':one'' = Some (AV_N ''1'')"
    and acts: "\<And>i. item_to_lease (fold (apply_action vs) acts i) = F (item_to_lease i)"
      "\<And>i. wf_item k i \<Longrightarrow> wf_item k (fold (apply_action vs) acts i)"
      "\<And>l. lease_counter (F l) = lease_counter l"
  shows "implements r (held_by ow c) (map_option (\<lambda>l. bump (F l)))"
proof (rule implementsI, goal_cases)
  case (4 i)
  then show ?case using owned_cond_row [of k i vs c ow] vs by (simp add: r)
next
  case (5 i)
  let ?i = "fold (apply_action vs) acts i"
  have "wf_item k ?i" "lease_counter (item_to_lease ?i) \<noteq> - 1"
    using 5 acts by (simp_all add: r below_max_def at_counter_def)
  then show ?case using item_bump [of k ?i] vs acts by (simp add: r)
qed (simp_all add: r held_by_def owned_cond_def)

lemma owned_values_lookup [simp]:
  "map_of (owned_values ow c) '':c'' = Some (AV_N (u64_to_string c))"
  "map_of (owned_values ow c) '':o'' = Some (AV_S ow)"
  by (simp_all add: owned_values_def)

lemma renew_implements:
  "implements (renew_request t k ow c) (held_by ow c) (map_option bump)"
  by (rule owned_implements [where acts = "[]" and F = "\<lambda>l. l" and t = t and k = k and ret = False
        and vs = "('':one'', AV_N ''1'') # owned_values ow c"])
     (simp_all add: renew_request_def)

lemma checkpoint_implements:
  "implements (checkpoint_request t k ow c seq) (held_by ow c)
    (map_option (\<lambda>l. bump (l\<lparr>lease_checkpoint := Some seq\<rparr>)))"
  by (rule owned_implements [where acts = "[SetTo CHECKPOINT '':cp'']" and t = t and k = k and ret = False
        and vs = "('':cp'', AV_S seq) # ('':one'', AV_N ''1'') # owned_values ow c"])
     (simp_all add: checkpoint_request_def item_sets)

lemma release_implements:
  "implements (release_request t k ow c) (held_by ow c)
    (map_option (\<lambda>l. bump (l\<lparr>lease_owner := None\<rparr>)))"
  by (rule owned_implements [where acts = "[RemoveAttr LEASE_OWNER]" and t = t and k = k and ret = False
        and vs = "('':one'', AV_N ''1'') # owned_values ow c"])
     (simp_all add: release_request_def item_sets)

lemma complete_implements:
  "implements (complete_request t k ow c) (held_by ow c)
     (map_option (\<lambda>l. l\<lparr>lease_completed := True\<rparr>))"
  by (rule implementsI)
     (simp_all add: complete_request_def held_by_def item_sets owned_cond_row, simp_all add: owned_cond_def)

lemma delete_implements: "implements (delete_request t k) is_completed (\<lambda>_. None)"
proof (rule implementsI, goal_cases)
  case (4 i)
  then have "wf_item k i" by (simp add: delete_request_def)
  with cond_completed [of k i "[('':t'', AV_BOOL True)]" "'':t''"] show ?case
    by (simp add: delete_request_def is_completed_def wf_item_def)
qed (simp_all add: delete_request_def is_completed_def)

lemma create_owned_implements:
  "implements (create_owned_request t k ow) (\<lambda>l. l = None) (\<lambda>_. Some (fresh_lease k (Some ow) 1 None []))"
  by (rule implementsI)
     (simp_all add: create_owned_request_def fresh_lease_def item_to_lease_def wf_item_def attr_names
        put_key_def attr_ok_def counter_ok_def)

lemma map_filter_strings: "List.map_filter as_s (map AV_S ps) = ps"
  by (induction ps) (simp_all add: List.map_filter_simps)

lemma create_shard_implements:
  "implements (create_shard_request t k ps cp) (\<lambda>l. l = None) (\<lambda>_. Some (fresh_lease k None 0 cp ps))"
  by (rule implementsI; cases cp)
     (simp_all add: create_shard_request_def fresh_lease_def item_to_lease_def wf_item_def attr_names
        put_key_def attr_ok_def counter_ok_def map_filter_strings Let_def)

lemma heartbeat_implements:
  "implements (heartbeat_request t w) (\<lambda>_. True)
     (\<lambda>l. Some (case l of None \<Rightarrow> fresh_lease (''__hb__:'' @ w) (Some w) 1 None []
                | Some l \<Rightarrow> bump (l\<lparr>lease_owner := Some w\<rparr>)))"
proof (rule implementsI, goal_cases)
  case (5 i)
  let ?k = "''__hb__:'' @ w" and ?i = "i(LEASE_OWNER := Some (AV_S w))"
  have wf: "wf_item ?k ?i" "lease_counter (item_to_lease ?i) \<noteq> - 1"
    using 5 by (simp_all add: item_sets heartbeat_request_def at_counter_def below_max_def)
  obtain v where "i LEASE_COUNTER = Some v"
    using 5 by (auto simp: heartbeat_request_def wf_item_def elim: counter_okE)
  with item_bump [OF wf] show ?case by (simp add: heartbeat_request_def item_sets)
qed (simp_all add: heartbeat_request_def fresh_lease_def item_to_lease_def wf_item_def attr_names attr_ok_def counter_ok_def)

section \<open>The store over a service\<close>

lemma classify_cases:
  "err_code err = Some CONDITIONAL_CHECK_FAILED \<Longrightarrow> classify err = Lost"
  "classify err = Lost \<Longrightarrow> err_code err = Some CONDITIONAL_CHECK_FAILED"
  "classify err = Throttled m \<Longrightarrow> \<exists>c \<in> set THROTTLE_CODES. err_code err = Some c"
  by (auto simp: classify_def split: if_splits option.splits)

locale ddb_lease_store =
  fixes st :: "'e DynamoDbLeaseStore" and items :: "'e \<Rightarrow> string \<Rightarrow> ddb_table"
  assumes service: "dynamodb_service (client st) items"

sublocale ddb_lease_store \<subseteq> svc: dynamodb_service "client st" items
  by (rule service)

definition store_rows :: "'e DynamoDbLeaseStore \<Rightarrow> ('e \<Rightarrow> string \<Rightarrow> ddb_table) \<Rightarrow> 'e \<Rightarrow> string \<rightharpoonup> Lease" where
  "store_rows st items e = lease_rows (items e (table st))"

definition store_wf :: "'e DynamoDbLeaseStore \<Rightarrow> ('e \<Rightarrow> string \<Rightarrow> ddb_table) \<Rightarrow> 'e \<Rightarrow> bool" where
  "store_wf st items e = wf_table (items e (table st))"

context ddb_lease_store
begin

abbreviation rows where "rows \<equiv> store_rows st items"
abbreviation wf where "wf \<equiv> store_wf st items"

lemma write_cas:
  assumes "is_write r" "client st e r = (e', res)"
  shows "cas (cond_holds r) (new_item r) (req_key r) (items e (req_table r)) (items e' (req_table r))
    (map_sum classify ok res)"
proof (cases res)
  case (Inr out)
  with svc.write_ok assms show ?thesis by (fastforce simp: cas_def write_effect_def)
next
  case (Inl err)
  with svc.write_cond_failed [OF assms(1)] svc.write_throttled [OF assms(1)] svc.write_failed [OF assms(1)] assms(2)
  show ?thesis
    by (cases "classify err") (fastforce simp: cas_def write_effect_def dest: classify_cases(2,3))+
qed

lemma write_rows:
  assumes imp: "implements r G F" and tbl: "req_table r = table st" and wf: "wf e" and A: "below_max (rows e (req_key r))"
    and s: "client st e r = (e', res)"
  shows "cas G F (req_key r) (rows e) (rows e') (map_sum classify ok res)" and "wf e'"
proof -
  let ?R = "items e (table st)" and ?k = "req_key r"
  have c: "cas (cond_holds r) (new_item r) ?k ?R (items e' (table st)) (map_sum classify ok res)"
    using write_cas [of r e e' res ok] imp s tbl by (simp add: implements_def)
  have old: "pred_option (wf_item ?k) (?R ?k)" "below_max (map_option item_to_lease (?R ?k))"
    using wf A by (auto simp: store_wf_def wf_table_def store_rows_def lease_rows_def pred_option_def)
  show "cas G F ?k (rows e) (rows e') (map_sum classify ok res)"
    unfolding store_rows_def using c by (rule cas_lease_rows) (use imp old in \<open>auto simp: implements_def lease_rows_def\<close>)
  show "wf e'" unfolding store_wf_def
    by (rule cas_wf [OF c]) (use imp old wf in \<open>auto simp: implements_def store_wf_def\<close>)
qed

lemma get_lease_ok: "get_lease st k e = (e', Inr l) \<Longrightarrow> l = rows e k \<and> items e' = items e"
  using svc.get_item [of e "table st" k] svc.read_frame [of "GetItem (table st) k" e]
  by (auto simp: get_lease_def reply_def store_rows_def lease_rows_def split: prod.splits sum.splits)
     (metis map_sum.simps old.sum.exhaust sum.inject(2) sum.distinct(1))+

lemma get_lease_frame: "get_lease st k e = (e', l) \<Longrightarrow> items e' = items e"
  using svc.read_frame [of "GetItem (table st) k" e]
  by (auto simp: get_lease_def reply_def split: prod.splits)

lemma frame_rows: "items e' = items e \<Longrightarrow> rows e' = rows e \<and> wf e' = wf e"
  by (simp add: store_rows_def store_wf_def)

lemma reply_write:
  assumes "implements r G F" "req_table r = table st" "req_key r = k" "wf e" "below_max (rows e k)"
  shows "cas G F k (rows e) (rows (fst (reply classify ok (client st e r))))
           (snd (reply classify ok (client st e r)))"
    and "wf (fst (reply classify ok (client st e r)))"
  using write_rows(1) [OF assms(1,2,4), of "fst (client st e r)" "snd (client st e r)" ok]
    write_rows(2) [OF assms(1,2,4), of "fst (client st e r)" "snd (client st e r)"] assms(3,5)
  by (auto simp: reply_def split: prod.splits)

lemma claim_cas:
  assumes "wf e" "below_max (rows e k)"
  shows "cas (at_counter c) (map_option (\<lambda>l. bump (l\<lparr>lease_owner := Some ow\<rparr>))) k
      (rows e) (rows (fst (claim st k ow c e))) (snd (claim st k ow c e))"
    and "wf (fst (claim st k ow c e))"
  unfolding claim_def using assms
  by - (rule reply_write [OF claim_implements]; simp add: claim_request_def)+

lemma renew_once_cas:
  assumes "wf e" "below_max (rows e k)"
  shows "cas (held_by ow c) (map_option bump) k (rows e) (rows (fst (renew_once st k ow c e)))
      (snd (renew_once st k ow c e))"
    and "wf (fst (renew_once st k ow c e))"
  unfolding renew_once_def using assms
  by - (rule reply_write [OF renew_implements]; simp add: renew_request_def)+

lemma checkpoint_once_cas:
  assumes "wf e" "below_max (rows e k)"
  shows "cas (held_by ow c) (map_option (\<lambda>l. bump (l\<lparr>lease_checkpoint := Some seq\<rparr>))) k
      (rows e) (rows (fst (checkpoint_once st k ow c seq e))) (snd (checkpoint_once st k ow c seq e))"
    and "wf (fst (checkpoint_once st k ow c seq e))"
  unfolding checkpoint_once_def using assms
  by - (rule reply_write [OF checkpoint_implements]; simp add: checkpoint_request_def)+

lemma release_cas:
  assumes "wf e" "below_max (rows e k)"
  shows "cas (held_by ow c) (map_option (\<lambda>l. bump (l\<lparr>lease_owner := None\<rparr>))) k
      (rows e) (rows (fst (release st k ow c e))) (snd (release st k ow c e))"
    and "wf (fst (release st k ow c e))"
  unfolding release_def using assms
  by - (rule reply_write [OF release_implements]; simp add: release_request_def)+

lemma mark_complete_cas:
  assumes "wf e" "below_max (rows e k)"
  shows "cas (held_by ow c) (map_option (\<lambda>l. l\<lparr>lease_completed := True\<rparr>)) k
      (rows e) (rows (fst (mark_complete st k ow c e))) (snd (mark_complete st k ow c e))"
    and "wf (fst (mark_complete st k ow c e))"
  unfolding mark_complete_def using assms
  by - (rule reply_write [OF complete_implements]; simp add: complete_request_def)+

lemma delete_lease_cas:
  assumes "wf e" "below_max (rows e k)"
  shows "cas is_completed (\<lambda>_. None) k (rows e) (rows (fst (delete_lease st k e))) (snd (delete_lease st k e))"
    and "wf (fst (delete_lease st k e))"
  unfolding delete_lease_def using assms
  by - (rule reply_write [OF delete_implements]; simp add: delete_request_def)+

lemma heartbeat_once_cas:
  assumes "wf e" "below_max (rows e (''__hb__:'' @ w))"
  shows "cas (\<lambda>_. True) (\<lambda>l. Some (case l of None \<Rightarrow> fresh_lease (''__hb__:'' @ w) (Some w) 1 None []
                                   | Some l \<Rightarrow> bump (l\<lparr>lease_owner := Some w\<rparr>))) (''__hb__:'' @ w)
      (rows e) (rows (fst (heartbeat_once st w e))) (snd (heartbeat_once st w e))"
    and "wf (fst (heartbeat_once st w e))"
  unfolding heartbeat_once_def using assms
  by - (rule reply_write [OF heartbeat_implements]; simp add: heartbeat_request_def)+

text \<open>
  The creating operations send no throttle outcome of their own: all errors but the failed
  condition are \<open>Aws\<close>.
\<close>

lemma create_owned_cas:
  assumes "wf e" "below_max (rows e k)" "client st e (create_owned_request (table st) k ow) = (e', res)"
  shows "cas (\<lambda>l. l = None) (\<lambda>_. Some (fresh_lease k (Some ow) 1 None [])) k (rows e) (rows e')
      (map_sum classify ok res)" and "wf e'"
  using write_rows(1) [OF create_owned_implements [of "table st" k ow] _ assms(1) _ assms(3), of ok]
    write_rows(2) [OF create_owned_implements [of "table st" k ow] _ assms(1) _ assms(3)] assms(2)
  by (simp_all add: create_owned_request_def put_key_def attr_names)

lemma create_shard_cas:
  assumes "wf e" "below_max (rows e k)" "client st e (create_shard_request (table st) k ps cp) = (e', res)"
  shows "cas (\<lambda>l. l = None) (\<lambda>_. Some (fresh_lease k None 0 cp ps)) k (rows e) (rows e')
      (map_sum classify ok res)" and "wf e'"
proof -
  have "req_key (create_shard_request (table st) k ps cp) = k"
    by (cases cp) (simp_all add: create_shard_request_def put_key_def attr_names Let_def)
  then show "cas (\<lambda>l. l = None) (\<lambda>_. Some (fresh_lease k None 0 cp ps)) k (rows e) (rows e')
      (map_sum classify ok res)" and "wf e'"
    using write_rows(1) [OF create_shard_implements [of "table st" k ps cp] _ assms(1) _ assms(3), of ok]
    write_rows(2) [OF create_shard_implements [of "table st" k ps cp] _ assms(1) _ assms(3)] assms(2)
    by (simp_all add: create_shard_request_def)
qed

lemma create_shard_lease_spec:
  assumes "wf e" "below_max (rows e k)" "create_shard_lease st k ps cp e = (e', res)"
  shows "wf e' \<and>
    (case res of
       Inr _ \<Rightarrow> rows e' = (if rows e k = None then (rows e)(k \<mapsto> fresh_lease k None 0 cp ps) else rows e)
     | Inl _ \<Rightarrow> rows e' = rows e \<or> rows e k = None \<and> rows e' = (rows e)(k \<mapsto> fresh_lease k None 0 cp ps))"
proof -
  obtain e1 r where s: "client st e (create_shard_request (table st) k ps cp) = (e1, r)" by fastforce
  with create_shard_cas(1) [OF assms(1,2) s, of id] create_shard_cas(2) [OF assms(1,2) s] assms(3) show ?thesis
    by (cases r)
       (auto simp: create_shard_lease_def cas_def classify_cases(1) split: if_splits lease_error.splits)
qed

lemma try_acquire_leadership_spec:
  assumes "wf e" "below_max (rows e k)" "try_acquire_leadership st k ow expected e = (e', res)"
  defines "won \<equiv> (case expected of
      None \<Rightarrow> rows e k = None \<and> rows e' = (rows e)(k \<mapsto> fresh_lease k (Some ow) 1 None [])
    | Some c \<Rightarrow> at_counter c (rows e k) \<and>
        rows e' = (rows e)(k := map_option (\<lambda>l. bump (l\<lparr>lease_owner := Some ow\<rparr>)) (rows e k)))"
  shows "wf e' \<and>
    (case res of
       Inr (Some h) \<Rightarrow> won \<and> h = (case expected of None \<Rightarrow> 1 | Some c \<Rightarrow> c + 1)
     | Inr None \<Rightarrow> \<not> (case expected of None \<Rightarrow> rows e k = None | Some c \<Rightarrow> at_counter c (rows e k)) \<and> rows e' = rows e
     | Inl _ \<Rightarrow> rows e' = rows e \<or> won)"
proof (cases expected)
  case None
  obtain e1 r where s: "client st e (create_owned_request (table st) k ow) = (e1, r)" by fastforce
  with create_owned_cas(1) [OF assms(1,2) s, of id] create_owned_cas(2) [OF assms(1,2) s] assms(3) None show ?thesis
    by (cases r)
       (auto simp: try_acquire_leadership_def won_def cas_def classify_cases(1) split: if_splits lease_error.splits)
next
  case (Some c)
  obtain e1 r where s: "client st e (claim_request (table st) k ow c) = (e1, r)" by fastforce
  have "cas (at_counter c) (map_option (\<lambda>l. bump (l\<lparr>lease_owner := Some ow\<rparr>))) k (rows e) (rows e1)
      (map_sum classify id r)" "wf e1"
    using write_rows(1) [OF claim_implements [of "table st" k ow c] _ assms(1) _ s, of id]
    write_rows(2) [OF claim_implements [of "table st" k ow c] _ assms(1) _ s] assms(2)
    by (simp_all add: claim_request_def)
  with s assms(3) Some show ?thesis
    by (cases r)
       (auto simp: try_acquire_leadership_def won_def cas_def classify_cases(1) split: if_splits lease_error.splits)
qed

end

end
