(* ===== verification/Lease_Protocol.thy ===== *)
theory Lease_Protocol
  imports Lease_Store
begin

text \<open>
  What the lease store promises to the workers that share it: the retried operations, the
  acquisition of a lease, and the interleavings of the requests of several workers on one table
  (\<open>exec_all\<close>), where optimistic locking on the lease counter gives fencing and a single
  winner per counter value.
\<close>

section \<open>Retried operations\<close>

lemma is_throttled_iff: "is_throttled r \<longleftrightarrow> (\<exists>m. r = Inl (Throttled m))"
  by (auto simp: is_throttled_def split: sum.splits lease_error.splits)

lemma with_throttle_retry_cas:
  assumes "\<And>e. Q e \<Longrightarrow> cas g f k (R e) (R (fst (op e))) (snd (op e))"
    and "\<And>e. Q e \<Longrightarrow> R (fst (op e)) = R e \<Longrightarrow> Q (fst (op e))"
    and "\<And>e d. Q e \<Longrightarrow> R (sleep e d) = R e \<and> Q (sleep e d)" and "Q e"
  shows "cas g f k (R e) (R (fst (with_throttle_retry sleep op e))) (snd (with_throttle_retry sleep op e))"
proof -
  have "\<exists>e0. (R e0 = R e \<and> Q e0) \<and> retry_from is_throttled sleep op 4 50 e = op e0"
  proof (rule retry_from_inv)
    fix e1 assume e1: "R e1 = R e \<and> Q e1" and "is_throttled (snd (op e1))"
    then show "R (fst (op e1)) = R e \<and> Q (fst (op e1))"
      using assms(1,2) [of e1] by (auto simp: cas_def is_throttled_iff)
  qed (use assms in auto)
  then show ?thesis using assms(1) by (metis with_throttle_retry_def)
qed

lemma claim_result:
  "claim st k ow c e = (e', Inr l) \<Longrightarrow> l = fresh_lease k (Some ow) (c + 1) None []"
  by (cases "client st e (claim_request (table st) k ow c)"; cases "snd (client st e (claim_request (table st) k ow c))")
     (auto simp: claim_def reply_def fresh_lease_def)

context ddb_lease_store
begin

lemma retried_cas:
  assumes "\<And>e. wf e \<Longrightarrow> below_max (rows e k) \<Longrightarrow> cas g f k (rows e) (rows (fst (op e))) (snd (op e))"
    and "\<And>e. wf e \<Longrightarrow> below_max (rows e k) \<Longrightarrow> wf (fst (op e))"
    and "\<And>e d. items (rt_sleep st e d) = items e" and "wf e" and "below_max (rows e k)"
  shows "cas g f k (rows e) (rows (fst (with_throttle_retry (rt_sleep st) op e)))
    (snd (with_throttle_retry (rt_sleep st) op e))"
  by (rule with_throttle_retry_cas [where Q = "\<lambda>e. wf e \<and> below_max (rows e k)"])
     (use assms in \<open>simp_all add: store_rows_def store_wf_def\<close>)

lemma acquire_spec:
  assumes wf: "wf e" and max: "below_max (rows e k)" and a: "acquire st k ow e = (e', Inr l)"
  shows "wf e' \<and> lease_key l = k \<and> lease_owner l = Some ow \<and> lease_checkpoint l = None \<and>
    (case rows e k of
       None \<Rightarrow> rows e' = (rows e)(k \<mapsto> fresh_lease k (Some ow) 1 None []) \<and> lease_counter l = 1
     | Some old \<Rightarrow> rows e' = (rows e)(k \<mapsto> bump (old\<lparr>lease_owner := Some ow\<rparr>)) \<and>
         lease_counter l = lease_counter old + 1)"
proof -
  obtain e1 r where s: "client st e (create_owned_request (table st) k ow) = (e1, r)" by fastforce
  note create = create_owned_cas(1) [OF wf max s, of id] create_owned_cas(2) [OF wf max s]
  show ?thesis
  proof (cases r)
    case (Inr out)
    with create s a show ?thesis by (auto simp: acquire_def cas_def fresh_lease_def)
  next
    case (Inl err)
    have code: "err_code err = Some CONDITIONAL_CHECK_FAILED"
      using a s Inl by (auto simp: acquire_def split: if_splits)
    then have e1: "rows e1 = rows e" "wf e1" using create Inl by (simp_all add: cas_def classify_cases(1))
    from a s Inl code obtain e2 old where get: "get_lease st k e1 = (e2, Inr (Some old))"
      and cl: "claim st k ow (lease_counter old) e2 = (e', Inr l)"
      by (auto simp: acquire_def split: prod.splits sum.splits option.splits)
    from get_lease_ok [OF get] e1 have old: "rows e k = Some old" and e2: "rows e2 = rows e" "wf e2"
      using frame_rows [of e2 e1] by auto
    from claim_cas [OF e2(2), where k = k and ow = ow and c = "lease_counter old"] cl max e2(1)
    have "rows e' = (rows e)(k \<mapsto> bump (old\<lparr>lease_owner := Some ow\<rparr>))" "wf e'"
      by (simp_all add: cas_def old)
    moreover have "l = fresh_lease k (Some ow) (lease_counter old + 1) None []"
      using claim_result [OF cl] .
    ultimately show ?thesis by (simp add: old fresh_lease_def)
  qed
qed

end

section \<open>Interleaved requests\<close>

text \<open>
  One request of some worker. \<open>exec\<close> runs it and says whether the caller was told that
  it took effect; the requests of all workers on the table are one sequence of such steps, in
  the order the service serves them.
\<close>

datatype lease_op =
    Claim string string u64
  | Renew string string u64
  | Checkpoint string string u64 string
  | Heartbeat string
  | Complete string string u64
  | Release string string u64
  | Delete string
  | CreateShard string "string list" "string option"
  | Lead string string "u64 option"

definition won :: "'x + 'r \<Rightarrow> bool" where
  "won r = (case r of Inr _ \<Rightarrow> True | Inl _ \<Rightarrow> False)"

fun exec :: "'e DynamoDbLeaseStore \<Rightarrow> lease_op \<Rightarrow> 'e \<Rightarrow> 'e \<times> bool" where
  "exec st (Claim k ow c) e = map_prod id won (claim st k ow c e)"
| "exec st (Renew k ow c) e = map_prod id won (renew_once st k ow c e)"
| "exec st (Checkpoint k ow c seq) e = map_prod id won (checkpoint_once st k ow c seq e)"
| "exec st (Heartbeat w) e = map_prod id won (heartbeat_once st w e)"
| "exec st (Complete k ow c) e = map_prod id won (mark_complete st k ow c e)"
| "exec st (Release k ow c) e = map_prod id won (release st k ow c e)"
| "exec st (Delete k) e = map_prod id won (delete_lease st k e)"
| "exec st (CreateShard k ps cp) e = map_prod id won (create_shard_lease st k ps cp e)"
| "exec st (Lead k ow x) e =
     map_prod id (\<lambda>r. case r of Inr (Some _) \<Rightarrow> True | _ \<Rightarrow> False) (try_acquire_leadership st k ow x e)"

fun exec_all :: "'e DynamoDbLeaseStore \<Rightarrow> lease_op list \<Rightarrow> 'e \<Rightarrow> 'e \<times> bool list" where
  "exec_all st [] e = (e, [])"
| "exec_all st (op # ops) e =
     (let (e1, b) = exec st op e; (e2, bs) = exec_all st ops e1 in (e2, b # bs))"

text \<open>The row an operation works on, and the counter value its success consumes.\<close>

fun op_key :: "lease_op \<Rightarrow> string" where
  "op_key (Claim k ow c) = k" | "op_key (Renew k ow c) = k" | "op_key (Checkpoint k ow c s) = k"
| "op_key (Heartbeat w) = ''__hb__:'' @ w" | "op_key (Complete k ow c) = k" | "op_key (Release k ow c) = k"
| "op_key (Delete k) = k" | "op_key (CreateShard k ps cp) = k" | "op_key (Lead k ow x) = k"

fun consumes :: "lease_op \<Rightarrow> u64 option" where
  "consumes (Claim k ow c) = Some c"
| "consumes (Renew k ow c) = Some c"
| "consumes (Checkpoint k ow c s) = Some c"
| "consumes (Release k ow c) = Some c"
| "consumes (Lead k ow x) = x"
| "consumes _ = None"

fun is_delete :: "lease_op \<Rightarrow> bool" where
  "is_delete (Delete k) = True"
| "is_delete _ = False"

fun owner_of_op :: "lease_op \<Rightarrow> string option" where
  "owner_of_op (Claim k ow c) = Some ow"
| "owner_of_op (Lead k ow x) = Some ow"
| "owner_of_op (Heartbeat w) = Some w"
| "owner_of_op _ = None"

text \<open>How a row may change in one step.\<close>

definition row_step :: "lease_op \<Rightarrow> Lease option \<Rightarrow> Lease option \<Rightarrow> bool" where
  "row_step op l l' \<longleftrightarrow>
     (case l of
        None \<Rightarrow> (case l' of None \<Rightarrow> True | Some x \<Rightarrow> lease_counter x = 0 \<or> lease_counter x = 1)
      | Some x \<Rightarrow>
          (case l' of
             None \<Rightarrow> is_delete op \<and> lease_completed x
           | Some y \<Rightarrow> lease_key y = lease_key x \<and> lease_parents y = lease_parents x \<and>
               (lease_completed x \<longrightarrow> lease_completed y) \<and>
               (lease_counter y = lease_counter x \<and> lease_owner y = lease_owner x \<and>
                  lease_checkpoint y = lease_checkpoint x \<or>
                lease_counter y = lease_counter x + 1)))"

definition consumed :: "lease_op \<Rightarrow> Lease option \<Rightarrow> Lease option \<Rightarrow> bool" where
  "consumed op l l' \<longleftrightarrow>
     (case consumes op of None \<Rightarrow> True | Some c \<Rightarrow> at_counter c l \<and> at_counter (c + 1) l')"

lemma row_step_refl [simp]: "row_step op l l"
  by (auto simp: row_step_def split: option.splits)

lemma cas_row_step:
  assumes "cas g f k R R' res"
    and "g (R k) \<Longrightarrow> row_step op (R k) (f (R k))" and "g (R k) \<Longrightarrow> consumed op (R k) (f (R k))"
  shows "(\<forall>j. j \<noteq> k \<longrightarrow> R' j = R j) \<and> row_step op (R k) (R' k) \<and> (won res \<longrightarrow> consumed op (R k) (R' k))"
  using assms by (auto simp: cas_def won_def split: sum.splits lease_error.splits)

lemmas step_defs = row_step_def consumed_def row_defs

text \<open>
  A table has room for \<open>n\<close> more steps when no counter comes within \<open>n\<close> of the
  largest \<open>u64\<close>.
\<close>

definition room :: "nat \<Rightarrow> (string \<rightharpoonup> Lease) \<Rightarrow> bool" where
  "room n R = (n + 1 < 2 ^ 64 \<and> (\<forall>k l. R k = Some l \<longrightarrow> unat (lease_counter l) + n < 2 ^ 64 - 1))"

lemma room_below_max:
  assumes "room n R"
  shows "below_max (R k)"
proof (cases "R k")
  case (Some l)
  with assms have "unat (lease_counter l) < 2 ^ 64 - 1" by (fastforce simp: room_def)
  then have "lease_counter l \<noteq> - 1" by (auto simp: unsigned_minus_1_eq_mask mask_eq_exp_minus_1)
  with Some show ?thesis by (simp add: below_max_def at_counter_def)
qed (simp add: below_max_def at_counter_def)

lemma unat_plus_one: "unat (c :: u64) < 2 ^ 64 - 1 \<Longrightarrow> unat (c + 1) = unat c + 1"
  by (simp add: unat_word_ariths)

lemma row_step_counter:
  assumes "row_step op (Some x) (Some y)" "unat (lease_counter x) < 2 ^ 64 - 1"
  shows "unat (lease_counter y) = unat (lease_counter x) \<or> unat (lease_counter y) = unat (lease_counter x) + 1"
  using assms by (auto simp: row_step_def unat_plus_one)

context ddb_lease_store
begin

lemma cas_exec_step:
  assumes c: "cas g f k (rows e) (rows (fst p)) (snd p)" and "wf (fst p)" and [simp]: "op_key op = k"
    and "exec st op e = map_prod id won p" and "exec st op e = (e', b)"
    and "\<And>l. g l \<Longrightarrow> row_step op l (f l) \<and> consumed op l (f l)"
  shows "wf e' \<and> (\<forall>j. j \<noteq> op_key op \<longrightarrow> rows e' j = rows e j) \<and>
    row_step op (rows e (op_key op)) (rows e' (op_key op)) \<and>
    (b \<longrightarrow> consumed op (rows e (op_key op)) (rows e' (op_key op)))"
proof -
  from assms(4,5) have "e' = fst p" "b = won (snd p)" by (cases p; simp)+
  with cas_row_step [OF c, where op = op] assms(2,6) show ?thesis by simp
qed

lemma exec_wf_step:
  assumes wf: "wf e" and max: "below_max (rows e (op_key op))" and x: "exec st op e = (e', b)"
  shows "wf e' \<and> (\<forall>j. j \<noteq> op_key op \<longrightarrow> rows e' j = rows e j) \<and>
    row_step op (rows e (op_key op)) (rows e' (op_key op)) \<and>
    (b \<longrightarrow> consumed op (rows e (op_key op)) (rows e' (op_key op)))"
proof (cases op)
  case (Claim k ow c)
  with max show ?thesis
    by (intro cas_exec_step [OF claim_cas(1) [OF wf, where k = k and ow = ow and c = c] claim_cas(2) [OF wf] _ _ x]) (auto simp: step_defs split: option.splits)
next
  case (Renew k ow c)
  with max show ?thesis
    by (intro cas_exec_step [OF renew_once_cas(1) [OF wf, where k = k and ow = ow and c = c] renew_once_cas(2) [OF wf] _ _ x]) (auto simp: step_defs split: option.splits)
next
  case (Checkpoint k ow c s)
  with max show ?thesis
    by (intro cas_exec_step [OF checkpoint_once_cas(1) [OF wf, where k = k and ow = ow and c = c and seq = s] checkpoint_once_cas(2) [OF wf] _ _ x]) (auto simp: step_defs split: option.splits)
next
  case (Heartbeat w)
  with max show ?thesis
    by (intro cas_exec_step [OF heartbeat_once_cas(1) [OF wf] heartbeat_once_cas(2) [OF wf] _ _ x]) (auto simp: step_defs split: option.splits)
next
  case (Complete k ow c)
  with max show ?thesis
    by (intro cas_exec_step [OF mark_complete_cas(1) [OF wf, where k = k and ow = ow and c = c] mark_complete_cas(2) [OF wf] _ _ x]) (auto simp: step_defs split: option.splits)
next
  case (Release k ow c)
  with max show ?thesis
    by (intro cas_exec_step [OF release_cas(1) [OF wf, where k = k and ow = ow and c = c] release_cas(2) [OF wf] _ _ x]) (auto simp: step_defs split: option.splits)
next
  case (Delete k)
  with max show ?thesis
    by (intro cas_exec_step [OF delete_lease_cas(1) [OF wf, where k = k] delete_lease_cas(2) [OF wf] _ _ x]) (auto simp: step_defs split: option.splits)
next
  case (CreateShard k ps cp)
  then obtain r where r: "create_shard_lease st k ps cp e = (e', r)"
    using x by (cases "create_shard_lease st k ps cp e") simp
  from create_shard_lease_spec [OF wf _ this] max CreateShard show ?thesis
    by (cases r) (auto simp: step_defs split: if_splits option.splits)
next
  case (Lead k ow y)
  then obtain r where r: "try_acquire_leadership st k ow y e = (e', r)" "b = (case r of Inr (Some _) \<Rightarrow> True | _ \<Rightarrow> False)"
    using x by (cases "try_acquire_leadership st k ow y e") simp
  from try_acquire_leadership_spec [OF wf _ r(1)] max Lead r(2) show ?thesis
    by (cases r; cases y) (auto simp: step_defs split: option.splits)
qed

lemma exec_room:
  assumes wf: "wf e" and r: "room (Suc n) (rows e)" and x: "exec st op e = (e', b)"
  shows "room n (rows e')"
proof -
  let ?k = "op_key op"
  note st = exec_wf_step [OF wf room_below_max [OF r] x]
  have "unat (lease_counter l) + n < 2 ^ 64 - 1" if l: "rows e' k = Some l" for k l
  proof (cases "k = ?k")
    case False
    with st r l show ?thesis by (fastforce simp: room_def)
  next
    case True
    show ?thesis
    proof (cases "rows e ?k")
      case None
      with st l True have "lease_counter l = 0 \<or> lease_counter l = 1" by (simp add: row_step_def)
      with r show ?thesis by (auto simp: room_def)
    next
      case (Some x)
      with r have "unat (lease_counter x) + Suc n < 2 ^ 64 - 1" by (fastforce simp: room_def)
      with row_step_counter [of op x l] st l True Some show ?thesis by auto
    qed
  qed
  with r show ?thesis by (simp add: room_def)
qed

lemma exec_row_mono:
  assumes wf: "wf e" and r: "room (Suc n) (rows e)" and x: "exec st op e = (e', b)"
    and l: "rows e k = Some l" and nd: "\<not> (is_delete op \<and> op_key op = k)"
  shows "\<exists>l'. rows e' k = Some l' \<and> unat (lease_counter l) \<le> unat (lease_counter l')"
proof (cases "op_key op = k")
  case True
  note st = exec_wf_step [OF wf room_below_max [OF r] x]
  from st True l nd obtain l' where l': "rows e' k = Some l'" "row_step op (Some l) (Some l')"
    by (cases "rows e' k") (auto simp: row_step_def)
  from r l have "unat (lease_counter l) < 2 ^ 64 - 1" by (fastforce simp: room_def)
  with row_step_counter [OF l'(2)] l' show ?thesis by auto
qed (use exec_wf_step [OF wf room_below_max [OF r] x] l in auto)

lemma exec_all_mono:
  assumes "wf e" "room (length ops) (rows e)" "exec_all st ops e = (e', bs)"
    and "rows e k = Some l" and "\<forall>op \<in> set ops. \<not> (is_delete op \<and> op_key op = k)"
  shows "\<exists>l'. rows e' k = Some l' \<and> unat (lease_counter l) \<le> unat (lease_counter l')"
  using assms
proof (induction ops arbitrary: e l bs)
  case (Cons op ops)
  obtain e1 b where x: "exec st op e = (e1, b)" by fastforce
  from Cons.prems(3) x obtain bs' where xs: "exec_all st ops e1 = (e', bs')"
    by (auto simp: Let_def split: prod.splits)
  have r: "room (Suc (length ops)) (rows e)" using Cons.prems(2) by simp
  from exec_row_mono [OF Cons.prems(1) r x Cons.prems(4)] Cons.prems(5) obtain l1
    where l1: "rows e1 k = Some l1" "unat (lease_counter l) \<le> unat (lease_counter l1)" by auto
  have "wf e1" using exec_wf_step [OF Cons.prems(1) room_below_max [OF r] x] by simp
  from Cons.IH [OF this exec_room [OF Cons.prems(1) r x] xs l1(1)] Cons.prems(5) l1(2)
  show ?case by (auto intro: order_trans)
qed auto

lemma exec_all_inv:
  assumes "wf e" "room (length ops + n) (rows e)" "exec_all st ops e = (e', bs)"
  shows "wf e' \<and> room n (rows e') \<and> length bs = length ops"
  using assms
proof (induction ops arbitrary: e bs)
  case (Cons op ops)
  obtain e1 b where x: "exec st op e = (e1, b)" by fastforce
  from Cons.prems(3) x obtain bs' where xs: "exec_all st ops e1 = (e', bs')" "bs = b # bs'"
    by (auto simp: Let_def split: prod.splits)
  have r: "room (Suc (length ops + n)) (rows e)" using Cons.prems(2) by simp
  have "wf e1" using exec_wf_step [OF Cons.prems(1) room_below_max [OF r] x] by simp
  from Cons.IH [OF this exec_room [OF Cons.prems(1) r x] xs(1)] xs(2) show ?case by simp
qed simp

text \<open>A successful consumer of counter \<open>c\<close> leaves the row above \<open>c\<close>.\<close>

lemma exec_consumes:
  assumes "wf e" "room (Suc n) (rows e)" "exec st op e = (e', True)" "consumes op = Some c"
  shows "\<exists>l. rows e (op_key op) = Some l \<and> lease_counter l = c"
    and "\<exists>l. rows e' (op_key op) = Some l \<and> unat (lease_counter l) = unat c + 1"
proof -
  have con: "consumed op (rows e (op_key op)) (rows e' (op_key op))"
    using exec_wf_step [OF assms(1) room_below_max [OF assms(2)] assms(3)] by simp
  with assms(4) show l: "\<exists>l. rows e (op_key op) = Some l \<and> lease_counter l = c"
    by (auto simp: consumed_def at_counter_def split: option.splits)
  with assms(2) have "unat c < 2 ^ 64 - 1" by (fastforce simp: room_def)
  with con assms(4) show "\<exists>l. rows e' (op_key op) = Some l \<and> unat (lease_counter l) = unat c + 1"
    by (auto simp: consumed_def at_counter_def unat_plus_one split: option.splits)
qed

lemma consumers_increase:
  assumes "wf e" "room (length ops + 2) (rows e)"
    and "exec st op1 e = (e1, True)" "exec_all st ops e1 = (e2, bs)" "exec st op2 e2 = (e3, True)"
    and "consumes op1 = Some c1" "consumes op2 = Some c2" "op_key op1 = k" "op_key op2 = k"
    and "\<forall>op \<in> set ops. \<not> (is_delete op \<and> op_key op = k)"
  shows "c1 < c2"
proof -
  have r: "room (Suc (length ops + 1)) (rows e)" using assms(2) by simp
  have wf1: "wf e1" using exec_wf_step [OF assms(1) room_below_max [OF r] assms(3)] by simp
  have r1: "room (length ops + 1) (rows e1)" using exec_room [OF assms(1) r assms(3)] .
  then have r1': "room (length ops) (rows e1)" by (fastforce simp: room_def)
  from exec_all_inv [OF wf1 r1 assms(4)] have e2: "wf e2" "room (Suc 0) (rows e2)" by auto
  from exec_consumes(2) [OF assms(1) r assms(3,6)] assms(8) obtain l1
    where l1: "rows e1 k = Some l1" "unat (lease_counter l1) = unat c1 + 1" by auto
  from exec_all_mono [OF wf1 r1' assms(4) l1(1) assms(10)] obtain l2
    where l2: "rows e2 k = Some l2" "unat c1 < unat (lease_counter l2)" using l1(2) by auto
  from exec_consumes(1) [OF e2 assms(5,7)] assms(9) l2 show ?thesis by (simp add: word_less_nat_alt)
qed

end

section \<open>The store over the executable service\<close>

definition sim_store :: "sim DynamoDbLeaseStore" where
  "sim_store = lease_store_new sim_send (\<lambda>e d. e) ''leases''"

definition sim_init :: "fault list \<Rightarrow> sim" where
  "sim_init fs = \<lparr>sim_keys = [], sim_db = (\<lambda>_ _. None), sim_faults = fs\<rparr>"

interpretation sim_leases: ddb_lease_store sim_store sim_db
  by (rule ddb_lease_store.intro) (simp add: sim_store_def lease_store_new_def sim.dynamodb_service_axioms)

lemma sim_init_wf [simp]: "store_wf sim_store sim_db (sim_init fs)"
  by (simp add: store_wf_def wf_table_def sim_init_def)

lemma sim_init_rows [simp]: "store_rows sim_store sim_db (sim_init fs) = Map.empty"
  by (simp add: store_rows_def lease_rows_def sim_init_def fun_eq_iff)

lemma sim_sleep [simp]: "rt_sleep sim_store e d = e"
  by (simp add: sim_store_def lease_store_new_def)

text \<open>A table with one published shard lease.\<close>

definition sim_one :: "fault list \<Rightarrow> sim" where
  "sim_one fs = fst (create_shard_lease sim_store ''shard-1'' [''shard-0''] (Some ''LATEST'') (sim_init (Served # fs)))"

lemma sim_one_state:
  "store_wf sim_store sim_db (sim_one fs) \<and>
   store_rows sim_store sim_db (sim_one fs) = [''shard-1'' \<mapsto> fresh_lease ''shard-1'' None 0 (Some ''LATEST'') [''shard-0'']]"
proof -
  obtain e' res where c: "create_shard_lease sim_store ''shard-1'' [''shard-0''] (Some ''LATEST'') (sim_init (Served # fs)) = (e', res)"
    by fastforce
  have "res = Inr ()"
    using c by (simp add: create_shard_lease_def sim_store_def lease_store_new_def sim_init_def sim_send_def sim_serve_def
        create_shard_request_def Let_def attr_names put_key_def)
  with sim_leases.create_shard_lease_spec [OF sim_init_wf _ c] c show ?thesis
    by (simp add: sim_one_def below_max_def at_counter_def)
qed

lemmas sim_one_wf [simp] = sim_one_state [THEN conjunct1]
lemmas sim_one_rows [simp] = sim_one_state [THEN conjunct2]

section \<open>Properties\<close>

text \<open>
  C3. Refinement: over any service with the documented behaviour, and on a table in the store's
  format, claiming, completing, releasing and deleting a lease are atomic compare-and-set
  operations on the abstract table of leases: claim is guarded by the counter, complete and
  release by counter and owner, delete by the completed flag; each changes its own row only, as
  stated, reports \<open>Lost\<close> exactly where the guard failed without effect, and keeps the
  format of the table.
\<close>

theorem lease_mutations_refine_cas:
  assumes "ddb_lease_store st items" and "store_wf st items e" and "below_max (store_rows st items e k)"
  shows
    "cas (at_counter c) (map_option (\<lambda>l. bump (l\<lparr>lease_owner := Some ow\<rparr>))) k (store_rows st items e)
       (store_rows st items (fst (claim st k ow c e))) (snd (claim st k ow c e)) \<and>
     cas (held_by ow c) (map_option (\<lambda>l. l\<lparr>lease_completed := True\<rparr>)) k (store_rows st items e)
       (store_rows st items (fst (mark_complete st k ow c e))) (snd (mark_complete st k ow c e)) \<and>
     cas (held_by ow c) (map_option (\<lambda>l. bump (l\<lparr>lease_owner := None\<rparr>))) k (store_rows st items e)
       (store_rows st items (fst (release st k ow c e))) (snd (release st k ow c e)) \<and>
     cas is_completed (\<lambda>_. None) k (store_rows st items e)
       (store_rows st items (fst (delete_lease st k e))) (snd (delete_lease st k e)) \<and>
     store_wf st items (fst (claim st k ow c e)) \<and> store_wf st items (fst (mark_complete st k ow c e)) \<and>
     store_wf st items (fst (release st k ow c e)) \<and> store_wf st items (fst (delete_lease st k e))"
  using ddb_lease_store.claim_cas [OF assms] ddb_lease_store.mark_complete_cas [OF assms]
    ddb_lease_store.release_cas [OF assms] ddb_lease_store.delete_lease_cas [OF assms]
  by (intro conjI)

theorem lease_mutations_refine_cas_witness:
  "cas (at_counter 0) (map_option (\<lambda>l. bump (l\<lparr>lease_owner := Some ''w1''\<rparr>))) ''shard-1''
     [''shard-1'' \<mapsto> fresh_lease ''shard-1'' None 0 (Some ''LATEST'') [''shard-0'']]
     (store_rows sim_store sim_db (fst (claim sim_store ''shard-1'' ''w1'' 0 (sim_one []))))
     (snd (claim sim_store ''shard-1'' ''w1'' 0 (sim_one [])))"
  using lease_mutations_refine_cas [OF sim_leases.ddb_lease_store_axioms, of "sim_one []" "''shard-1''" 0 "''w1''"]
  by (simp add: below_max_def at_counter_def fresh_lease_def)


definition throttle :: fault where
  "throttle = Refused ''ThrottlingException''"


text \<open>
  C2. One winner per counter value, under every interleaving of the workers' requests: when two
  claims, renewals, checkpoints, releases or leadership bids on one row succeed, with any other
  requests served in between but no deletion of that row, the second one used a strictly larger
  counter. In particular two workers that observed the same counter cannot both take the lease,
  and the token of a worker whose lease was taken is dead. Counters are assumed to be far enough
  from the largest \<open>u64\<close>.
\<close>

theorem one_winner_per_counter:
  assumes "ddb_lease_store st items" and "store_wf st items e" and "room (length ops + 2) (store_rows st items e)"
    and "exec st op1 e = (e1, True)" and "exec_all st ops e1 = (e2, bs)" and "exec st op2 e2 = (e3, True)"
    and "consumes op1 = Some c1" and "consumes op2 = Some c2" and "op_key op1 = k" and "op_key op2 = k"
    and "\<forall>op \<in> set ops. \<not> (is_delete op \<and> op_key op = k)"
  shows "c1 < c2"
  using ddb_lease_store.consumers_increase [OF assms] .

theorem one_winner_per_counter_witness:
  "snd (exec_all sim_store [Claim ''s'' ''w1'' 0, Claim ''s'' ''w2'' 0, Renew ''s'' ''w1'' 1]
      (fst (exec sim_store (CreateShard ''s'' [] None) (sim_init [])))) = [True, False, True] \<and> (0 :: u64) < 1"
proof -
  let ?e = "fst (exec sim_store (CreateShard ''s'' [] None) (sim_init []))"
  let ?e1 = "fst (exec sim_store (Claim ''s'' ''w1'' 0) ?e)"
  let ?e2 = "fst (exec_all sim_store [Claim ''s'' ''w2'' 0] ?e1)"
  let ?e3 = "fst (exec sim_store (Renew ''s'' ''w1'' 1) ?e2)"
  have e: "exec_all sim_store [CreateShard ''s'' [] None] (sim_init []) = (?e, [True])"
    by (rule prod_eqI) (simp only: exec_all.simps Let_def case_prod_beta fst_conv, code_simp)
  have r0: "room (length [CreateShard ''s'' [] None] + (length [Claim ''s'' ''w2'' 0] + 2)) (store_rows sim_store sim_db (sim_init []))"
    by (simp add: room_def)
  note inv = sim_leases.exec_all_inv [OF sim_init_wf r0 e]
  have 1: "exec sim_store (Claim ''s'' ''w1'' 0) ?e = (?e1, True)" by (rule prod_eqI) (simp only: fst_conv, code_simp)
  have 2: "exec_all sim_store [Claim ''s'' ''w2'' 0] ?e1 = (?e2, [False])" by (rule prod_eqI) (simp only: fst_conv, code_simp)
  have 3: "exec sim_store (Renew ''s'' ''w1'' 1) ?e2 = (?e3, True)" by (rule prod_eqI) (simp only: fst_conv, code_simp)
  have "(0 :: u64) < 1"
    by (rule one_winner_per_counter [OF sim_leases.ddb_lease_store_axioms inv [THEN conjunct1]
          inv [THEN conjunct2, THEN conjunct1] 1 2 3]) simp_all
  moreover have "snd (exec_all sim_store [Claim ''s'' ''w1'' 0, Claim ''s'' ''w2'' 0, Renew ''s'' ''w1'' 1] ?e) = [True, False, True]"
    by code_simp
  ultimately show ?thesis by simp
qed

end
