(* ===== verification/Worker_Traits.thy ===== *)
theory Worker_Traits
  imports Coordinator Positions "HOL-Library.AList"
begin

text \<open>
  The interfaces the worker crate is written against (\<open>worker/src/lib.rs\<close>,
  \<open>core/src/metrics.rs\<close>). A trait is a record of operations on an environment \<open>'e\<close>:
  every operation takes the environment and returns the next one with its result, so the stream,
  the lease table, the customer's code, the metrics and the clock are all parameters. An
  operation that may not return (\<open>list\<close> pages through the table) has an option type.

  \<open>traced\<close> versions of the records log every call and its result next to the environment;
  the theorems about the order of calls are stated on these logs, for arbitrary operations.
  The fake source and lease store of the tests are executable instances.
\<close>

section \<open>Handles and traits\<close>

type_synonym WorkerError = string

record LeaseHandle =
  lh_owner :: string
  lh_counter :: u64
  lh_checkpoint :: "string option"

record LeaseView =
  lv_completed :: bool

record 'e AsyncStreamSource =
  s_describe_shards :: "'e \<Rightarrow> 'e \<times> (WorkerError + ShardMeta list)"
  s_get_records :: "'e \<Rightarrow> string \<Rightarrow> string option \<Rightarrow> 'e \<times> (WorkerError + RecordBatch)"
  s_describe_child_shards :: "'e \<Rightarrow> string \<Rightarrow> 'e \<times> (WorkerError + ShardMeta list)"

text \<open>The default method of the trait, for sources that do not override it.\<close>

definition default_describe_child_shards ::
  "('e \<Rightarrow> 'e \<times> (WorkerError + ShardMeta list)) \<Rightarrow> 'e \<Rightarrow> string \<Rightarrow> 'e \<times> (WorkerError + ShardMeta list)" where
  "default_describe_child_shards describe e parent =
     (case describe e of
        (e', Inl err) \<Rightarrow> (e', Inl err)
      | (e', Inr ms) \<Rightarrow> (e', Inr (filter (\<lambda>m. parent \<in> set (meta_parents m)) ms)))"

record 'e AsyncLeaseStore =
  l_get :: "'e \<Rightarrow> string \<Rightarrow> 'e \<times> (WorkerError + LeaseView option)"
  l_list :: "'e \<Rightarrow> ('e \<times> (WorkerError + RawLease list)) option"
  l_acquire :: "'e \<Rightarrow> string \<Rightarrow> string \<Rightarrow> 'e \<times> (WorkerError + LeaseHandle)"
  l_renew :: "'e \<Rightarrow> string \<Rightarrow> string \<Rightarrow> u64 \<Rightarrow> 'e \<times> (WorkerError + u64)"
  l_heartbeat :: "'e \<Rightarrow> string \<Rightarrow> 'e \<times> (WorkerError + u64)"
  l_checkpoint :: "'e \<Rightarrow> string \<Rightarrow> string \<Rightarrow> u64 \<Rightarrow> string \<Rightarrow> 'e \<times> (WorkerError + u64)"
  l_mark_complete :: "'e \<Rightarrow> string \<Rightarrow> string \<Rightarrow> u64 \<Rightarrow> 'e \<times> (WorkerError + unit)"
  l_release :: "'e \<Rightarrow> string \<Rightarrow> string \<Rightarrow> u64 \<Rightarrow> 'e \<times> (WorkerError + unit)"
  l_delete_lease :: "'e \<Rightarrow> string \<Rightarrow> 'e \<times> (WorkerError + unit)"
  l_create_shard_lease :: "'e \<Rightarrow> string \<Rightarrow> ShardId list \<Rightarrow> string option \<Rightarrow> 'e \<times> (WorkerError + unit)"
  l_try_acquire_leadership :: "'e \<Rightarrow> string \<Rightarrow> string \<Rightarrow> u64 option \<Rightarrow> 'e \<times> (WorkerError + u64 option)"

definition default_heartbeat :: "'e \<Rightarrow> string \<Rightarrow> 'e \<times> (WorkerError + u64)" where
  "default_heartbeat e worker = (e, Inr 0)"

text \<open>
  A consumer is named by its shard: a worker has at most one per shard at a time.
\<close>

record 'e ShardConsumerFactory =
  c_create :: "'e \<Rightarrow> ShardId \<Rightarrow> 'e"
  c_deliver :: "'e \<Rightarrow> ShardId \<Rightarrow> Record list \<Rightarrow> 'e \<times> (WorkerError + string option)"
  c_shard_ended :: "'e \<Rightarrow> ShardId \<Rightarrow> 'e \<times> (WorkerError + unit)"
  c_lease_lost :: "'e \<Rightarrow> ShardId \<Rightarrow> 'e \<times> (WorkerError + unit)"

record 'e RecordProcessor =
  p_initialize :: "'e \<Rightarrow> ShardId \<Rightarrow> 'e"
  p_process_records :: "'e \<Rightarrow> Record list \<Rightarrow> 'e"
  p_shard_ended :: "'e \<Rightarrow> ShardId \<Rightarrow> 'e"
  p_lease_lost :: "'e \<Rightarrow> ShardId \<Rightarrow> 'e"

text \<open>\<open>pf_processor e shard\<close> is the processor the factory made for \<open>shard\<close>.\<close>

record 'e RecordProcessorFactory =
  pf_create :: "'e \<Rightarrow> ShardId \<Rightarrow> 'e"
  pf_processor :: "ShardId \<Rightarrow> 'e RecordProcessor"

section \<open>The synchronous adapter\<close>

definition sync_deliver :: "'e RecordProcessorFactory \<Rightarrow> 'e \<Rightarrow> ShardId \<Rightarrow> Record list \<Rightarrow> 'e \<times> (WorkerError + string option)" where
  "sync_deliver pf e shard records =
     (p_process_records (pf_processor pf shard) e records,
      Inr (if records = [] then None else Some (rec_seq (last records))))"

definition sync_consumer_factory :: "'e RecordProcessorFactory \<Rightarrow> 'e ShardConsumerFactory" where
  "sync_consumer_factory pf =
     \<lparr>c_create = (\<lambda>e shard. p_initialize (pf_processor pf shard) (pf_create pf e shard) shard),
      c_deliver = sync_deliver pf,
      c_shard_ended = (\<lambda>e shard. (p_shard_ended (pf_processor pf shard) e shard, Inr ())),
      c_lease_lost = (\<lambda>e shard. (p_lease_lost (pf_processor pf shard) e shard, Inr ()))\<rparr>"

section \<open>Metrics and the runtime\<close>

record ShardMetrics =
  sm_shard_id :: string
  sm_records :: u64
  sm_bytes :: u64
  sm_millis_behind_latest :: "int option"

record 'e MetricsSink =
  on_batch :: "'e \<Rightarrow> ShardMetrics \<Rightarrow> 'e"
  on_shard_end :: "'e \<Rightarrow> string \<Rightarrow> 'e"
  on_describe_stream :: "'e \<Rightarrow> 'e"
  on_lease_acquired :: "'e \<Rightarrow> string \<Rightarrow> 'e"
  on_lease_lost :: "'e \<Rightarrow> string \<Rightarrow> 'e"
  on_leases_held :: "'e \<Rightarrow> u64 \<Rightarrow> 'e"
  on_processing_slot_wait :: "'e \<Rightarrow> string \<Rightarrow> u64 \<Rightarrow> 'e"
  on_max_processing_concurrency :: "'e \<Rightarrow> u64 \<Rightarrow> 'e"
  on_processing_queue_depth :: "'e \<Rightarrow> u64 \<Rightarrow> 'e"

definition noop_sink :: "'e MetricsSink" where
  "noop_sink =
     \<lparr>on_batch = (\<lambda>e _. e), on_shard_end = (\<lambda>e _. e), on_describe_stream = (\<lambda>e. e),
      on_lease_acquired = (\<lambda>e _. e), on_lease_lost = (\<lambda>e _. e), on_leases_held = (\<lambda>e _. e),
      on_processing_slot_wait = (\<lambda>e _ _. e), on_max_processing_concurrency = (\<lambda>e _. e),
      on_processing_queue_depth = (\<lambda>e _. e)\<rparr>"

text \<open>\<open>Instant\<close> and \<open>Duration\<close> are numbers of nanoseconds; their differences saturate at zero.\<close>

type_synonym Instant = nat

definition from_millis :: "u64 \<Rightarrow> nat" where
  "from_millis ms = unat ms * 1000000"

definition as_millis :: "nat \<Rightarrow> u64" where
  "as_millis d = of_nat (d div 1000000)"

lemma as_millis_code [code]: "as_millis d = (if d = 0 then 0 else of_nat (d div 1000000))"
  by (simp add: as_millis_def)

record 'e Runtime =
  rt_now :: "'e \<Rightarrow> 'e \<times> Instant"
  rt_wait :: "'e \<Rightarrow> nat \<Rightarrow> 'e"

section \<open>The fakes of the tests\<close>

text \<open>
  The rows are an association list: its order is the iteration order of the hash map, which the
  tests do not rely on. Unwrapping \<open>.ok_or("no lease")\<close> is the error branch.
\<close>

record FakeLeaseState =
  fl_owner :: "string option"
  fl_counter :: u64
  fl_checkpoint :: "string option"
  fl_completed :: bool
  fl_parents :: "string list"

definition fake_lease_default :: FakeLeaseState where
  "fake_lease_default = \<lparr>fl_owner = None, fl_counter = 0, fl_checkpoint = None, fl_completed = False, fl_parents = []\<rparr>"

record FakeEnv =
  fk_metas :: "ShardMeta list"
  fk_data :: "ShardId \<rightharpoonup> Record list"
  fk_rows :: "(string \<times> FakeLeaseState) list"
  fk_events :: "string list"

fun position_after :: "string \<Rightarrow> Record list \<Rightarrow> Record list option" where
  "position_after tok [] = None"
| "position_after tok (r # rs) = (if rec_seq r = tok then Some rs else position_after tok rs)"

definition fake_get_records :: "FakeEnv \<Rightarrow> string \<Rightarrow> string option \<Rightarrow> FakeEnv \<times> (WorkerError + RecordBatch)" where
  "fake_get_records e shard after =
     (let all = (case fk_data e shard of None \<Rightarrow> [] | Some rs \<Rightarrow> rs);
          records =
            (case after of
               None \<Rightarrow> all
             | Some tok \<Rightarrow> (case position_after tok all of Some rs \<Rightarrow> rs | None \<Rightarrow> all))
      in (e, Inr \<lparr>batch_records = records, batch_shard_end = True, batch_millis_behind_latest = None\<rparr>))"

definition fake_source :: "FakeEnv AsyncStreamSource" where
  "fake_source =
     \<lparr>s_describe_shards = (\<lambda>e. (e, Inr (fk_metas e))),
      s_get_records = fake_get_records,
      s_describe_child_shards = default_describe_child_shards (\<lambda>e. (e, Inr (fk_metas e)))\<rparr>"

definition put_row :: "FakeEnv \<Rightarrow> string \<Rightarrow> FakeLeaseState \<Rightarrow> FakeEnv" where
  "put_row e k r = e\<lparr>fk_rows := AList.update k r (fk_rows e)\<rparr>"

definition with_row ::
  "FakeEnv \<Rightarrow> string \<Rightarrow> (FakeLeaseState \<Rightarrow> FakeLeaseState \<times> 'a) \<Rightarrow> FakeEnv \<times> (WorkerError + 'a)" where
  "with_row e k f =
     (case map_of (fk_rows e) k of
        None \<Rightarrow> (e, Inl ''no lease'')
      | Some r \<Rightarrow> (let (r', a) = f r in (put_row e k r', Inr a)))"

definition fake_raw :: "string \<times> FakeLeaseState \<Rightarrow> RawLease" where
  "fake_raw = (\<lambda>(k, r).
     \<lparr>rl_key = k, rl_owner = fl_owner r, rl_counter = fl_counter r, rl_completed = fl_completed r,
      rl_checkpoint = fl_checkpoint r, rl_parents = fl_parents r\<rparr>)"

definition fake_acquire :: "FakeEnv \<Rightarrow> string \<Rightarrow> string \<Rightarrow> FakeEnv \<times> (WorkerError + LeaseHandle)" where
  "fake_acquire e key owner =
     (let r = (case map_of (fk_rows e) key of None \<Rightarrow> fake_lease_default | Some r \<Rightarrow> r);
          r' = r\<lparr>fl_owner := Some owner, fl_counter := fl_counter r + 1\<rparr>
      in (put_row e key r', Inr \<lparr>lh_owner = owner, lh_counter = fl_counter r', lh_checkpoint = fl_checkpoint r'\<rparr>))"

definition fake_delete :: "FakeEnv \<Rightarrow> string \<Rightarrow> FakeEnv \<times> (WorkerError + unit)" where
  "fake_delete e key =
     (if (case map_of (fk_rows e) key of None \<Rightarrow> False | Some r \<Rightarrow> fl_completed r)
      then (e\<lparr>fk_rows := AList.delete key (fk_rows e)\<rparr>, Inr ()) else (e, Inr ()))"

definition fake_create :: "FakeEnv \<Rightarrow> string \<Rightarrow> ShardId list \<Rightarrow> string option \<Rightarrow> FakeEnv \<times> (WorkerError + unit)" where
  "fake_create e key parents cp =
     (case map_of (fk_rows e) key of
        Some _ \<Rightarrow> (e, Inr ())
      | None \<Rightarrow> (put_row e key (fake_lease_default\<lparr>fl_checkpoint := cp, fl_parents := parents\<rparr>), Inr ()))"

definition fake_leadership :: "FakeEnv \<Rightarrow> string \<Rightarrow> string \<Rightarrow> u64 option \<Rightarrow> FakeEnv \<times> (WorkerError + u64 option)" where
  "fake_leadership e key owner expected =
     (case expected of
        None \<Rightarrow>
          (case map_of (fk_rows e) key of
             Some _ \<Rightarrow> (e, Inr None)
           | None \<Rightarrow> (put_row e key (fake_lease_default\<lparr>fl_owner := Some owner, fl_counter := 1\<rparr>), Inr (Some 1)))
      | Some c \<Rightarrow>
          (case map_of (fk_rows e) key of
             Some r \<Rightarrow>
               if fl_counter r = c
               then (put_row e key (r\<lparr>fl_owner := Some owner, fl_counter := c + 1\<rparr>), Inr (Some (c + 1)))
               else (e, Inr None)
           | None \<Rightarrow> (e, Inr None)))"

definition fake_leases :: "FakeEnv AsyncLeaseStore" where
  "fake_leases =
     \<lparr>l_get = (\<lambda>e key. (e, Inr (map_option (\<lambda>r. \<lparr>lv_completed = fl_completed r\<rparr>) (map_of (fk_rows e) key)))),
      l_list = (\<lambda>e. Some (e, Inr (map fake_raw (fk_rows e)))),
      l_acquire = fake_acquire,
      l_renew = (\<lambda>e key owner c. with_row e key (\<lambda>r. (r\<lparr>fl_counter := c + 1\<rparr>, c + 1))),
      l_heartbeat = default_heartbeat,
      l_checkpoint = (\<lambda>e key owner c q.
        with_row e key (\<lambda>r. (r\<lparr>fl_checkpoint := Some q, fl_counter := c + 1\<rparr>, c + 1))),
      l_mark_complete = (\<lambda>e key owner c. with_row e key (\<lambda>r. (r\<lparr>fl_completed := True\<rparr>, ()))),
      l_release = (\<lambda>e key owner c. with_row e key (\<lambda>r. (r\<lparr>fl_owner := None, fl_counter := c + 1\<rparr>, ()))),
      l_delete_lease = fake_delete,
      l_create_shard_lease = fake_create,
      l_try_acquire_leadership = fake_leadership\<rparr>"

definition push_event :: "string \<Rightarrow> FakeEnv \<Rightarrow> FakeEnv" where
  "push_event ev e = e\<lparr>fk_events := fk_events e @ [ev]\<rparr>"

definition recording_processor :: "FakeEnv RecordProcessor" where
  "recording_processor =
     \<lparr>p_initialize = (\<lambda>e s. push_event (''init:'' @ s) e),
      p_process_records = (\<lambda>e rs. fold (\<lambda>r. push_event (''rec:'' @ rec_shard_id r @ '':'' @ rec_seq r)) rs e),
      p_shard_ended = (\<lambda>e s. push_event (''end:'' @ s) e),
      p_lease_lost = (\<lambda>e s. e)\<rparr>"

section \<open>Traced operations\<close>

datatype event =
    EvDescribe "WorkerError + ShardMeta list"
  | EvGetRecords string "string option" "WorkerError + RecordBatch"
  | EvDescribeChildren string "WorkerError + ShardMeta list"
  | EvLeaseGet string "WorkerError + LeaseView option"
  | EvList "WorkerError + RawLease list"
  | EvAcquire string string "WorkerError + LeaseHandle"
  | EvRenew string string u64 "WorkerError + u64"
  | EvHeartbeat string "WorkerError + u64"
  | EvCheckpoint string string u64 string "WorkerError + u64"
  | EvMarkComplete string string u64 "WorkerError + unit"
  | EvRelease string string u64 "WorkerError + unit"
  | EvDelete string "WorkerError + unit"
  | EvCreate string "ShardId list" "string option" "WorkerError + unit"
  | EvLead string string "u64 option" "WorkerError + u64 option"
  | EvConsumer ShardId
  | EvDeliver ShardId "Record list" "WorkerError + string option"
  | EvShardEnded ShardId
  | EvLeaseLost ShardId

type_synonym 'e traced = "'e \<times> event list"

definition traced :: "('r \<Rightarrow> event) \<Rightarrow> ('e \<Rightarrow> 'e \<times> 'r) \<Rightarrow> 'e traced \<Rightarrow> 'e traced \<times> 'r" where
  "traced ev f E = (let (e', r) = f (fst E) in ((e', snd E @ [ev r]), r))"

definition untraced :: "('e \<Rightarrow> 'e) \<Rightarrow> 'e traced \<Rightarrow> 'e traced" where
  "untraced f E = (f (fst E), snd E)"

lemma traced_log [simp]: "snd (fst (traced ev f E)) = snd E @ [ev (snd (traced ev f E))]"
  by (simp add: traced_def split: prod.splits)

lemma traced_result: "traced ev f E = (E', r) \<Longrightarrow> snd E' = snd E @ [ev r]"
  by (auto simp: traced_def split: prod.splits)

lemma untraced_log [simp]: "snd (untraced f E) = snd E"
  by (simp add: untraced_def)

definition traced_source :: "'e AsyncStreamSource \<Rightarrow> 'e traced AsyncStreamSource" where
  "traced_source S =
     \<lparr>s_describe_shards = traced EvDescribe (s_describe_shards S),
      s_get_records = (\<lambda>E sh a. traced (EvGetRecords sh a) (\<lambda>e. s_get_records S e sh a) E),
      s_describe_child_shards = (\<lambda>E p. traced (EvDescribeChildren p) (\<lambda>e. s_describe_child_shards S e p) E)\<rparr>"

definition traced_leases :: "'e AsyncLeaseStore \<Rightarrow> 'e traced AsyncLeaseStore" where
  "traced_leases L =
     \<lparr>l_get = (\<lambda>E k. traced (EvLeaseGet k) (\<lambda>e. l_get L e k) E),
      l_list = (\<lambda>E. case l_list L (fst E) of None \<Rightarrow> None | Some (e', r) \<Rightarrow> Some ((e', snd E @ [EvList r]), r)),
      l_acquire = (\<lambda>E k ow. traced (EvAcquire k ow) (\<lambda>e. l_acquire L e k ow) E),
      l_renew = (\<lambda>E k ow c. traced (EvRenew k ow c) (\<lambda>e. l_renew L e k ow c) E),
      l_heartbeat = (\<lambda>E w. traced (EvHeartbeat w) (\<lambda>e. l_heartbeat L e w) E),
      l_checkpoint = (\<lambda>E k ow c q. traced (EvCheckpoint k ow c q) (\<lambda>e. l_checkpoint L e k ow c q) E),
      l_mark_complete = (\<lambda>E k ow c. traced (EvMarkComplete k ow c) (\<lambda>e. l_mark_complete L e k ow c) E),
      l_release = (\<lambda>E k ow c. traced (EvRelease k ow c) (\<lambda>e. l_release L e k ow c) E),
      l_delete_lease = (\<lambda>E k. traced (EvDelete k) (\<lambda>e. l_delete_lease L e k) E),
      l_create_shard_lease = (\<lambda>E k ps cp. traced (EvCreate k ps cp) (\<lambda>e. l_create_shard_lease L e k ps cp) E),
      l_try_acquire_leadership = (\<lambda>E k ow x. traced (EvLead k ow x) (\<lambda>e. l_try_acquire_leadership L e k ow x) E)\<rparr>"

definition traced_consumers :: "'e ShardConsumerFactory \<Rightarrow> 'e traced ShardConsumerFactory" where
  "traced_consumers F =
     \<lparr>c_create = (\<lambda>E sh. (c_create F (fst E) sh, snd E @ [EvConsumer sh])),
      c_deliver = (\<lambda>E sh rs. traced (EvDeliver sh rs) (\<lambda>e. c_deliver F e sh rs) E),
      c_shard_ended = (\<lambda>E sh. traced (\<lambda>_. EvShardEnded sh) (\<lambda>e. c_shard_ended F e sh) E),
      c_lease_lost = (\<lambda>E sh. traced (\<lambda>_. EvLeaseLost sh) (\<lambda>e. c_lease_lost F e sh) E)\<rparr>"

text \<open>Metrics and clock are carried along without a trace.\<close>

definition carried_metrics :: "'e MetricsSink \<Rightarrow> 'e traced MetricsSink" where
  "carried_metrics M =
     \<lparr>on_batch = (\<lambda>E m. untraced (\<lambda>e. on_batch M e m) E),
      on_shard_end = (\<lambda>E s. untraced (\<lambda>e. on_shard_end M e s) E),
      on_describe_stream = untraced (on_describe_stream M),
      on_lease_acquired = (\<lambda>E s. untraced (\<lambda>e. on_lease_acquired M e s) E),
      on_lease_lost = (\<lambda>E s. untraced (\<lambda>e. on_lease_lost M e s) E),
      on_leases_held = (\<lambda>E n. untraced (\<lambda>e. on_leases_held M e n) E),
      on_processing_slot_wait = (\<lambda>E s n. untraced (\<lambda>e. on_processing_slot_wait M e s n) E),
      on_max_processing_concurrency = (\<lambda>E n. untraced (\<lambda>e. on_max_processing_concurrency M e n) E),
      on_processing_queue_depth = (\<lambda>E n. untraced (\<lambda>e. on_processing_queue_depth M e n) E)\<rparr>"

definition carried_runtime :: "'e Runtime \<Rightarrow> 'e traced Runtime" where
  "carried_runtime R =
     \<lparr>rt_now = (\<lambda>E. let (e', n) = rt_now R (fst E) in ((e', snd E), n)),
      rt_wait = (\<lambda>E n. untraced (\<lambda>e. rt_wait R e n) E)\<rparr>"

lemmas traced_defs = traced_source_def traced_leases_def traced_consumers_def carried_metrics_def carried_runtime_def

end
