(* ===== verification/Worker.thy ===== *)
theory Worker
  imports Worker_Traits
begin

text \<open>
  The single worker (\<open>worker/src/lib.rs\<close>): eligibility, the processing of one shard, one
  pass and the drain loop. The loops are \<open>partial_function\<close>s into option; an error of any
  call ends the run with that error.
\<close>

section \<open>The worker\<close>

definition eligible :: "ShardMeta \<Rightarrow> ShardId set \<Rightarrow> ShardId set \<Rightarrow> bool" where
  "eligible meta completed existing \<longleftrightarrow>
     meta_id meta \<notin> completed \<and> (\<forall>p \<in> set (meta_parents meta). p \<in> completed \<or> p \<notin> existing)"

record 'e Worker =
  w_source :: "'e AsyncStreamSource"
  w_leases :: "'e AsyncLeaseStore"
  w_owner :: string

definition worker_new :: "'e AsyncStreamSource \<Rightarrow> 'e AsyncLeaseStore \<Rightarrow> string \<Rightarrow> 'e Worker" where
  "worker_new s l ow = \<lparr>w_source = s, w_leases = l, w_owner = ow\<rparr>"

text \<open>
  One turn of the loop of \<open>process_shard\<close>: \<open>Inl\<close> is the result it returns with,
  \<open>Inr\<close> the values of \<open>after\<close> and \<open>counter\<close> for the next turn.
\<close>

definition worker_turn ::
  "'e Worker \<Rightarrow> 'e RecordProcessor \<Rightarrow> ShardId \<Rightarrow> string option \<Rightarrow> u64 \<Rightarrow> 'e \<Rightarrow>
   'e \<times> ((WorkerError + unit) + string option \<times> u64)" where
  "worker_turn w proc shard after counter e =
     (case s_get_records (w_source w) e shard after of
        (e1, Inl err) \<Rightarrow> (e1, Inl (Inl err))
      | (e1, Inr batch) \<Rightarrow>
          let recs = batch_records batch;
              (e2, ckpt) =
                (if recs \<noteq> []
                 then let e2 = p_process_records proc e1 recs; q = rec_seq (last recs)
                      in (case l_checkpoint (w_leases w) e2 shard (w_owner w) counter q of
                            (e3, Inl err) \<Rightarrow> (e3, Inl err)
                          | (e3, Inr c) \<Rightarrow> (e3, Inr (Some q, c)))
                 else (e1, Inr (after, counter)))
          in (case ckpt of
                Inl err \<Rightarrow> (e2, Inl (Inl err))
              | Inr (after', counter') \<Rightarrow>
                  if batch_shard_end batch
                  then let e3 = p_shard_ended proc e2 shard
                       in (case l_mark_complete (w_leases w) e3 shard (w_owner w) counter' of
                             (e4, Inl err) \<Rightarrow> (e4, Inl (Inl err))
                           | (e4, Inr _) \<Rightarrow> (e4, Inl (Inr ())))
                  else if recs = [] then (e2, Inl (Inr ()))
                  else (e2, Inr (after', counter'))))"

partial_function (option) worker_loop ::
  "'e Worker \<Rightarrow> 'e RecordProcessor \<Rightarrow> ShardId \<Rightarrow> string option \<Rightarrow> u64 \<Rightarrow> 'e \<Rightarrow> ('e \<times> (WorkerError + unit)) option" where
  "worker_loop w proc shard after counter e =
     (case worker_turn w proc shard after counter e of
        (e', Inl res) \<Rightarrow> Some (e', res)
      | (e', Inr ac) \<Rightarrow> worker_loop w proc shard (fst ac) (snd ac) e')"

definition worker_process_shard ::
  "'e Worker \<Rightarrow> 'e RecordProcessor \<Rightarrow> ShardMeta \<Rightarrow> 'e \<Rightarrow> ('e \<times> (WorkerError + unit)) option" where
  "worker_process_shard w proc meta e =
     (case l_acquire (w_leases w) e (meta_id meta) (w_owner w) of
        (e1, Inl err) \<Rightarrow> Some (e1, Inl err)
      | (e1, Inr handle) \<Rightarrow>
          worker_loop w proc (meta_id meta) (lh_checkpoint handle) (lh_counter handle)
            (p_initialize proc e1 (meta_id meta)))"

text \<open>The completion snapshot of \<open>run_once\<close>.\<close>

fun completed_snapshot ::
  "'e Worker \<Rightarrow> ShardMeta list \<Rightarrow> ShardId set \<Rightarrow> 'e \<Rightarrow> 'e \<times> (WorkerError + ShardId set)" where
  "completed_snapshot w [] acc e = (e, Inr acc)"
| "completed_snapshot w (m # ms) acc e =
     (case l_get (w_leases w) e (meta_id m) of
        (e', Inl err) \<Rightarrow> (e', Inl err)
      | (e', Inr v) \<Rightarrow>
          completed_snapshot w ms
            (case v of None \<Rightarrow> acc | Some lv \<Rightarrow> if lv_completed lv then insert (meta_id m) acc else acc) e')"

fun worker_pass ::
  "'e Worker \<Rightarrow> 'e RecordProcessor \<Rightarrow> ShardId set \<Rightarrow> ShardId set \<Rightarrow> ShardMeta list \<Rightarrow> bool \<Rightarrow> 'e \<Rightarrow>
   ('e \<times> (WorkerError + bool)) option" where
  "worker_pass w proc completed existing [] progressed e = Some (e, Inr progressed)"
| "worker_pass w proc completed existing (m # ms) progressed e =
     (if \<not> eligible m completed existing then worker_pass w proc completed existing ms progressed e
      else
        case worker_process_shard w proc m e of
          None \<Rightarrow> None
        | Some (e', Inl err) \<Rightarrow> Some (e', Inl err)
        | Some (e', Inr _) \<Rightarrow> worker_pass w proc completed existing ms True e')"

definition run_once :: "'e Worker \<Rightarrow> 'e RecordProcessor \<Rightarrow> 'e \<Rightarrow> ('e \<times> (WorkerError + bool \<times> bool)) option" where
  "run_once w proc e =
     (case s_describe_shards (w_source w) e of
        (e1, Inl err) \<Rightarrow> Some (e1, Inl err)
      | (e1, Inr shards) \<Rightarrow>
          (case completed_snapshot w shards {} e1 of
             (e2, Inl err) \<Rightarrow> Some (e2, Inl err)
           | (e2, Inr completed) \<Rightarrow>
               if shards \<noteq> [] \<and> (\<forall>m \<in> set shards. meta_id m \<in> completed) then Some (e2, Inr (True, False))
               else
                 (case worker_pass w proc completed (meta_id ` set shards) shards False e2 of
                    None \<Rightarrow> None
                  | Some (e3, Inl err) \<Rightarrow> Some (e3, Inl err)
                  | Some (e3, Inr progressed) \<Rightarrow> Some (e3, Inr (False, progressed)))))"

partial_function (option) worker_run ::
  "'e Worker \<Rightarrow> 'e RecordProcessor \<Rightarrow> 'e \<Rightarrow> ('e \<times> (WorkerError + unit)) option" where
  "worker_run w proc e =
     (case run_once w proc e of
        None \<Rightarrow> None
      | Some (e', Inl err) \<Rightarrow> Some (e', Inl err)
      | Some (e', Inr cp) \<Rightarrow> if fst cp \<or> \<not> snd cp then Some (e', Inr ()) else worker_run w proc e')"

end
