(* ===== verification/Shard_Task.thy ===== *)
theory Shard_Task
  imports Worker
begin

text \<open>
  The per-shard task of the fleet (\<open>worker/src/fleet.rs\<close>): the deferred-checkpoint policy
  \<open>CkptDefer\<close> and \<open>process_shard\<close>. The policy's map sits behind a mutex in the
  sources; here it is a value passed in and out. One turn of the loop is \<open>task_turn\<close>;
  \<open>process_shard\<close> repeats it until it returns, \<open>None\<close> where it never does.

  Shown on the traces of calls, for arbitrary sources, stores and consumers: the chain of fetches,
  what is checkpointed and when, the fencing chain of counters, what happens after a lost lease,
  and that the task returns on a closing shard.
\<close>

section \<open>Deferred checkpoints\<close>

record PendingCkpt =
  pend_ack :: "string option"
  last_persist :: Instant

record CkptDefer =
  defer_interval :: nat
  defer_state :: "ShardId \<rightharpoonup> PendingCkpt"

definition record_ack :: "CkptDefer \<Rightarrow> string \<Rightarrow> string \<Rightarrow> Instant \<Rightarrow> CkptDefer \<times> string option" where
  "record_ack d shard ack now =
     (let en = (case defer_state d shard of None \<Rightarrow> \<lparr>pend_ack = None, last_persist = now\<rparr> | Some en \<Rightarrow> en);
          en' = en\<lparr>pend_ack := Some ack\<rparr>
      in (d\<lparr>defer_state := (defer_state d)(shard \<mapsto> en')\<rparr>,
          if now - last_persist en' \<ge> defer_interval d then pend_ack en' else None))"

definition persisted :: "CkptDefer \<Rightarrow> string \<Rightarrow> Instant \<Rightarrow> CkptDefer" where
  "persisted d shard now =
     (case defer_state d shard of
        None \<Rightarrow> d
      | Some en \<Rightarrow> d\<lparr>defer_state := (defer_state d)(shard \<mapsto> en\<lparr>pend_ack := None, last_persist := now\<rparr>)\<rparr>)"

definition take_pending :: "CkptDefer \<Rightarrow> string \<Rightarrow> CkptDefer \<times> string option" where
  "take_pending d shard =
     (case defer_state d shard of
        None \<Rightarrow> (d, None)
      | Some en \<Rightarrow> (d\<lparr>defer_state := (defer_state d)(shard \<mapsto> en\<lparr>pend_ack := None\<rparr>)\<rparr>, pend_ack en))"

definition resume_from :: "CkptDefer \<Rightarrow> string \<Rightarrow> string option" where
  "resume_from d shard = Option.bind (defer_state d shard) pend_ack"

definition forget :: "CkptDefer \<Rightarrow> string \<Rightarrow> CkptDefer" where
  "forget d shard = d\<lparr>defer_state := (defer_state d)(shard := None)\<rparr>"

section \<open>The task\<close>

datatype PassOutcome = Active | Idle | Ended | Stopped

record 'e fleet_ops =
  f_source :: "'e AsyncStreamSource"
  f_leases :: "'e AsyncLeaseStore"
  f_factory :: "'e ShardConsumerFactory"
  f_metrics :: "'e MetricsSink"
  f_runtime :: "'e Runtime"

record ShardTask =
  t_owner :: string
  t_shard :: ShardId
  t_counter :: u64
  t_checkpoint :: "string option"
  t_poll_interval_ms :: u64

text \<open>The exit taken when a checkpoint is refused: the lease is lost.\<close>

definition lease_lost_exit :: "'e fleet_ops \<Rightarrow> ShardId \<Rightarrow> 'e \<Rightarrow> 'e" where
  "lease_lost_exit ops shard e =
     fst (c_lease_lost (f_factory ops) (on_lease_lost (f_metrics ops) e shard) shard)"

text \<open>The consumer acknowledged \<open>ack\<close>: \<open>Inr\<close> the counter held afterwards, \<open>Inl\<close> the exit.\<close>

definition handle_ack ::
  "'e fleet_ops \<Rightarrow> ShardTask \<Rightarrow> u64 \<Rightarrow> string \<Rightarrow> CkptDefer option \<Rightarrow> 'e \<Rightarrow> 'e \<times> CkptDefer option \<times> (PassOutcome + u64)" where
  "handle_ack ops task counter ack defer e =
     (case defer of
        None \<Rightarrow>
          (case l_checkpoint (f_leases ops) e (t_shard task) (t_owner task) counter ack of
             (e1, Inr c) \<Rightarrow> (e1, None, Inr c)
           | (e1, Inl _) \<Rightarrow> (lease_lost_exit ops (t_shard task) e1, None, Inl Stopped))
      | Some d \<Rightarrow>
          (let (e1, now) = rt_now (f_runtime ops) e; (d1, due) = record_ack d (t_shard task) ack now in
           case due of
             None \<Rightarrow> (e1, Some d1, Inr counter)
           | Some q \<Rightarrow>
               (case l_checkpoint (f_leases ops) e1 (t_shard task) (t_owner task) counter q of
                  (e2, Inr c) \<Rightarrow> (e2, Some (persisted d1 (t_shard task) now), Inr c)
                | (e2, Inl _) \<Rightarrow>
                    (lease_lost_exit ops (t_shard task) e2, Some (forget d1 (t_shard task)), Inl Stopped))))"

definition deliver_batch ::
  "'e fleet_ops \<Rightarrow> ShardTask \<Rightarrow> u64 \<Rightarrow> RecordBatch \<Rightarrow> CkptDefer option \<Rightarrow> 'e \<Rightarrow> 'e \<times> CkptDefer option \<times> (PassOutcome + u64)" where
  "deliver_batch ops task counter batch defer e =
     (case c_deliver (f_factory ops) e (t_shard task) (batch_records batch) of
        (e1, Inl _) \<Rightarrow> (e1, map_option (\<lambda>d. forget d (t_shard task)) defer, Inl Stopped)
      | (e1, Inr ack) \<Rightarrow>
          (let (e2, defer2, r) =
             (case ack of None \<Rightarrow> (e1, defer, Inr counter) | Some a \<Rightarrow> handle_ack ops task counter a defer e1)
           in case r of
                Inl out \<Rightarrow> (e2, defer2, Inl out)
              | Inr c \<Rightarrow>
                  (on_batch (f_metrics ops) e2
                     \<lparr>sm_shard_id = t_shard task, sm_records = of_nat (length (batch_records batch)),
                      sm_bytes = of_nat (sum_list (map (length \<circ> rec_data) (batch_records batch))),
                      sm_millis_behind_latest = batch_millis_behind_latest batch\<rparr>,
                   defer2, Inr c)))"

definition finish_shard ::
  "'e fleet_ops \<Rightarrow> ShardTask \<Rightarrow> u64 \<Rightarrow> CkptDefer option \<Rightarrow> 'e \<Rightarrow> 'e \<times> CkptDefer option \<times> PassOutcome" where
  "finish_shard ops task counter defer e =
     (let shard = t_shard task;
          (e1, defer1, flushed) =
            (case defer of
               None \<Rightarrow> (e, None, Inr counter)
             | Some d \<Rightarrow>
                 (case take_pending d shard of
                    (d1, None) \<Rightarrow> (e, Some (forget d1 shard), Inr counter)
                  | (d1, Some pending) \<Rightarrow>
                      (case l_checkpoint (f_leases ops) e shard (t_owner task) counter pending of
                         (e1, Inr c) \<Rightarrow> (e1, Some (forget d1 shard), Inr c)
                       | (e1, Inl err) \<Rightarrow> (lease_lost_exit ops shard e1, Some (forget d1 shard), Inl err))))
      in case flushed of
           Inl _ \<Rightarrow> (e1, defer1, Stopped)
         | Inr c \<Rightarrow>
             let e2 = fst (c_shard_ended (f_factory ops) e1 shard);
                 e3 = fst (l_mark_complete (f_leases ops) e2 shard (t_owner task) c)
             in (on_shard_end (f_metrics ops) e3 shard, defer1, Ended))"

text \<open>
  One turn: \<open>Inl\<close> is what the task returns, \<open>Inr\<close> the loop variables
  \<open>after\<close>, \<open>counter\<close> and \<open>delivered_any\<close> for the next turn.
\<close>

type_synonym loop_vars = "string option \<times> u64 \<times> bool"

definition task_turn ::
  "'e fleet_ops \<Rightarrow> ShardTask \<Rightarrow> loop_vars \<Rightarrow> CkptDefer option \<Rightarrow> 'e \<Rightarrow>
   'e \<times> CkptDefer option \<times> ((WorkerError + PassOutcome) + loop_vars)" where
  "task_turn ops task vars defer e =
     (case vars of (after, counter, delivered_any) \<Rightarrow>
        (case s_get_records (f_source ops) e (t_shard task) after of
           (e1, Inl err) \<Rightarrow> (e1, defer, Inl (Inl err))
         | (e1, Inr batch) \<Rightarrow>
             let recs = batch_records batch;
                 (e2, defer2, r) =
                   (if recs \<noteq> [] then deliver_batch ops task counter batch defer e1 else (e1, defer, Inr counter))
             in (case r of
                   Inl out \<Rightarrow> (e2, defer2, Inl (Inr out))
                 | Inr counter2 \<Rightarrow>
                     if batch_shard_end batch
                     then (case finish_shard ops task counter2 defer2 e2 of (e3, defer3, out) \<Rightarrow> (e3, defer3, Inl (Inr out)))
                     else if recs = [] then (e2, defer2, Inl (Inr (if delivered_any then Active else Idle)))
                     else (e2, defer2, Inr (Some (rec_seq (last recs)), counter2, True)))))"

partial_function (option) task_loop ::
  "'e fleet_ops \<Rightarrow> ShardTask \<Rightarrow> loop_vars \<Rightarrow> CkptDefer option \<Rightarrow> 'e \<Rightarrow>
   ('e \<times> CkptDefer option \<times> (WorkerError + PassOutcome)) option" where
  "task_loop ops task vars defer e =
     (case task_turn ops task vars defer e of
        (e', defer', Inl res) \<Rightarrow> Some (e', defer', res)
      | (e', defer', Inr vars') \<Rightarrow> task_loop ops task vars' defer' e')"

definition task_start :: "ShardTask \<Rightarrow> CkptDefer option \<Rightarrow> loop_vars" where
  "task_start task defer =
     (case Option.bind defer (\<lambda>d. resume_from d (t_shard task)) of
        None \<Rightarrow> t_checkpoint task | Some q \<Rightarrow> Some q, t_counter task, False)"

definition process_shard ::
  "'e fleet_ops \<Rightarrow> ShardTask \<Rightarrow> CkptDefer option \<Rightarrow> 'e \<Rightarrow>
   ('e \<times> CkptDefer option \<times> (WorkerError + PassOutcome)) option" where
  "process_shard ops task defer e = task_loop ops task (task_start task defer) defer e"

section \<open>The protocol of a task, as a state machine over its calls\<close>

datatype task_phase = Start | HaveBatch | Handled | LeaseGone | Closing | Over

text \<open>
  \<open>sp_after\<close> is the position of the next fetch, \<open>sp_counter\<close> the lease counter held,
  \<open>sp_pending\<close> the newest acknowledgement that is not yet durable, \<open>sp_batch\<close> the batch
  in hand; \<open>sp_eager\<close> says that acknowledgements are persisted before the next fetch.
\<close>

record task_spec =
  sp_phase :: task_phase
  sp_after :: "string option"
  sp_counter :: u64
  sp_pending :: "string option"
  sp_batch :: "RecordBatch option"
  sp_eager :: bool

definition batch_done :: "task_spec \<Rightarrow> bool" where
  "batch_done s \<longleftrightarrow>
     (case sp_batch s of
        None \<Rightarrow> False
      | Some b \<Rightarrow> sp_phase s = Handled \<or> sp_phase s = HaveBatch \<and> batch_records b = [])"

definition at_shard_end :: "task_spec \<Rightarrow> bool" where
  "at_shard_end s \<longleftrightarrow> batch_done s \<and> batch_shard_end (the (sp_batch s))"

definition may_fetch :: "task_spec \<Rightarrow> bool" where
  "may_fetch s \<longleftrightarrow>
     (sp_phase s = Start \<or>
      sp_phase s = Handled \<and> batch_done s \<and> \<not> batch_shard_end (the (sp_batch s))) \<and>
     (sp_eager s \<longrightarrow> sp_pending s = None)"

fun spec_step :: "ShardId \<Rightarrow> string \<Rightarrow> task_spec \<Rightarrow> event \<Rightarrow> task_spec option" where
  "spec_step sh ow s (EvGetRecords k a r) =
     (if k = sh \<and> a = sp_after s \<and> may_fetch s
      then Some (case r of
             Inl _ \<Rightarrow> s\<lparr>sp_phase := Over\<rparr>
           | Inr b \<Rightarrow> s\<lparr>sp_phase := HaveBatch, sp_batch := Some b,
               sp_after := (if batch_records b = [] then a else Some (rec_seq (last (batch_records b))))\<rparr>)
      else None)"
| "spec_step sh ow s (EvDeliver k rs r) =
     (if k = sh \<and> sp_phase s = HaveBatch \<and> rs \<noteq> [] \<and> map_option batch_records (sp_batch s) = Some rs
      then Some (case r of
             Inl _ \<Rightarrow> s\<lparr>sp_phase := Over\<rparr>
           | Inr None \<Rightarrow> s\<lparr>sp_phase := Handled\<rparr>
           | Inr (Some q) \<Rightarrow> s\<lparr>sp_phase := Handled, sp_pending := Some q\<rparr>)
      else None)"
| "spec_step sh ow s (EvCheckpoint k w c q r) =
     (if k = sh \<and> w = ow \<and> c = sp_counter s \<and> sp_pending s = Some q \<and> (sp_phase s = Handled \<or> at_shard_end s)
      then Some (case r of
             Inl _ \<Rightarrow> s\<lparr>sp_phase := LeaseGone\<rparr>
           | Inr c' \<Rightarrow> s\<lparr>sp_counter := c', sp_pending := None\<rparr>)
      else None)"
| "spec_step sh ow s (EvLeaseLost k) =
     (if k = sh \<and> sp_phase s = LeaseGone then Some (s\<lparr>sp_phase := Over\<rparr>) else None)"
| "spec_step sh ow s (EvShardEnded k) =
     (if k = sh \<and> at_shard_end s \<and> sp_pending s = None then Some (s\<lparr>sp_phase := Closing\<rparr>) else None)"
| "spec_step sh ow s (EvMarkComplete k w c r) =
     (if k = sh \<and> w = ow \<and> c = sp_counter s \<and> sp_phase s = Closing then Some (s\<lparr>sp_phase := Over\<rparr>) else None)"
| "spec_step sh ow s _ = None"

fun spec_run :: "ShardId \<Rightarrow> string \<Rightarrow> task_spec \<Rightarrow> event list \<Rightarrow> task_spec option" where
  "spec_run sh ow s [] = Some s"
| "spec_run sh ow s (ev # evs) =
     (case spec_step sh ow s ev of None \<Rightarrow> None | Some s' \<Rightarrow> spec_run sh ow s' evs)"

lemma spec_run_append:
  "spec_run sh ow s (xs @ ys) = Option.bind (spec_run sh ow s xs) (\<lambda>s'. spec_run sh ow s' ys)"
  by (induction xs arbitrary: s) (auto split: option.splits)

definition traced_ops :: "'e fleet_ops \<Rightarrow> 'e traced fleet_ops" where
  "traced_ops ops =
     \<lparr>f_source = traced_source (f_source ops), f_leases = traced_leases (f_leases ops),
      f_factory = traced_consumers (f_factory ops), f_metrics = carried_metrics (f_metrics ops),
      f_runtime = carried_runtime (f_runtime ops)\<rparr>"

definition pending_of :: "CkptDefer option \<Rightarrow> ShardId \<Rightarrow> string option" where
  "pending_of defer shard = Option.bind defer (\<lambda>d. resume_from d shard)"

definition spec_start :: "ShardTask \<Rightarrow> CkptDefer option \<Rightarrow> task_spec" where
  "spec_start task defer =
     \<lparr>sp_phase = Start, sp_after = fst (task_start task defer), sp_counter = t_counter task,
      sp_pending = pending_of defer (t_shard task), sp_batch = None, sp_eager = (defer = None)\<rparr>"

text \<open>What the task's result says about where the protocol stopped.\<close>

definition spec_final :: "WorkerError + PassOutcome \<Rightarrow> task_spec \<Rightarrow> bool" where
  "spec_final res s \<longleftrightarrow>
     (case res of
        Inl _ \<Rightarrow> sp_phase s = Over
      | Inr Ended \<Rightarrow> sp_phase s = Over \<and> sp_pending s = None
      | Inr Stopped \<Rightarrow> sp_phase s = Over
      | Inr _ \<Rightarrow> batch_done s \<and> map_option batch_records (sp_batch s) = Some [])"

subsection \<open>The deferred-checkpoint policy\<close>

lemma pending_simps [simp]:
  "pending_of None sh = None"
  "pending_of (Some (fst (record_ack d sh a now))) sh = Some a"
  "pending_of (Some (persisted d sh now)) sh = None"
  "pending_of (Some (forget d sh)) sh = None"
  "pending_of (Some (fst (take_pending d sh))) sh = None"
  "snd (take_pending d sh) = pending_of (Some d) sh"
  by (auto simp: pending_of_def resume_from_def record_ack_def persisted_def forget_def take_pending_def Let_def
      split: option.splits)

lemma record_ack_due: "snd (record_ack d sh a now) = Some q \<Longrightarrow> q = a"
  by (auto simp: record_ack_def Let_def split: if_splits)

subsection \<open>The branches of the operations\<close>

text \<open>
  Elimination rules for the four operations of a turn, one case per way through the code. The
  checkpoint of an acknowledgement is written at once, or when the deferral interval has passed.
\<close>

definition persists ::
  "'e fleet_ops \<Rightarrow> ShardTask \<Rightarrow> string \<Rightarrow> CkptDefer option \<Rightarrow> 'e \<Rightarrow> 'e \<Rightarrow> (CkptDefer \<Rightarrow> Instant \<Rightarrow> CkptDefer) \<Rightarrow> CkptDefer option \<Rightarrow> bool" where
  "persists ops task a d e e1 upd d' \<longleftrightarrow>
     (case d of
        None \<Rightarrow> e1 = e \<and> d' = None
      | Some d0 \<Rightarrow> \<exists>now d1. rt_now (f_runtime ops) e = (e1, now) \<and> record_ack d0 (t_shard task) a now = (d1, Some a) \<and> d' = Some (upd d1 now))"

lemma handle_ack_cases [consumes 1, case_names deferred persisted refused]:
  assumes "handle_ack ops task c a d e = (e', d', r)"
  obtains d0 now d1 where "d = Some d0" "rt_now (f_runtime ops) e = (e', now)" "record_ack d0 (t_shard task) a now = (d1, None)"
      "d' = Some d1" "r = Inr c"
    | e1 c' where "persists ops task a d e e1 (\<lambda>d1. persisted d1 (t_shard task)) d'"
      "l_checkpoint (f_leases ops) e1 (t_shard task) (t_owner task) c a = (e', Inr c')" "r = Inr c'"
    | e1 e2 err where "persists ops task a d e e1 (\<lambda>d1 _. forget d1 (t_shard task)) d'"
      "l_checkpoint (f_leases ops) e1 (t_shard task) (t_owner task) c a = (e2, Inl err)"
      "e' = lease_lost_exit ops (t_shard task) e2" "r = Inl Stopped"
proof (cases d)
  case None
  with assms that(2,3) show ?thesis by (auto simp: handle_ack_def persists_def split: prod.splits sum.splits)
next
  case (Some d0)
  obtain e1 now where n: "rt_now (f_runtime ops) e = (e1, now)" by fastforce
  obtain d1 due where d1: "record_ack d0 (t_shard task) a now = (d1, due)" by fastforce
  show ?thesis
  proof (cases due)
    case None
    with assms n d1 Some show ?thesis by (intro that(1)) (auto simp: handle_ack_def)
  next
    case q: (Some q)
    then have "q = a" using record_ack_due d1 by (metis snd_conv)
    with assms n d1 Some q that(2,3) show ?thesis by (auto simp: handle_ack_def persists_def split: prod.splits sum.splits)
  qed
qed

lemma deliver_batch_cases [consumes 1, case_names failed unacked stopped acked]:
  assumes "deliver_batch ops task c b d e = (e', d', r)"
  defines "report \<equiv> \<lambda>e. on_batch (f_metrics ops) e
    \<lparr>sm_shard_id = t_shard task, sm_records = of_nat (length (batch_records b)),
     sm_bytes = of_nat (sum_list (map (length \<circ> rec_data) (batch_records b))),
     sm_millis_behind_latest = batch_millis_behind_latest b\<rparr>"
  obtains err where "c_deliver (f_factory ops) e (t_shard task) (batch_records b) = (e', Inl err)"
      "d' = map_option (\<lambda>d. forget d (t_shard task)) d" "r = Inl Stopped"
    | e1 where "c_deliver (f_factory ops) e (t_shard task) (batch_records b) = (e1, Inr None)" "e' = report e1" "d' = d" "r = Inr c"
    | e1 a out where "c_deliver (f_factory ops) e (t_shard task) (batch_records b) = (e1, Inr (Some a))"
      "handle_ack ops task c a d e1 = (e', d', Inl out)" "r = Inl out"
    | e1 a e2 c' where "c_deliver (f_factory ops) e (t_shard task) (batch_records b) = (e1, Inr (Some a))"
      "handle_ack ops task c a d e1 = (e2, d', Inr c')" "e' = report e2" "r = Inr c'"
  using assms by (auto simp: deliver_batch_def Let_def split: prod.splits sum.splits option.splits)

text \<open>The calls that end a shard: the consumer is told, the lease is marked, the end is reported.\<close>

definition close_shard :: "'e fleet_ops \<Rightarrow> ShardTask \<Rightarrow> u64 \<Rightarrow> 'e \<Rightarrow> 'e" where
  "close_shard ops task c e =
     on_shard_end (f_metrics ops)
       (fst (l_mark_complete (f_leases ops) (fst (c_shard_ended (f_factory ops) e (t_shard task))) (t_shard task) (t_owner task) c))
       (t_shard task)"

lemma finish_shard_cases [consumes 1, case_names settled flushed refused]:
  assumes "finish_shard ops task c d e = (e', d', out)"
  obtains "pending_of d (t_shard task) = None" "e' = close_shard ops task c e" "out = Ended"
      "d' = map_option (\<lambda>d. forget (fst (take_pending d (t_shard task))) (t_shard task)) d"
    | q e1 c' where "pending_of d (t_shard task) = Some q"
      "l_checkpoint (f_leases ops) e (t_shard task) (t_owner task) c q = (e1, Inr c')" "e' = close_shard ops task c' e1" "out = Ended"
      "d' = map_option (\<lambda>d. forget (fst (take_pending d (t_shard task))) (t_shard task)) d"
    | q e1 err where "pending_of d (t_shard task) = Some q"
      "l_checkpoint (f_leases ops) e (t_shard task) (t_owner task) c q = (e1, Inl err)"
      "e' = lease_lost_exit ops (t_shard task) e1" "out = Stopped"
      "d' = map_option (\<lambda>d. forget (fst (take_pending d (t_shard task))) (t_shard task)) d"
proof (cases d)
  case None
  with assms show ?thesis by (intro that(1)) (auto simp: finish_shard_def close_shard_def Let_def)
next
  case (Some d0)
  have t: "take_pending d0 (t_shard task) = (fst (take_pending d0 (t_shard task)), pending_of d (t_shard task))"
    using pending_simps(6) [of d0 "t_shard task"] Some by (metis prod.collapse)
  show ?thesis
  proof (cases "pending_of d (t_shard task)")
    case None
    with assms Some t show ?thesis by (intro that(1)) (auto simp: finish_shard_def close_shard_def Let_def split: prod.splits)
  next
    case q: (Some q)
    obtain e1 k where "l_checkpoint (f_leases ops) e (t_shard task) (t_owner task) c q = (e1, k)" by fastforce
    with assms Some t q that(2,3) [of q e1] show ?thesis
      by (cases k) (auto simp: finish_shard_def close_shard_def Let_def split: prod.splits)
  qed
qed

text \<open>The batch in hand is dealt with: empty, or delivered.\<close>

definition handled ::
  "'e fleet_ops \<Rightarrow> ShardTask \<Rightarrow> u64 \<Rightarrow> RecordBatch \<Rightarrow> CkptDefer option \<Rightarrow> 'e \<Rightarrow> 'e \<Rightarrow> CkptDefer option \<Rightarrow> PassOutcome + u64 \<Rightarrow> bool" where
  "handled ops task c b d e e' d' r \<longleftrightarrow>
     (if batch_records b = [] then (e', d', r) = (e, d, Inr c) else deliver_batch ops task c b d e = (e', d', r))"

lemma task_turn_cases [consumes 1, case_names fetch_failed stopped ended drained went_on]:
  assumes "task_turn ops task (after, c, dl) d e = (e', d', r)"
  obtains err where "s_get_records (f_source ops) e (t_shard task) after = (e', Inl err)" "d' = d" "r = Inl (Inl err)"
    | e1 b out where "s_get_records (f_source ops) e (t_shard task) after = (e1, Inr b)"
      "handled ops task c b d e1 e' d' (Inl out)" "r = Inl (Inr out)"
    | e1 b e2 d2 c2 out where "s_get_records (f_source ops) e (t_shard task) after = (e1, Inr b)"
      "handled ops task c b d e1 e2 d2 (Inr c2)" "batch_shard_end b" "finish_shard ops task c2 d2 e2 = (e', d', out)" "r = Inl (Inr out)"
    | b where "s_get_records (f_source ops) e (t_shard task) after = (e', Inr b)" "batch_records b = []" "\<not> batch_shard_end b"
      "d' = d" "r = Inl (Inr (if dl then Active else Idle))"
    | e1 b c2 where "s_get_records (f_source ops) e (t_shard task) after = (e1, Inr b)" "batch_records b \<noteq> []"
      "handled ops task c b d e1 e' d' (Inr c2)" "\<not> batch_shard_end b" "r = Inr (Some (rec_seq (last (batch_records b))), c2, True)"
proof -
  obtain e1 g where g: "s_get_records (f_source ops) e (t_shard task) after = (e1, g)" by fastforce
  show ?thesis
  proof (cases g)
    case (Inl err)
    with assms g that(1) show ?thesis by (simp add: task_turn_def)
  next
    case (Inr b)
    obtain e2 d2 r2 where h: "(if batch_records b \<noteq> [] then deliver_batch ops task c b d e1 else (e1, d, Inr c)) = (e2, d2, r2)"
      by (metis prod_cases3)
    then have "handled ops task c b d e1 e2 d2 r2" by (auto simp: handled_def split: if_splits)
    with assms g Inr h that(2-5) show ?thesis
      by (cases r2) (auto simp: task_turn_def Let_def split: prod.splits if_splits)
  qed
qed

subsection \<open>Every turn follows the protocol\<close>

lemma traced_ops_simps [simp]:
  "s_get_records (f_source (traced_ops ops)) E k a = traced (EvGetRecords k a) (\<lambda>e. s_get_records (f_source ops) e k a) E"
  "c_deliver (f_factory (traced_ops ops)) E k rs = traced (EvDeliver k rs) (\<lambda>e. c_deliver (f_factory ops) e k rs) E"
  "c_shard_ended (f_factory (traced_ops ops)) E k = traced (\<lambda>_. EvShardEnded k) (\<lambda>e. c_shard_ended (f_factory ops) e k) E"
  "c_lease_lost (f_factory (traced_ops ops)) E k = traced (\<lambda>_. EvLeaseLost k) (\<lambda>e. c_lease_lost (f_factory ops) e k) E"
  "l_checkpoint (f_leases (traced_ops ops)) E k ow c q =
     traced (EvCheckpoint k ow c q) (\<lambda>e. l_checkpoint (f_leases ops) e k ow c q) E"
  "l_mark_complete (f_leases (traced_ops ops)) E k ow c =
     traced (EvMarkComplete k ow c) (\<lambda>e. l_mark_complete (f_leases ops) e k ow c) E"
  "snd (on_batch (f_metrics (traced_ops ops)) E m) = snd E"
  "snd (on_lease_lost (f_metrics (traced_ops ops)) E k) = snd E"
  "snd (on_shard_end (f_metrics (traced_ops ops)) E k) = snd E"
  "rt_now (f_runtime (traced_ops ops)) E = (let (e', n) = rt_now (f_runtime ops) (fst E) in ((e', snd E), n))"
  by (simp_all add: traced_ops_def traced_defs)

lemma lease_lost_exit_log [simp]: "snd (lease_lost_exit (traced_ops ops) sh E) = snd E @ [EvLeaseLost sh]"
  by (simp add: lease_lost_exit_def)

lemma traced_now: "rt_now (f_runtime (traced_ops ops)) E = (E', now) \<Longrightarrow> snd E' = snd E"
  by (auto split: prod.splits)

lemma persists_simps:
  assumes "persists (traced_ops ops) task a d E E1 upd d'"
  shows "snd E1 = snd E" "d' = None \<longleftrightarrow> d = None"
    and "(\<And>d1 now. pending_of (Some (upd d1 now)) sh = None) \<Longrightarrow> pending_of d' sh = None"
  using assms unfolding persists_def by (auto simp del: traced_ops_simps dest: traced_now split: option.splits)

lemma checkpoint_log: "l_checkpoint (f_leases (traced_ops ops)) E k ow c q = (E', r) \<Longrightarrow> snd E' = snd E @ [EvCheckpoint k ow c q r]"
  by (simp add: traced_result)

lemma handle_ack_spec:
  assumes h: "handle_ack (traced_ops ops) task c a defer E = (E', defer', r)"
    and s: "sp_phase s = Handled" "sp_counter s = c" "sp_pending s = Some a"
  shows "\<exists>evs s'. snd E' = snd E @ evs \<and> spec_run (t_shard task) (t_owner task) s evs = Some s' \<and>
    (defer' = None \<longleftrightarrow> defer = None) \<and>
    (case r of
       Inl out \<Rightarrow> out = Stopped \<and> sp_phase s' = Over
     | Inr c' \<Rightarrow> s' = s\<lparr>sp_counter := c', sp_pending := pending_of defer' (t_shard task)\<rparr>)"
  using h
proof (cases rule: handle_ack_cases)
  case (deferred d0 now d1)
  from deferred(3) have "pending_of defer' (t_shard task) = Some a" using pending_simps(2) deferred(4) by (metis fst_conv)
  with deferred traced_now [OF deferred(2)] s show ?thesis by auto
next
  case (persisted E1 c')
  note p = persists_simps [OF persisted(1)] and log = checkpoint_log [OF persisted(2)]
  with persisted s show ?thesis
    by (intro exI [of _ "[EvCheckpoint (t_shard task) (t_owner task) c a (Inr c')]"]) (auto simp: p(3))
next
  case (refused E1 E2 err)
  note p = persists_simps [OF refused(1)] and log = checkpoint_log [OF refused(2)]
  with refused s show ?thesis
    by (intro exI [of _ "[EvCheckpoint (t_shard task) (t_owner task) c a (Inl err), EvLeaseLost (t_shard task)]"]) auto
qed

lemma deliver_log: "c_deliver (f_factory (traced_ops ops)) E k rs = (E', r) \<Longrightarrow> snd E' = snd E @ [EvDeliver k rs r]"
  by (simp add: traced_result)

lemma deliver_batch_spec:
  assumes h: "deliver_batch (traced_ops ops) task c b defer E = (E', defer', r)"
    and s: "sp_phase s = HaveBatch" "sp_batch s = Some b" "batch_records b \<noteq> []" "sp_counter s = c"
      "sp_pending s = pending_of defer (t_shard task)"
  shows "\<exists>evs s'. snd E' = snd E @ evs \<and> spec_run (t_shard task) (t_owner task) s evs = Some s' \<and>
    (defer' = None \<longleftrightarrow> defer = None) \<and>
    (case r of
       Inl out \<Rightarrow> out = Stopped \<and> sp_phase s' = Over
     | Inr c' \<Rightarrow> s' = s\<lparr>sp_phase := Handled, sp_counter := c', sp_pending := pending_of defer' (t_shard task)\<rparr>)"
proof -
  let ?sh = "t_shard task" and ?rs = "batch_records b"
  have ack: "\<exists>evs s'. snd E2 = snd E @ evs \<and> spec_run ?sh (t_owner task) s evs = Some s' \<and> (defer' = None \<longleftrightarrow> defer = None) \<and>
      (case r of Inl out \<Rightarrow> out = Stopped \<and> sp_phase s' = Over
       | Inr c' \<Rightarrow> s' = s\<lparr>sp_phase := Handled, sp_counter := c', sp_pending := pending_of defer' ?sh\<rparr>)"
    if d: "c_deliver (f_factory (traced_ops ops)) E ?sh ?rs = (E1, Inr (Some a))"
      and ha: "handle_ack (traced_ops ops) task c a defer E1 = (E2, defer', r)" for E1 a E2
  proof -
    let ?s = "s\<lparr>sp_phase := Handled, sp_pending := Some a\<rparr>" and ?ev = "EvDeliver ?sh ?rs (Inr (Some a))"
    from handle_ack_spec [OF ha, of ?s] s(4) obtain evs s' where
      ev: "snd E2 = snd E1 @ evs" "spec_run ?sh (t_owner task) ?s evs = Some s'" "defer' = None \<longleftrightarrow> defer = None"
      "case r of Inl out \<Rightarrow> out = Stopped \<and> sp_phase s' = Over
         | Inr c' \<Rightarrow> s' = ?s\<lparr>sp_counter := c', sp_pending := pending_of defer' ?sh\<rparr>" by auto
    have "spec_run ?sh (t_owner task) s (?ev # evs) = Some s'" using s ev(2) by simp
    with ev deliver_log [OF d] show ?thesis by (intro exI [of _ "?ev # evs"] exI [of _ s']) (auto split: sum.splits)
  qed
  from h show ?thesis
  proof (cases rule: deliver_batch_cases)
    case (failed err)
    with deliver_log [OF failed(1)] s show ?thesis by (intro exI [of _ "[EvDeliver ?sh ?rs (Inl err)]"]) simp
  next
    case (unacked E1)
    with deliver_log [OF unacked(1)] s show ?thesis by (intro exI [of _ "[EvDeliver ?sh ?rs (Inr None)]"]) simp
  next
    case (stopped E1 a out)
    with ack [OF stopped(1)] show ?thesis by simp
  next
    case (acked E1 a E2 c')
    with ack [OF acked(1)] show ?thesis by simp
  qed
qed

lemma close_shard_log:
  "\<exists>r. snd (close_shard (traced_ops ops) task c E) =
    snd E @ [EvShardEnded (t_shard task), EvMarkComplete (t_shard task) (t_owner task) c r]"
  by (simp add: close_shard_def)

lemma close_shard_spec:
  assumes "at_shard_end s" "sp_counter s = c" "sp_pending s = None"
  shows "\<exists>evs s'. snd (close_shard (traced_ops ops) task c E) = snd E @ evs \<and>
    spec_run (t_shard task) (t_owner task) s evs = Some s' \<and> spec_final (Inr Ended) s'"
  using assms close_shard_log [of ops task c E] by (auto simp: spec_final_def)

lemma finish_shard_spec:
  assumes h: "finish_shard (traced_ops ops) task c defer E = (E', defer', out)"
    and s: "at_shard_end s" "sp_counter s = c" "sp_pending s = pending_of defer (t_shard task)"
  shows "\<exists>evs s'. snd E' = snd E @ evs \<and> spec_run (t_shard task) (t_owner task) s evs = Some s' \<and> spec_final (Inr out) s'"
  using h
proof (cases rule: finish_shard_cases)
  case settled
  with close_shard_spec [OF s(1,2), of ops task E] s(3) show ?thesis by simp
next
  case (flushed q E1 c1)
  let ?s = "s\<lparr>sp_counter := c1, sp_pending := None\<rparr>" and ?ev = "EvCheckpoint (t_shard task) (t_owner task) c q (Inr c1)"
  have step: "spec_step (t_shard task) (t_owner task) s ?ev = Some ?s" using s flushed(1) by simp
  have "at_shard_end ?s" using s(1) by (simp add: at_shard_end_def batch_done_def split: option.splits)
  from close_shard_spec [OF this, of c1 ops task E1] obtain evs s' where
    "snd E' = snd E1 @ evs" "spec_run (t_shard task) (t_owner task) ?s evs = Some s'" "spec_final (Inr out) s'"
    using flushed(3,4) by auto
  with checkpoint_log [OF flushed(2)] step show ?thesis by (intro exI [of _ "?ev # evs"] exI [of _ s']) simp
next
  case (refused q E1 err)
  with checkpoint_log [OF refused(2)] s show ?thesis
    by (auto simp: spec_final_def
        intro!: exI [of _ "[EvCheckpoint (t_shard task) (t_owner task) c q (Inl err), EvLeaseLost (t_shard task)]"])
qed

text \<open>The loop variables and the state of the protocol at the head of the loop.\<close>

definition at_head :: "ShardTask \<Rightarrow> loop_vars \<Rightarrow> CkptDefer option \<Rightarrow> task_spec \<Rightarrow> bool" where
  "at_head task vars defer s \<longleftrightarrow>
     may_fetch s \<and> sp_after s = fst vars \<and> sp_counter s = fst (snd vars) \<and>
     sp_pending s = pending_of defer (t_shard task) \<and> sp_eager s = (defer = None)"

text \<open>The state after a fetch, and after its batch is dealt with.\<close>

definition fetched_state :: "task_spec \<Rightarrow> RecordBatch \<Rightarrow> task_spec" where
  "fetched_state s b =
     s\<lparr>sp_phase := HaveBatch, sp_batch := Some b,
       sp_after := (if batch_records b = [] then sp_after s else Some (rec_seq (last (batch_records b))))\<rparr>"

lemma get_log: "s_get_records (f_source (traced_ops ops)) E k a = (E', r) \<Longrightarrow> snd E' = snd E @ [EvGetRecords k a r]"
  by (simp add: traced_result)

lemma handled_spec:
  assumes h: "handled (traced_ops ops) task c b defer E1 E2 defer2 r"
    and g: "s_get_records (f_source (traced_ops ops)) E (t_shard task) after = (E1, Inr b)"
    and s: "at_head task (after, c, dl) defer s"
  shows "\<exists>evs s2. snd E2 = snd E @ evs \<and> spec_run (t_shard task) (t_owner task) s evs = Some s2 \<and> (defer2 = None \<longleftrightarrow> defer = None) \<and>
    (case r of
       Inl out \<Rightarrow> out = Stopped \<and> sp_phase s2 = Over
     | Inr c2 \<Rightarrow> s2 = (fetched_state s b)\<lparr>sp_phase := (if batch_records b = [] then HaveBatch else Handled),
         sp_counter := c2, sp_pending := pending_of defer2 (t_shard task)\<rparr>)"
proof -
  let ?ev = "EvGetRecords (t_shard task) after (Inr b)" and ?s1 = "fetched_state s b"
  have step: "spec_step (t_shard task) (t_owner task) s ?ev = Some ?s1" using s by (simp add: at_head_def fetched_state_def)
  have "\<exists>evs s2. snd E2 = snd E1 @ evs \<and> spec_run (t_shard task) (t_owner task) ?s1 evs = Some s2 \<and> (defer2 = None \<longleftrightarrow> defer = None) \<and>
      (case r of
         Inl out \<Rightarrow> out = Stopped \<and> sp_phase s2 = Over
       | Inr c2 \<Rightarrow> s2 = ?s1\<lparr>sp_phase := (if batch_records b = [] then HaveBatch else Handled),
           sp_counter := c2, sp_pending := pending_of defer2 (t_shard task)\<rparr>)"
  proof (cases "batch_records b = []")
    case True
    with h s show ?thesis by (auto simp: handled_def at_head_def fetched_state_def)
  next
    case False
    with h s deliver_batch_spec [of ops task c b "defer" E1 E2 defer2 r ?s1] show ?thesis
      by (simp add: handled_def at_head_def fetched_state_def)
  qed
  then obtain evs s2 where "snd E2 = snd E1 @ evs" "spec_run (t_shard task) (t_owner task) ?s1 evs = Some s2"
    "(defer2 = None \<longleftrightarrow> defer = None) \<and> (case r of
         Inl out \<Rightarrow> out = Stopped \<and> sp_phase s2 = Over
       | Inr c2 \<Rightarrow> s2 = ?s1\<lparr>sp_phase := (if batch_records b = [] then HaveBatch else Handled),
           sp_counter := c2, sp_pending := pending_of defer2 (t_shard task)\<rparr>)" by blast
  with get_log [OF g] step show ?thesis by (intro exI [of _ "?ev # evs"] exI [of _ s2]) simp
qed

lemma handled_state:
  assumes "at_head task (after, c, dl) defer s" "defer2 = None \<longleftrightarrow> defer = None"
    and "s2 = (fetched_state s b)\<lparr>sp_phase := (if batch_records b = [] then HaveBatch else Handled),
         sp_counter := c2, sp_pending := pending_of defer2 (t_shard task)\<rparr>"
  shows "batch_done s2" "sp_batch s2 = Some b" "sp_counter s2 = c2" "sp_pending s2 = pending_of defer2 (t_shard task)"
    "sp_eager s2 = (defer2 = None)" "sp_after s2 = (if batch_records b = [] then after else Some (rec_seq (last (batch_records b))))"
    "sp_phase s2 = (if batch_records b = [] then HaveBatch else Handled)"
  using assms by (auto simp: batch_done_def at_head_def fetched_state_def)

lemma task_turn_spec:
  assumes t: "task_turn (traced_ops ops) task vars defer E = (E', defer', r)" and s: "at_head task vars defer s"
  shows "\<exists>evs s'. snd E' = snd E @ evs \<and> spec_run (t_shard task) (t_owner task) s evs = Some s' \<and>
    (case r of Inl res \<Rightarrow> spec_final res s' | Inr vars' \<Rightarrow> at_head task vars' defer' s')"
proof -
  obtain after c dl where v: "vars = (after, c, dl)" by (metis prod_cases3)
  note s = s [unfolded v]
  from t [unfolded v] show ?thesis
  proof (cases rule: task_turn_cases)
    case (fetch_failed err)
    with get_log [OF fetch_failed(1)] s show ?thesis
      by (auto simp: at_head_def spec_final_def intro!: exI [of _ "[EvGetRecords (t_shard task) after (Inl err)]"])
  next
    case (stopped E1 b out)
    with handled_spec [OF stopped(2,1) s] show ?thesis by (auto simp: spec_final_def)
  next
    case (ended E1 b E2 d2 c2 out)
    from handled_spec [OF ended(2,1) s] obtain evs s2 where e: "snd E2 = snd E @ evs"
      "spec_run (t_shard task) (t_owner task) s evs = Some s2" "d2 = None \<longleftrightarrow> defer = None" and s2: "s2 = (fetched_state s b)
        \<lparr>sp_phase := (if batch_records b = [] then HaveBatch else Handled), sp_counter := c2, sp_pending := pending_of d2 (t_shard task)\<rparr>"
      by auto
    note h = handled_state [OF s e(3) s2]
    have "at_shard_end s2" using h ended(3) by (simp add: at_shard_end_def)
    from finish_shard_spec [OF ended(4) this] h obtain evs' s' where "snd E' = snd E2 @ evs'"
      "spec_run (t_shard task) (t_owner task) s2 evs' = Some s'" "spec_final (Inr out) s'" by auto
    with e ended(5) show ?thesis by (intro exI [of _ "evs @ evs'"] exI [of _ s']) (simp add: spec_run_append)
  next
    case (drained b)
    have "handled (traced_ops ops) task c b defer E' E' defer (Inr c)" using drained(2) by (simp add: handled_def)
    from handled_spec [OF this drained(1) s] obtain evs s2 where e: "snd E' = snd E @ evs"
      "spec_run (t_shard task) (t_owner task) s evs = Some s2" and s2: "s2 = (fetched_state s b)
        \<lparr>sp_phase := (if batch_records b = [] then HaveBatch else Handled), sp_counter := c, sp_pending := pending_of defer (t_shard task)\<rparr>"
      by auto
    with handled_state [OF s refl s2] drained show ?thesis by (intro exI [of _ evs] exI [of _ s2]) (simp add: spec_final_def)
  next
    case (went_on E1 b c2)
    from handled_spec [OF went_on(3,1) s] obtain evs s2 where e: "snd E' = snd E @ evs"
      "spec_run (t_shard task) (t_owner task) s evs = Some s2" "defer' = None \<longleftrightarrow> defer = None" and s2: "s2 = (fetched_state s b)
        \<lparr>sp_phase := (if batch_records b = [] then HaveBatch else Handled), sp_counter := c2, sp_pending := pending_of defer' (t_shard task)\<rparr>"
      by auto
    with handled_state [OF s e(3) s2] went_on show ?thesis by (intro exI [of _ evs] exI [of _ s2]) (auto simp: at_head_def may_fetch_def)
  qed
qed

lemma task_loop_inv:
  assumes "task_loop ops task vars defer e = Some (e', defer', res)" and "I vars defer e"
    and turn: "\<And>vars d e e' d' vars'. I vars d e \<Longrightarrow> task_turn ops task vars d e = (e', d', Inr vars') \<Longrightarrow> I vars' d' e'"
    and fin: "\<And>vars d e e' d' res. I vars d e \<Longrightarrow> task_turn ops task vars d e = (e', d', Inl res) \<Longrightarrow> F e' d' res"
  shows "F e' defer' res"
proof -
  have "ops = ops \<longrightarrow> task = task \<longrightarrow> I vars defer e \<longrightarrow>
      (case (e', defer', res) of (e', d', res) \<Rightarrow> F e' d' res)"
  proof (rule task_loop.raw_induct [OF _ assms(1), where P = "\<lambda>a b vars d e y. a = ops \<longrightarrow> b = task \<longrightarrow> I vars d e \<longrightarrow>
        (case y of (e', d', res) \<Rightarrow> F e' d' res)"], intro impI, goal_cases)
    case (1 loop a b vars d e y)
    obtain e1 d1 r where t: "task_turn ops task vars d e = (e1, d1, r)" by (metis prod_cases3)
    show ?case
    proof (cases r)
      case (Inl res)
      with 1 t have "y = (e1, d1, res)" by simp
      with fin [of vars d e e1 d1 res] 1(5) t Inl show ?thesis by simp
    next
      case (Inr vars')
      with 1 t have l: "loop ops task vars' d1 e1 = Some y" by simp
      from 1(1) [OF this] turn [of vars d e e1 d1 vars'] 1(5) t Inr show ?thesis by simp
    qed
  qed
  with assms(2) show ?thesis by simp
qed

lemma process_shard_spec:
  assumes "process_shard (traced_ops ops) task defer (e, []) = Some ((e', tr), defer', res)"
  shows "\<exists>s. spec_run (t_shard task) (t_owner task) (spec_start task defer) tr = Some s \<and> spec_final res s"
proof -
  let ?sh = "t_shard task" and ?ow = "t_owner task" and ?s0 = "spec_start task defer"
  let ?I = "\<lambda>vars d (E :: 'a traced). \<exists>s. spec_run ?sh ?ow ?s0 (snd E) = Some s \<and> at_head task vars d s"
  let ?F = "\<lambda>(E :: 'a traced) (d :: CkptDefer option) res. \<exists>s. spec_run ?sh ?ow ?s0 (snd E) = Some s \<and> spec_final res s"
  have "?F (e', tr) defer' res"
  proof (rule task_loop_inv [where I = ?I and F = ?F])
    show "task_loop (traced_ops ops) task (task_start task defer) defer (e, []) = Some ((e', tr), defer', res)"
      using assms by (simp add: process_shard_def)
    show "?I (task_start task defer) defer (e, [])"
      by (auto simp: at_head_def spec_start_def may_fetch_def task_start_def)
  next
    fix vars d and E :: "'a traced" and E' d' vars'
    assume "?I vars d E" "task_turn (traced_ops ops) task vars d E = (E', d', Inr vars')"
    then show "?I vars' d' E'" using task_turn_spec [of ops task vars d E E' d' "Inr vars'"] by (fastforce simp: spec_run_append)
  next
    fix vars d and E :: "'a traced" and E' d' res
    assume "?I vars d E" "task_turn (traced_ops ops) task vars d E = (E', d', Inl res)"
    then show "?F E' d' res" using task_turn_spec [of ops task vars d E E' d' "Inl res"] by (fastforce simp: spec_run_append)
  qed
  then show ?thesis by simp
qed

subsection \<open>Consequences of the protocol\<close>

lemma spec_run_split:
  assumes "spec_run sh ow s (xs @ ev # ys) = Some s'"
  obtains s1 s2 where "spec_run sh ow s xs = Some s1" "spec_step sh ow s1 ev = Some s2" "spec_run sh ow s2 ys = Some s'"
  using assms by (auto simp: spec_run_append bind_eq_Some_conv split: option.splits)

lemma spec_over: "sp_phase s = Over \<Longrightarrow> spec_run sh ow s ys = Some s' \<Longrightarrow> ys = [] \<and> s' = s"
  by (cases ys; cases "hd ys") (auto simp: may_fetch_def at_shard_end_def batch_done_def split: if_splits option.splits)

lemma spec_lease_gone:
  "sp_phase s = LeaseGone \<Longrightarrow> spec_run sh ow s ys = Some s' \<Longrightarrow> sp_phase s' = LeaseGone \<or> ys = [EvLeaseLost sh]"
  by (cases ys; cases "hd ys")
     (auto simp: may_fetch_def at_shard_end_def batch_done_def dest: spec_over [rotated] split: if_splits option.splits)

lemma spec_final_phase: "spec_final res s \<Longrightarrow> sp_phase s \<noteq> LeaseGone \<and> sp_phase s \<noteq> Closing"
  by (auto simp: spec_final_def batch_done_def split: sum.splits PassOutcome.splits option.splits)

lemma spec_closing:
  assumes "spec_run sh ow s0 tr = Some s" "sp_phase s = Closing" "sp_phase s0 = Start"
  shows "sp_pending s = None \<and> (\<exists>b. sp_batch s = Some b \<and> batch_shard_end b)"
proof (cases tr rule: rev_cases)
  case (snoc tr' ev)
  then obtain s1 where "spec_step sh ow s1 ev = Some s"
    using assms(1) by (auto simp: spec_run_append bind_eq_Some_conv split: option.splits)
  with assms(2) show ?thesis
    by (cases ev) (auto simp: at_shard_end_def batch_done_def may_fetch_def split: if_splits sum.splits option.splits)
qed (use assms in simp)

text \<open>The pending acknowledgement comes from the consumer, the batch in hand from the source.\<close>

lemma spec_run_origin:
  assumes "spec_run sh ow s0 tr = Some s"
  shows "(\<forall>q. sp_pending s = Some q \<longrightarrow> sp_pending s0 = Some q \<or> (\<exists>rs. EvDeliver sh rs (Inr (Some q)) \<in> set tr)) \<and>
    (\<forall>b. sp_batch s = Some b \<longrightarrow> sp_batch s0 = Some b \<or> (\<exists>a. EvGetRecords sh a (Inr b) \<in> set tr))"
  using assms
proof (induction tr arbitrary: s rule: rev_induct)
  case (snoc ev tr)
  then obtain s1 where s1: "spec_run sh ow s0 tr = Some s1" "spec_step sh ow s1 ev = Some s"
    by (auto simp: spec_run_append bind_eq_Some_conv split: option.splits)
  from snoc.IH [OF s1(1)] s1(2) show ?case
    by (cases ev) (auto split: if_splits sum.splits option.splits)
qed simp

text \<open>Reading a trace: what was fetched, what was delivered, which counter is held, what is not yet durable.\<close>

fun fetched_of :: "event \<Rightarrow> Record list list" where
  "fetched_of (EvGetRecords k a (Inr b)) = (if batch_records b = [] then [] else [batch_records b])"
| "fetched_of _ = []"

fun delivered_of :: "event \<Rightarrow> Record list list" where
  "delivered_of (EvDeliver k rs r) = [rs]"
| "delivered_of _ = []"

definition fetched :: "event list \<Rightarrow> Record list list" where
  "fetched tr = concat (map fetched_of tr)"

definition delivered :: "event list \<Rightarrow> Record list list" where
  "delivered tr = concat (map delivered_of tr)"

definition resume_after :: "string option \<Rightarrow> Record list list \<Rightarrow> string option" where
  "resume_after start bs = (if bs = [] then start else Some (rec_seq (last (last bs))))"

fun hold :: "event \<Rightarrow> u64 \<Rightarrow> u64" where
  "hold (EvCheckpoint k w c q (Inr c')) _ = c'"
| "hold _ c = c"

fun ack_state :: "event \<Rightarrow> string option \<Rightarrow> string option" where
  "ack_state (EvDeliver k rs (Inr (Some q))) _ = Some q"
| "ack_state (EvCheckpoint k w c q (Inr c')) _ = None"
| "ack_state _ p = p"

definition held_counter :: "u64 \<Rightarrow> event list \<Rightarrow> u64" where
  "held_counter c tr = fold hold tr c"

definition not_durable :: "string option \<Rightarrow> event list \<Rightarrow> string option" where
  "not_durable p tr = fold ack_state tr p"

definition in_hand :: "task_spec \<Rightarrow> Record list list" where
  "in_hand s =
     (case sp_batch s of
        Some b \<Rightarrow> if sp_phase s = HaveBatch \<and> batch_records b \<noteq> [] then [batch_records b] else []
      | None \<Rightarrow> [])"

lemma read_snoc [simp]:
  "fetched (tr @ [ev]) = fetched tr @ fetched_of ev" "delivered (tr @ [ev]) = delivered tr @ delivered_of ev"
  "held_counter c (tr @ [ev]) = hold ev (held_counter c tr)" "not_durable p (tr @ [ev]) = ack_state ev (not_durable p tr)"
  by (simp_all add: fetched_def delivered_def held_counter_def not_durable_def)

lemma resume_after_snoc [simp]: "resume_after a (bs @ [b]) = Some (rec_seq (last b))"
  by (simp add: resume_after_def)

lemma resume_after_append: "resume_after (resume_after a bs) cs = resume_after a (bs @ cs)"
  by (simp add: resume_after_def)

lemma in_hand_may_fetch: "may_fetch s \<Longrightarrow> in_hand s = []"
  by (auto simp: may_fetch_def in_hand_def split: option.splits)

lemma spec_step_in_hand:
  assumes "spec_step sh ow s ev = Some s'"
  shows "in_hand s @ fetched_of ev = delivered_of ev @ in_hand s'"
proof (cases ev)
  case (EvGetRecords k a r)
  then have "may_fetch s" using assms by (simp split: if_splits)
  from in_hand_may_fetch [OF this] EvGetRecords assms show ?thesis
    by (auto simp: in_hand_def split: if_splits sum.splits option.splits)
next
  case (EvDeliver k rs r)
  with assms show ?thesis by (auto simp: in_hand_def split: if_splits sum.splits option.splits)
qed (use assms in \<open>auto simp: in_hand_def at_shard_end_def batch_done_def split: if_splits sum.splits option.splits\<close>)

lemma spec_step_vars:
  assumes "spec_step sh ow s ev = Some s'"
  shows "sp_after s' = resume_after (sp_after s) (fetched_of ev)" "sp_counter s' = hold ev (sp_counter s)"
    "sp_pending s' = ack_state ev (sp_pending s)" "sp_eager s' = sp_eager s"
  using assms by (cases ev; auto simp: resume_after_def split: if_splits sum.splits option.splits)+

lemma spec_run_reads:
  assumes "spec_run sh ow s0 tr = Some s" "sp_phase s0 = Start" "sp_batch s0 = None"
  shows "fetched tr = delivered tr @ in_hand s \<and> sp_after s = resume_after (sp_after s0) (fetched tr) \<and>
    sp_counter s = held_counter (sp_counter s0) tr \<and> sp_pending s = not_durable (sp_pending s0) tr \<and>
    sp_eager s = sp_eager s0"
  using assms
proof (induction tr arbitrary: s rule: rev_induct)
  case Nil
  then show ?case by (simp add: fetched_def delivered_def in_hand_def resume_after_def held_counter_def not_durable_def)
next
  case (snoc ev tr)
  then obtain s1 where s1: "spec_run sh ow s0 tr = Some s1" "spec_step sh ow s1 ev = Some s"
    by (auto simp: spec_run_append bind_eq_Some_conv split: option.splits)
  note IH = snoc.IH [OF s1(1) snoc.prems(2,3)]
  have "fetched (tr @ [ev]) = delivered (tr @ [ev]) @ in_hand s" using IH spec_step_in_hand [OF s1(2)] by simp
  moreover have "sp_after s = resume_after (sp_after s0) (fetched (tr @ [ev]))"
    using IH spec_step_vars(1) [OF s1(2)] by (simp only: resume_after_append read_snoc)
  ultimately show ?case using IH spec_step_vars(2-4) [OF s1(2)] by (simp only: read_snoc simp_thms)
qed

lemma spec_final_in_hand: "spec_final res s \<Longrightarrow> in_hand s = []"
  by (auto simp: spec_final_def in_hand_def batch_done_def split: sum.splits PassOutcome.splits option.splits)

subsection \<open>Termination\<close>

lemma task_turn_continues:
  assumes "task_turn ops task vars defer e = (e', defer', Inr vars')"
  shows "\<exists>e1 b. s_get_records (f_source ops) e (t_shard task) (fst vars) = (e1, Inr b) \<and> batch_records b \<noteq> [] \<and>
    fst vars' = Some (rec_seq (last (batch_records b)))"
  using assms by (auto simp: task_turn_def Let_def split: prod.splits sum.splits if_splits)

lemma task_loop_terminates:
  assumes "\<And>e a e' b. s_get_records (f_source ops) e (t_shard task) a = (e', Inr b) \<Longrightarrow> batch_records b \<noteq> [] \<Longrightarrow>
      pos a < (pos (Some (rec_seq (last (batch_records b)))) :: nat) \<and> pos (Some (rec_seq (last (batch_records b)))) \<le> N"
  shows "\<exists>r. task_loop ops task vars defer e = Some r"
proof (induction "N - pos (fst vars)" arbitrary: vars "defer" e rule: less_induct)
  case less
  obtain e1 d1 r where t: "task_turn ops task vars defer e = (e1, d1, r)" by (metis prod_cases3)
  show ?case
  proof (cases r)
    case (Inl res)
    with t show ?thesis by (subst task_loop.simps) simp
  next
    case (Inr vars')
    from task_turn_continues [OF t [unfolded Inr]] assms have "N - pos (fst vars') < N - pos (fst vars)"
      by (metis diff_less_mono2 order_less_le_trans)
    from less [OF this] t Inr show ?thesis by (subst task_loop.simps) simp
  qed
qed

section \<open>A concrete task\<close>

definition fake_runtime :: "'e Runtime" where
  "fake_runtime = \<lparr>rt_now = (\<lambda>e. (e, 0)), rt_wait = (\<lambda>e _. e)\<rparr>"

definition fake_ops :: "FakeEnv fleet_ops" where
  "fake_ops =
     \<lparr>f_source = fake_source, f_leases = fake_leases,
      f_factory = sync_consumer_factory \<lparr>pf_create = (\<lambda>e _. e), pf_processor = (\<lambda>_. recording_processor)\<rparr>,
      f_metrics = noop_sink, f_runtime = fake_runtime\<rparr>"

definition fake_task :: ShardTask where
  "fake_task = \<lparr>t_owner = ''w1'', t_shard = ''s'', t_counter = 3, t_checkpoint = Some ''10'', t_poll_interval_ms = 5\<rparr>"

definition fake_record :: "string \<Rightarrow> Record" where
  "fake_record q = \<lparr>rec_shard_id = ''s'', rec_seq = q, rec_data = []\<rparr>"

definition fake_env :: FakeEnv where
  "fake_env =
     \<lparr>fk_metas = [\<lparr>meta_id = ''s'', meta_parents = []\<rparr>],
      fk_data = [''s'' \<mapsto> [fake_record ''10'', fake_record ''11'', fake_record ''12'']],
      fk_rows = [(''s'', fake_lease_default\<lparr>fl_owner := Some ''w1'', fl_counter := 3, fl_checkpoint := Some ''10''\<rparr>)],
      fk_events = []\<rparr>"

definition fake_trace :: "event list" where
  "fake_trace =
     [EvGetRecords ''s'' (Some ''10'')
        (Inr \<lparr>batch_records = [fake_record ''11'', fake_record ''12''], batch_shard_end = True,
              batch_millis_behind_latest = None\<rparr>),
      EvDeliver ''s'' [fake_record ''11'', fake_record ''12''] (Inr (Some ''12'')),
      EvCheckpoint ''s'' ''w1'' 3 ''12'' (Inr 4),
      EvShardEnded ''s'',
      EvMarkComplete ''s'' ''w1'' 4 (Inr ())]"

lemma fake_pass:
  obtains e' where "process_shard (traced_ops fake_ops) fake_task None (fake_env, []) = Some ((e', fake_trace), None, Inr Ended)"
proof -
  have "map_option (\<lambda>((e', tr), d, r). (tr, d = None, r)) (process_shard (traced_ops fake_ops) fake_task None (fake_env, [])) =
      Some (fake_trace, True, Inr Ended)"
    by (simp only: process_shard_def, subst task_loop.simps, code_simp)
  with that show ?thesis by (auto split: prod.splits)
qed

section \<open>Properties\<close>

text \<open>
  C8. In-order delivery by a shard task, for arbitrary source, store and consumer: the batches
  handed to the consumer are exactly the non-empty batches fetched, each once, in the order
  fetched; and every fetch reads strictly after the last record fetched before it, the first one
  after the pending acknowledgement if there is one, else after the checkpoint of the lease.
\<close>

theorem task_delivers_in_order:
  assumes "process_shard (traced_ops ops) task defer (e, []) = Some ((e', tr), defer', res)"
  shows "delivered tr = fetched tr \<and>
    (\<forall>xs k a r ys. tr = xs @ EvGetRecords k a r # ys \<longrightarrow>
       k = t_shard task \<and> a = resume_after (fst (task_start task defer)) (delivered xs))"
proof -
  let ?s0 = "spec_start task defer"
  have s0: "sp_phase ?s0 = Start" "sp_batch ?s0 = None" "sp_after ?s0 = fst (task_start task defer)"
    by (simp_all add: spec_start_def)
  obtain s where s: "spec_run (t_shard task) (t_owner task) ?s0 tr = Some s" "spec_final res s"
    using process_shard_spec [OF assms] by blast
  have "delivered tr = fetched tr" using spec_run_reads [OF s(1) s0(1,2)] spec_final_in_hand [OF s(2)] by simp
  moreover have "k = t_shard task \<and> a = resume_after (fst (task_start task defer)) (delivered xs)"
    if tr: "tr = xs @ EvGetRecords k a r # ys" for xs k a r ys
  proof -
    obtain s1 s2 where s1: "spec_run (t_shard task) (t_owner task) ?s0 xs = Some s1"
      "spec_step (t_shard task) (t_owner task) s1 (EvGetRecords k a r) = Some s2"
      using s(1) unfolding tr by (rule spec_run_split)
    from s1(2) have "k = t_shard task" "a = sp_after s1" "in_hand s1 = []"
      by (auto simp: may_fetch_def in_hand_def split: if_splits option.splits)
    with spec_run_reads [OF s1(1) s0(1,2)] s0(3) show ?thesis by simp
  qed
  ultimately show ?thesis by blast
qed

theorem task_delivers_in_order_witness:
  "delivered fake_trace = [[fake_record ''11'', fake_record ''12'']]"
proof -
  obtain e' where "process_shard (traced_ops fake_ops) fake_task None (fake_env, []) = Some ((e', fake_trace), None, Inr Ended)"
    by (rule fake_pass)
  from task_delivers_in_order [OF this] show ?thesis by (simp add: fake_trace_def fetched_def)
qed

text \<open>
  C9. Checkpoints of a shard task, for arbitrary source, store and consumer. Every checkpoint is
  written for the task's shard and owner, under the counter held at that moment (the one the last
  successful checkpoint returned), and carries an acknowledgement of the consumer: one returned
  earlier in the pass, or the one pending from before. When it is refused, the only further call
  is the lease-lost notification. The shard is marked complete only as the last call, under the
  held counter, after a fetch that reported the end, with no acknowledgement left that is not
  durable. Without deferral, every acknowledgement is durable before the next fetch.
\<close>

theorem task_checkpoints_acked_and_fenced:
  assumes "process_shard (traced_ops ops) task defer (e, []) = Some ((e', tr), defer', res)"
  shows
    "(\<forall>xs k w c q r ys. tr = xs @ EvCheckpoint k w c q r # ys \<longrightarrow>
        k = t_shard task \<and> w = t_owner task \<and> c = held_counter (t_counter task) xs \<and>
        (pending_of defer (t_shard task) = Some q \<or> (\<exists>rs. EvDeliver (t_shard task) rs (Inr (Some q)) \<in> set xs)) \<and>
        (\<forall>x. r = Inl x \<longrightarrow> ys = [EvLeaseLost (t_shard task)])) \<and>
     (\<forall>xs k w c r ys. tr = xs @ EvMarkComplete k w c r # ys \<longrightarrow>
        ys = [] \<and> k = t_shard task \<and> w = t_owner task \<and> c = held_counter (t_counter task) xs \<and>
        not_durable (pending_of defer (t_shard task)) xs = None \<and>
        (\<exists>a b. EvGetRecords (t_shard task) a (Inr b) \<in> set xs \<and> batch_shard_end b)) \<and>
     (defer = None \<longrightarrow> (\<forall>xs k a r ys. tr = xs @ EvGetRecords k a r # ys \<longrightarrow> not_durable None xs = None))"
proof -
  let ?sh = "t_shard task" and ?ow = "t_owner task" and ?s0 = "spec_start task defer"
  have s0: "sp_phase ?s0 = Start" "sp_batch ?s0 = None" "sp_counter ?s0 = t_counter task"
    "sp_pending ?s0 = pending_of defer ?sh" "sp_eager ?s0 = (defer = None)"
    by (simp_all add: spec_start_def)
  obtain s where s: "spec_run ?sh ?ow ?s0 tr = Some s" "spec_final res s" using process_shard_spec [OF assms] by blast
  note phase = spec_final_phase [OF s(2)]
  have 1: "k = ?sh \<and> w = ?ow \<and> c = held_counter (t_counter task) xs \<and>
      (pending_of defer ?sh = Some q \<or> (\<exists>rs. EvDeliver ?sh rs (Inr (Some q)) \<in> set xs)) \<and> (\<forall>x. r = Inl x \<longrightarrow> ys = [EvLeaseLost ?sh])"
    if tr: "tr = xs @ EvCheckpoint k w c q r # ys" for xs k w c q r ys
  proof -
    obtain s1 s2 where s1: "spec_run ?sh ?ow ?s0 xs = Some s1" "spec_step ?sh ?ow s1 (EvCheckpoint k w c q r) = Some s2"
      "spec_run ?sh ?ow s2 ys = Some s" using s(1) unfolding tr by (rule spec_run_split)
    have "ys = [EvLeaseLost ?sh]" if "r = Inl x" for x
      using spec_lease_gone [OF _ s1(3)] s1(2) that phase by (auto split: if_splits)
    with s1(2) spec_run_reads [OF s1(1) s0(1,2)] spec_run_origin [OF s1(1)] s0 show ?thesis by (auto split: if_splits)
  qed
  have 2: "ys = [] \<and> k = ?sh \<and> w = ?ow \<and> c = held_counter (t_counter task) xs \<and> not_durable (pending_of defer ?sh) xs = None \<and>
      (\<exists>a b. EvGetRecords ?sh a (Inr b) \<in> set xs \<and> batch_shard_end b)"
    if tr: "tr = xs @ EvMarkComplete k w c r # ys" for xs k w c r ys
  proof -
    obtain s1 s2 where s1: "spec_run ?sh ?ow ?s0 xs = Some s1" "spec_step ?sh ?ow s1 (EvMarkComplete k w c r) = Some s2"
      "spec_run ?sh ?ow s2 ys = Some s" using s(1) unfolding tr by (rule spec_run_split)
    from s1(2) have c: "sp_phase s1 = Closing" "k = ?sh" "w = ?ow" "c = sp_counter s1" "sp_phase s2 = Over"
      by (auto split: if_splits)
    have "ys = []" using spec_over [OF c(5) s1(3)] by simp
    moreover have "sp_pending s1 = None \<and> (\<exists>b. sp_batch s1 = Some b \<and> batch_shard_end b)"
      using spec_closing [OF s1(1) c(1)] s0(1) by simp
    moreover from this have "\<exists>a b. EvGetRecords ?sh a (Inr b) \<in> set xs \<and> batch_shard_end b"
      using spec_run_origin [OF s1(1)] s0(2) by fastforce
    ultimately show ?thesis using spec_run_reads [OF s1(1) s0(1,2)] s0 c by simp
  qed
  have 3: "not_durable None xs = None" if "defer = None" and tr: "tr = xs @ EvGetRecords k a r # ys" for xs k a r ys
  proof -
    obtain s1 s2 where s1: "spec_run ?sh ?ow ?s0 xs = Some s1" "spec_step ?sh ?ow s1 (EvGetRecords k a r) = Some s2"
      using s(1) unfolding tr by (rule spec_run_split)
    with spec_run_reads [OF s1(1) s0(1,2)] s0 that(1) show ?thesis by (auto simp: may_fetch_def split: if_splits)
  qed
  from 1 2 3 show ?thesis by blast
qed

theorem task_checkpoints_acked_and_fenced_witness:
  "not_durable None [EvGetRecords ''s'' (Some ''10'')
        (Inr \<lparr>batch_records = [fake_record ''11'', fake_record ''12''], batch_shard_end = True,
              batch_millis_behind_latest = None\<rparr>),
      EvDeliver ''s'' [fake_record ''11'', fake_record ''12''] (Inr (Some ''12'')),
      EvCheckpoint ''s'' ''w1'' 3 ''12'' (Inr 4), EvShardEnded ''s''] = None"
proof -
  obtain e' where p: "process_shard (traced_ops fake_ops) fake_task None (fake_env, []) = Some ((e', fake_trace), None, Inr Ended)"
    by (rule fake_pass)
  have "fake_trace = butlast fake_trace @ EvMarkComplete ''s'' ''w1'' 4 (Inr ()) # []" by (simp add: fake_trace_def)
  with task_checkpoints_acked_and_fenced [OF p] have "not_durable (pending_of None ''s'') (butlast fake_trace) = None"
    by (metis fake_task_def ShardTask.select_convs(2))
  then show ?thesis by (simp add: fake_trace_def)
qed


text \<open>An open shard with two records that are served one at a time, then nothing.\<close>

definition open_shard_ops :: "FakeEnv fleet_ops" where
  "open_shard_ops = fake_ops\<lparr>f_source := fake_source\<lparr>s_get_records := (\<lambda>e sh a.
     (e, Inr \<lparr>batch_records = (if a = None then [fake_record ''1''] else if a = Some ''1'' then [fake_record ''2''] else []),
              batch_shard_end = False, batch_millis_behind_latest = None\<rparr>))\<rparr>\<rparr>"


end
