(* ===== verification/Shard_Sync.thy ===== *)
theory Shard_Sync
  imports Shard_Task Leader
begin

text \<open>
  The leader's part of the fleet (\<open>worker/src/fleet.rs\<close>): \<open>Leadership::step\<close>, the
  leader-only shard discovery \<open>leader_shard_sync\<close> and the garbage collection
  \<open>cleanup_completed_leases\<close>, with the fleet's configuration and state. The iteration orders
  of hash tables are the argument \<open>ord\<close>.
\<close>

section \<open>Configuration and state\<close>

record FleetConfig =
  fc_owner :: string
  fc_max_leases :: nat
  fc_lease_duration_ms :: u64
  fc_poll_interval_ms :: u64
  fc_initial_position :: InitialPosition

record SyncState =
  seeded :: bool
  child_synced :: "ShardId set"

record ShardSched =
  backoff_ms :: u64
  due_at :: Instant
  last_liveness :: Instant

record Fleet =
  flt_config :: FleetConfig
  flt_sync_state :: SyncState
  flt_processing_limit :: "nat option"
  flt_ckpt_defer :: "CkptDefer option"
  flt_sched :: "ShardId \<rightharpoonup> ShardSched"

section \<open>Leadership\<close>

record Leadership =
  ld_owner :: string
  ld_coord :: LeaseCoordinator
  ld_counter :: u64

definition leadership_new :: "string \<Rightarrow> u64 \<Rightarrow> Leadership" where
  "leadership_new owner lease_duration_ms =
     \<lparr>ld_owner = owner, ld_coord = coordinator_new owner 1 lease_duration_ms, ld_counter = 0\<rparr>"

definition leadership_step ::
  "(string list \<Rightarrow> string list) \<Rightarrow> 'e AsyncLeaseStore \<Rightarrow> RawLease list \<Rightarrow> u64 \<Rightarrow> Leadership \<Rightarrow> 'e \<Rightarrow> 'e \<times> Leadership \<times> bool" where
  "leadership_step ord L rows now_ms ld e =
     (let leader_row = List.find (\<lambda>r. rl_key r = LEADER_LEASE_KEY) rows;
          sentinel = (case leader_row of None \<Rightarrow> [] | Some r \<Rightarrow> [r]);
          (coord', taken) = tick ord (ld_coord ld) sentinel now_ms;
          ld1 = ld\<lparr>ld_coord := coord'\<rparr>;
          expired_takeable = (LEADER_LEASE_KEY \<in> set taken);
          i_own = (Option.bind leader_row rl_owner = Some (ld_owner ld))
      in if i_own then
           let base = (case leader_row of None \<Rightarrow> ld_counter ld1 | Some r \<Rightarrow> rl_counter r) in
           (case l_renew L e LEADER_LEASE_KEY (ld_owner ld) base of
              (e', Inr c) \<Rightarrow> (e', ld1\<lparr>ld_counter := c\<rparr>, True)
            | (e', Inl _) \<Rightarrow> (e', ld1, False))
         else if leader_row = None then
           (case l_try_acquire_leadership L e LEADER_LEASE_KEY (ld_owner ld) None of
              (e', Inr (Some c)) \<Rightarrow> (e', ld1\<lparr>ld_counter := c\<rparr>, True)
            | (e', _) \<Rightarrow> (e', ld1, False))
         else if expired_takeable then
           let seen = (case leader_row of None \<Rightarrow> 0 | Some r \<Rightarrow> rl_counter r) in
           (case l_try_acquire_leadership L e LEADER_LEASE_KEY (ld_owner ld) (Some seen) of
              (e', Inr (Some c)) \<Rightarrow> (e', ld1\<lparr>ld_counter := c\<rparr>, True)
            | (e', _) \<Rightarrow> (e', ld1, False))
         else (e, ld1, False))"

section \<open>Shard discovery\<close>

definition completed_keys :: "RawLease list \<Rightarrow> ShardId set" where
  "completed_keys rows = rl_key ` set (filter rl_completed rows)"

definition existing_keys :: "RawLease list \<Rightarrow> ShardId set" where
  "existing_keys rows = rl_key ` set rows"

definition parents_with_children :: "RawLease list \<Rightarrow> ShardId set" where
  "parents_with_children rows = set (concat (map rl_parents rows))"

text \<open>\<open>let _ = create_shard_lease(...)\<close> for every shard of a list that satisfies the filter.\<close>

fun publish_leases ::
  "'e AsyncLeaseStore \<Rightarrow> (ShardMeta \<Rightarrow> bool) \<Rightarrow> (ShardId list \<Rightarrow> string option) \<Rightarrow> ShardMeta list \<Rightarrow> 'e \<Rightarrow> 'e" where
  "publish_leases L want cp [] e = e"
| "publish_leases L want cp (m # ms) e =
     publish_leases L want cp ms
       (if want m then fst (l_create_shard_lease L e (meta_id m) (meta_parents m) (cp (meta_parents m))) else e)"

definition child_cp :: "RawLease list \<Rightarrow> ShardId list \<Rightarrow> string option" where
  "child_cp rows parents =
     child_seed_checkpoint
       (map (\<lambda>p. Option.bind (List.find (\<lambda>r. rl_key r = p) rows) rl_checkpoint) parents)"

definition ready_and_absent :: "RawLease list \<Rightarrow> ShardMeta \<Rightarrow> bool" where
  "ready_and_absent rows m \<longleftrightarrow>
     (\<forall>p \<in> set (meta_parents m). p \<in> completed_keys rows) \<and> meta_id m \<notin> existing_keys rows"

text \<open>
  The loop over the completed parents: the environment and the parents whose children were
  fetched.
\<close>

fun sync_parents ::
  "'e fleet_ops \<Rightarrow> RawLease list \<Rightarrow> ShardId set \<Rightarrow> ShardId list \<Rightarrow> ShardId list \<Rightarrow> 'e \<Rightarrow> 'e \<times> ShardId list" where
  "sync_parents ops rows already_synced [] newly e = (e, newly)"
| "sync_parents ops rows already_synced (parent # ps) newly e =
     (if parent \<in> already_synced \<or> parent \<in> parents_with_children rows
      then sync_parents ops rows already_synced ps newly e
      else
        let e1 = on_describe_stream (f_metrics ops) e in
        (case s_describe_child_shards (f_source ops) e1 parent of
           (e2, Inr children) \<Rightarrow>
             sync_parents ops rows already_synced ps (newly @ [parent])
               (publish_leases (f_leases ops) (\<lambda>c. meta_id c \<notin> existing_keys rows) (child_cp rows) children e2)
         | (e2, Inl _) \<Rightarrow>
             (case s_describe_shards (f_source ops) (on_describe_stream (f_metrics ops) e2) of
                (e3, Inr metas) \<Rightarrow>
                  sync_parents ops rows already_synced ps newly
                    (publish_leases (f_leases ops) (ready_and_absent rows) (child_cp rows) metas e3)
              | (e3, Inl _) \<Rightarrow> sync_parents ops rows already_synced ps newly e3)))"

definition leader_shard_sync ::
  "(string list \<Rightarrow> string list) \<Rightarrow> 'e fleet_ops \<Rightarrow> RawLease list \<Rightarrow> Fleet \<Rightarrow> 'e \<Rightarrow> 'e \<times> Fleet \<times> (WorkerError + unit)" where
  "leader_shard_sync ord ops rows fleet e =
     (let st = flt_sync_state fleet in
      if \<not> seeded st then
        let seed_cp = seed_checkpoint (fc_initial_position (flt_config fleet)) in
        (case s_describe_shards (f_source ops) (on_describe_stream (f_metrics ops) e) of
           (e1, Inl err) \<Rightarrow> (e1, fleet, Inl err)
         | (e1, Inr metas) \<Rightarrow>
             (publish_leases (f_leases ops) (ready_and_absent rows) (\<lambda>_. seed_cp) metas e1,
              fleet\<lparr>flt_sync_state := st\<lparr>seeded := True\<rparr>\<rparr>, Inr ()))
      else
        let (e1, newly_synced) =
          sync_parents ops rows (child_synced st) (ord (remdups (map rl_key (filter rl_completed rows)))) [] e
        in (e1, fleet\<lparr>flt_sync_state := st\<lparr>child_synced := child_synced st \<union> set newly_synced\<rparr>\<rparr>, Inr ()))"

section \<open>Garbage collection\<close>

definition lease_state_of :: "RawLease \<Rightarrow> LeaseState" where
  "lease_state_of r =
     \<lparr>ls_completed = rl_completed r,
      ls_processing = (rl_completed r \<or> \<not> is_start_mode (from_checkpoint (rl_checkpoint r)))\<rparr>"

definition cleanup_state :: "RawLease list \<Rightarrow> (string \<rightharpoonup> LeaseState)" where
  "cleanup_state rows =
     map_of (rev (map (\<lambda>r. (rl_key r, lease_state_of r)) (filter (\<lambda>r. rl_key r \<noteq> LEADER_LEASE_KEY) rows)))"

definition cleanup_completed_leases :: "'e AsyncLeaseStore \<Rightarrow> RawLease list \<Rightarrow> 'e \<Rightarrow> 'e" where
  "cleanup_completed_leases L rows e =
     fold (\<lambda>key e. fst (l_delete_lease L e key))
       (leases_safe_to_delete (shard_metas_from_leases rows) (cleanup_state rows)) e"

section \<open>Lemmas\<close>

subsection \<open>Leadership\<close>

lemma leader_key_not_heartbeat [simp]: "\<not> is_heartbeat_key LEADER_LEASE_KEY"
  by (simp add: is_heartbeat_key_def LEADER_LEASE_KEY_def HEARTBEAT_KEY_PREFIX_def starts_with_def)

text \<open>The coordinator fed with the sentinel row of another owner.\<close>

lemma sentinel_seen:
  assumes "rl_key r = LEADER_LEASE_KEY" "rl_owner r = Some ow" "ow \<noteq> coord_me c"
  shows "coord_seen (fst (tick ord c [r] now)) ow =
    (case coord_seen c ow of None \<Rightarrow> Some \<lparr>seen_counter = 0, seen_last_change_ms = now\<rparr> | Some s \<Rightarrow> Some s)"
  using assms
  by (simp add: tick_seen update_seen_def heartbeat_rows_def shard_rows_def retain_workers_def seed_grace_def
      List.map_filter_simps split: option.splits)

lemma sentinel_takeable:
  assumes r: "rl_key r = LEADER_LEASE_KEY" "rl_owner r = Some ow" "ow \<noteq> coord_me c" "\<not> rl_completed r"
    and m: "coord_max_take c = 1" and s: "coord_seen c ow = Some s"
    and x: "coord_lease_duration_ms c < saturating_sub now (seen_last_change_ms s)"
  shows "snd (tick ord c [r] now) = [LEADER_LEASE_KEY]"
proof -
  let ?c = "c\<lparr>coord_seen := update_seen (coord_me c) now [r] (coord_seen c)\<rparr>"
  have "coord_seen ?c ow = Some s" using sentinel_seen [OF r(1-3), of ord now] s by (simp add: tick_seen)
  then have ex: "is_owner_expired ?c (Some ow) now" using r(3) x by (simp add: is_owner_expired_def)
  let ?s = "\<lparr>snap_key = LEADER_LEASE_KEY, snap_owner = Some ow, snap_expired = True, snap_completed = False\<rparr>"
  have "lease_snapshot ?c now r = ?s" using ex r by (simp add: lease_snapshot_def)
  then have "snd (tick ord c [r] now) = compute_leases_to_take ord [?s] (coord_me c) 1"
    using r(1) m by (simp add: tick_def Let_def shard_rows_def)
  also have "\<dots> = [LEADER_LEASE_KEY]"
    using r(3) by (simp add: compute_leases_to_take_def active_leases_def fair_target_def live_workers_def live_owners_def
        live_leases_of_def available_leases_def div_ceil_def List.map_filter_simps Let_def)
  finally show ?thesis .
qed

definition foreign_leader :: "string \<Rightarrow> RawLease list \<Rightarrow> bool" where
  "foreign_leader ow rows \<longleftrightarrow>
     (case List.find (\<lambda>r. rl_key r = LEADER_LEASE_KEY) rows of
        None \<Rightarrow> False | Some r \<Rightarrow> rl_owner r = Some ow \<and> \<not> rl_completed r)"

lemma foreign_leaderE:
  assumes "foreign_leader ow rows"
  obtains r where "List.find (\<lambda>r. rl_key r = LEADER_LEASE_KEY) rows = Some r" "rl_key r = LEADER_LEASE_KEY"
    "rl_owner r = Some ow" "\<not> rl_completed r"
proof -
  from assms obtain r where r: "List.find (\<lambda>r. rl_key r = LEADER_LEASE_KEY) rows = Some r" "rl_owner r = Some ow" "\<not> rl_completed r"
    by (auto simp: foreign_leader_def split: option.splits)
  moreover from r(1) have "rl_key r = LEADER_LEASE_KEY" unfolding find_Some_iff by blast
  ultimately show ?thesis using that by blast
qed

lemma step_coord:
  assumes "leadership_step ord L rows now ld e = (e', ld', b)"
  shows "ld_owner ld' = ld_owner ld \<and>
    ld_coord ld' = fst (tick ord (ld_coord ld)
      (case List.find (\<lambda>r. rl_key r = LEADER_LEASE_KEY) rows of None \<Rightarrow> [] | Some r \<Rightarrow> [r]) now)"
  using assms by (auto simp: leadership_step_def Let_def split: prod.splits if_splits sum.splits option.splits)

fun watch_leader ::
  "(string list \<Rightarrow> string list) \<Rightarrow> 'e AsyncLeaseStore \<Rightarrow> (RawLease list \<times> u64) list \<Rightarrow> Leadership \<Rightarrow> 'e \<Rightarrow> 'e \<times> Leadership" where
  "watch_leader ord L [] ld e = (e, ld)"
| "watch_leader ord L ((rows, now) # obs) ld e =
     (let (e', ld', b) = leadership_step ord L rows now ld e in watch_leader ord L obs ld' e')"

definition watching :: "string \<Rightarrow> u64 \<Rightarrow> string \<Rightarrow> u64 \<Rightarrow> Leadership \<Rightarrow> bool" where
  "watching me dur ow t0 ld \<longleftrightarrow>
     ld_owner ld = me \<and> coord_me (ld_coord ld) = me \<and> coord_max_take (ld_coord ld) = 1 \<and>
     coord_lease_duration_ms (ld_coord ld) = dur \<and>
     map_option seen_last_change_ms (coord_seen (ld_coord ld) ow) = Some t0"

lemma watching_step:
  assumes "foreign_leader ow rows" "ow \<noteq> me" "watching me dur ow t0 ld" "leadership_step ord L rows now ld e = (e', ld', b)"
  shows "watching me dur ow t0 ld'"
  using assms(1)
proof (rule foreign_leaderE)
  fix r assume r: "List.find (\<lambda>r. rl_key r = LEADER_LEASE_KEY) rows = Some r" "rl_key r = LEADER_LEASE_KEY" "rl_owner r = Some ow"
  have "ld_coord ld' = fst (tick ord (ld_coord ld) [r] now)" "ld_owner ld' = ld_owner ld"
    using step_coord [OF assms(4)] r(1) by simp_all
  with sentinel_seen [OF r(2,3), of "ld_coord ld" ord now] assms(2,3) show ?thesis
    by (auto simp: watching_def split: option.splits)
qed

lemma watching_watch:
  assumes "\<forall>(rows, t) \<in> set obs. foreign_leader ow rows" "ow \<noteq> me" "watching me dur ow t0 ld"
    "watch_leader ord L obs ld e = (e', ld')"
  shows "watching me dur ow t0 ld'"
  using assms
proof (induction obs arbitrary: ld e)
  case (Cons ob obs)
  obtain rows t where ob: "ob = (rows, t)" by fastforce
  obtain e1 ld1 b where s: "leadership_step ord L rows t ld e = (e1, ld1, b)" by (metis prod_cases3)
  have "watching me dur ow t0 ld1" using watching_step [OF _ Cons.prems(2,3) s] Cons.prems(1) ob by simp
  with Cons.IH [of ld1 e1] Cons.prems ob s show ?case by simp
qed simp

lemma watching_first:
  assumes "foreign_leader ow rows" "ow \<noteq> me" "leadership_step ord L rows t0 (leadership_new me dur) e = (e', ld', b)"
  shows "watching me dur ow t0 ld'"
  using assms(1)
proof (rule foreign_leaderE)
  fix r assume r: "List.find (\<lambda>r. rl_key r = LEADER_LEASE_KEY) rows = Some r" "rl_key r = LEADER_LEASE_KEY" "rl_owner r = Some ow"
  have c: "ld_coord ld' = fst (tick ord (coordinator_new me 1 dur) [r] t0)" "ld_owner ld' = me"
    using step_coord [OF assms(3)] r(1) by (simp_all add: leadership_new_def)
  with sentinel_seen [OF r(2,3), of "coordinator_new me 1 dur" ord t0] assms(2) show ?thesis
    by (simp add: watching_def coordinator_new_def)
qed

subsection \<open>Shard discovery on traces\<close>

lemma publish_trace:
  "\<exists>rs. length rs = length (filter want ms) \<and>
     snd (publish_leases (traced_leases L) want cp ms E) =
       snd E @ map2 (\<lambda>m r. EvCreate (meta_id m) (meta_parents m) (cp (meta_parents m)) r) (filter want ms) rs"
proof (induction ms arbitrary: E)
  case (Cons m ms)
  show ?case
  proof (cases "want m")
    case True
    obtain E1 r where c: "l_create_shard_lease (traced_leases L) E (meta_id m) (meta_parents m) (cp (meta_parents m)) = (E1, r)"
      by fastforce
    then have E1: "snd E1 = snd E @ [EvCreate (meta_id m) (meta_parents m) (cp (meta_parents m)) r]"
      by (simp add: traced_leases_def traced_result)
    from Cons.IH [of E1] obtain rs where "length rs = length (filter want ms)"
      "snd (publish_leases (traced_leases L) want cp ms E1) =
        snd E1 @ map2 (\<lambda>m r. EvCreate (meta_id m) (meta_parents m) (cp (meta_parents m)) r) (filter want ms) rs" by blast
    with True c E1 show ?thesis by (intro exI [of _ "r # rs"]) simp
  qed (use Cons.IH [of E] in simp)
qed simp

lemma publish_events:
  obtains evs where "snd (publish_leases (traced_leases L) want cp ms E) = snd E @ evs"
    and "\<And>ev. ev \<in> set evs \<Longrightarrow> \<exists>m r. m \<in> set ms \<and> want m \<and> ev = EvCreate (meta_id m) (meta_parents m) (cp (meta_parents m)) r"
    and "\<And>m. m \<in> set ms \<Longrightarrow> want m \<Longrightarrow> \<exists>r. EvCreate (meta_id m) (meta_parents m) (cp (meta_parents m)) r \<in> set evs"
proof -
  obtain rs where rs: "length rs = length (filter want ms)" "snd (publish_leases (traced_leases L) want cp ms E) =
       snd E @ map2 (\<lambda>m r. EvCreate (meta_id m) (meta_parents m) (cp (meta_parents m)) r) (filter want ms) rs"
    using publish_trace [of want ms L cp E] by blast
  have 1: "\<exists>m r. m \<in> set ms \<and> want m \<and> ev = EvCreate (meta_id m) (meta_parents m) (cp (meta_parents m)) r"
    if "ev \<in> set (map2 (\<lambda>m r. EvCreate (meta_id m) (meta_parents m) (cp (meta_parents m)) r) (filter want ms) rs)" for ev
    using that set_zip_leftD by fastforce
  have 2: "\<exists>r. EvCreate (meta_id m) (meta_parents m) (cp (meta_parents m)) r
      \<in> set (map2 (\<lambda>m r. EvCreate (meta_id m) (meta_parents m) (cp (meta_parents m)) r) (filter want ms) rs)"
    if "m \<in> set ms" "want m" for m
  proof -
    from that have "m \<in> set (filter want ms)" by simp
    then obtain i where "i < length rs" "filter want ms ! i = m" using rs(1) by (metis in_set_conv_nth)
    then have "(m, rs ! i) \<in> set (zip (filter want ms) rs)" using rs(1) by (metis in_set_zip fst_conv snd_conv)
    then show ?thesis by force
  qed
  show ?thesis by (rule that [OF rs(2) 1 2])
qed

text \<open>What the trace of the discovery may contain.\<close>

definition sync_event_ok :: "ShardId set \<Rightarrow> RawLease list \<Rightarrow> event list \<Rightarrow> event \<Rightarrow> bool" where
  "sync_event_ok synced rows tr ev \<longleftrightarrow>
     (case ev of
        EvDescribe r \<Rightarrow> True
      | EvDescribeChildren p r \<Rightarrow> p \<in> completed_keys rows \<and> p \<notin> synced \<and> p \<notin> parents_with_children rows
      | EvCreate k ps cp r \<Rightarrow> k \<notin> existing_keys rows \<and> cp = child_cp rows ps \<and>
          (\<exists>m ms. m \<in> set ms \<and> meta_id m = k \<and> meta_parents m = ps \<and>
             ((\<exists>p. EvDescribeChildren p (Inr ms) \<in> set tr) \<or>
              EvDescribe (Inr ms) \<in> set tr \<and> set ps \<subseteq> completed_keys rows))
      | _ \<Rightarrow> False)"

lemma sync_event_ok_mono: "sync_event_ok synced rows tr ev \<Longrightarrow> set tr \<subseteq> set tr' \<Longrightarrow> sync_event_ok synced rows tr' ev"
  by (auto simp: sync_event_ok_def split: event.splits)

abbreviation sync_log_ok :: "ShardId set \<Rightarrow> RawLease list \<Rightarrow> event list \<Rightarrow> bool" where
  "sync_log_ok synced rows tr \<equiv> \<forall>ev \<in> set tr. sync_event_ok synced rows tr ev"

lemma sync_log_ok_append:
  assumes "sync_log_ok synced rows tr" "\<And>ev. ev \<in> set evs \<Longrightarrow> sync_event_ok synced rows (tr @ evs) ev"
  shows "sync_log_ok synced rows (tr @ evs)"
  using assms sync_event_ok_mono [of synced rows tr _ "tr @ evs"] by auto

lemma publish_log_ok:
  assumes "sync_log_ok synced rows (snd E)"
    and "\<And>m r. m \<in> set ms \<Longrightarrow> want m \<Longrightarrow>
      sync_event_ok synced rows (snd E) (EvCreate (meta_id m) (meta_parents m) (cp (meta_parents m)) r)"
  shows "sync_log_ok synced rows (snd (publish_leases (f_leases (traced_ops ops)) want cp ms E))"
proof -
  obtain evs where e: "snd (publish_leases (traced_leases (f_leases ops)) want cp ms E) = snd E @ evs"
    "\<And>ev. ev \<in> set evs \<Longrightarrow> \<exists>m r. m \<in> set ms \<and> want m \<and> ev = EvCreate (meta_id m) (meta_parents m) (cp (meta_parents m)) r"
    by (rule publish_events [of "f_leases ops" want cp ms E]) (use that in blast)
  have "sync_event_ok synced rows (snd E @ evs) ev" if "ev \<in> set evs" for ev
    using e(2) [OF that] assms(2) sync_event_ok_mono [of synced rows "snd E" ev "snd E @ evs"] by auto
  from sync_log_ok_append [OF assms(1) this] e(1) show ?thesis by (simp add: traced_ops_def)
qed

lemma describe_log:
  "s_describe_child_shards (f_source (traced_ops ops)) (on_describe_stream (f_metrics (traced_ops ops)) E) p = (E2, r) \<Longrightarrow>
     snd E2 = snd E @ [EvDescribeChildren p r]"
  "s_describe_shards (f_source (traced_ops ops)) (on_describe_stream (f_metrics (traced_ops ops)) E) = (E3, r3) \<Longrightarrow>
     snd E3 = snd E @ [EvDescribe r3]"
  by (auto simp: traced_ops_def traced_defs untraced_def dest: traced_result)

lemma sync_parents_trace:
  assumes "sync_parents (traced_ops ops) rows synced ps newly E = (E', newly')" "set ps \<subseteq> completed_keys rows"
    and "sync_log_ok synced rows (snd E)"
  shows "sync_log_ok synced rows (snd E')"
  using assms
proof (induction ps arbitrary: newly E)
  case (Cons p ps)
  let ?describe = "on_describe_stream (f_metrics (traced_ops ops))" and ?publish = "publish_leases (f_leases (traced_ops ops))"
  show ?case
  proof (cases "p \<in> synced \<or> p \<in> parents_with_children rows")
    case True
    with Cons show ?thesis by simp
  next
    case False
    obtain E2 r where d: "s_describe_child_shards (f_source (traced_ops ops)) (?describe E) p = (E2, r)" by fastforce
    note E2 = describe_log(1) [OF d]
    have ok2: "sync_log_ok synced rows (snd E2)"
      unfolding E2 by (rule sync_log_ok_append [OF Cons.prems(3)]) (use Cons.prems(2) False in \<open>simp add: sync_event_ok_def\<close>)
    show ?thesis
    proof (cases r)
      case (Inr children)
      have "sync_log_ok synced rows (snd (?publish (\<lambda>c. meta_id c \<notin> existing_keys rows) (child_cp rows) children E2))"
        by (rule publish_log_ok [OF ok2]) (use E2 Inr in \<open>fastforce simp: sync_event_ok_def\<close>)
      with Cons.IH [of "newly @ [p]"] Cons.prems False d Inr show ?thesis by (simp add: Let_def)
    next
      case (Inl err)
      obtain E3 r3 where d3: "s_describe_shards (f_source (traced_ops ops)) (?describe E2) = (E3, r3)" by fastforce
      note E3 = describe_log(2) [OF d3]
      have ok3: "sync_log_ok synced rows (snd E3)"
        unfolding E3 by (rule sync_log_ok_append [OF ok2]) (simp add: sync_event_ok_def)
      show ?thesis
      proof (cases r3)
        case (Inr metas)
        have "sync_log_ok synced rows (snd (?publish (ready_and_absent rows) (child_cp rows) metas E3))"
          by (rule publish_log_ok [OF ok3]) (use E3 Inr in \<open>fastforce simp: sync_event_ok_def ready_and_absent_def\<close>)
        with Cons.IH [of newly] Cons.prems False d Inl d3 Inr show ?thesis by (simp add: Let_def)
      next
        case (Inl err3)
        with Cons.IH [of newly E3] Cons.prems False d \<open>r = Inl err\<close> d3 ok3 show ?thesis by (simp add: Let_def)
      qed
    qed
  qed
qed simp

lemma sync_parents_newly:
  assumes "sync_parents ops rows synced ps newly e = (e', newly')"
  shows "set newly \<subseteq> set newly'"
    and "parent \<in> set ps \<Longrightarrow> parent \<notin> synced \<Longrightarrow> parent \<notin> parents_with_children rows \<Longrightarrow>
      (\<And>e. \<exists>e' cs. s_describe_child_shards (f_source ops) e parent = (e', Inr cs)) \<Longrightarrow> parent \<in> set newly'"
  using assms
proof (induction ps arbitrary: newly e)
  case (Cons p ps)
  {
    case 1
    then show ?case
      using Cons.IH(1) [of newly] Cons.IH(1) [of "newly @ [p]"]
      by (fastforce simp: Let_def split: if_splits prod.splits sum.splits)
  next
    case 2
    show ?case
    proof (cases "p = parent")
      case True
      obtain e2 cs where "s_describe_child_shards (f_source ops) (on_describe_stream (f_metrics ops) e) parent = (e2, Inr cs)"
        using 2(4) by blast
      with 2 True Cons.IH(1) [of "newly @ [p]"] show ?thesis by (fastforce simp: Let_def)
    next
      case False
      with 2 show ?thesis
        using Cons.IH(2) by (auto simp: Let_def split: if_splits prod.splits sum.splits)
    qed
  }
qed simp_all

lemma sync_parents_idle:
  "\<forall>p \<in> set ps. p \<in> synced \<or> p \<in> parents_with_children rows \<Longrightarrow> sync_parents ops rows synced ps newly e = (e, newly)"
  by (induction ps) auto

subsection \<open>Garbage collection on traces\<close>

lemma cleanup_trace:
  "\<exists>rs. length rs = length ks \<and>
     snd (fold (\<lambda>key e. fst (l_delete_lease (traced_leases L) e key)) ks E) = snd E @ map2 EvDelete ks rs"
proof (induction ks arbitrary: E)
  case (Cons k ks)
  obtain E1 r where c: "l_delete_lease (traced_leases L) E k = (E1, r)" by fastforce
  then have E1: "snd E1 = snd E @ [EvDelete k r]" by (simp add: traced_leases_def traced_result)
  from Cons.IH [of E1] obtain rs where "length rs = length ks"
    "snd (fold (\<lambda>key e. fst (l_delete_lease (traced_leases L) e key)) ks E1) = snd E1 @ map2 EvDelete ks rs" by blast
  with c E1 show ?case by (intro exI [of _ "r # rs"]) simp
qed simp

lemma cleanup_state_row:
  assumes "distinct (map rl_key rows)" "r \<in> set rows" "rl_key r \<noteq> LEADER_LEASE_KEY"
  shows "cleanup_state rows (rl_key r) = Some (lease_state_of r)"
proof -
  let ?rows = "filter (\<lambda>r. rl_key r \<noteq> LEADER_LEASE_KEY) rows"
  have "distinct (map fst (rev (map (\<lambda>r. (rl_key r, lease_state_of r)) ?rows)))"
    using assms(1) by (simp add: rev_map distinct_map inj_on_def flip: rev_map)
  moreover have "(rl_key r, lease_state_of r) \<in> set (rev (map (\<lambda>r. (rl_key r, lease_state_of r)) ?rows))"
    using assms(2,3) by auto
  ultimately show ?thesis unfolding cleanup_state_def by (rule map_of_is_SomeI)
qed

text \<open>A shard whose lease is completed or has a checkpoint past a start position.\<close>

definition lease_under_way :: "RawLease \<Rightarrow> bool" where
  "lease_under_way r \<longleftrightarrow> rl_completed r \<or> \<not> is_start_mode (from_checkpoint (rl_checkpoint r))"

lemma safe_key_rows:
  assumes "distinct (map rl_key rows)"
    and "k \<in> set (leases_safe_to_delete (shard_metas_from_leases rows) (cleanup_state rows))"
  shows "(\<exists>r \<in> set rows. rl_key r = k \<and> rl_completed r) \<and> k \<noteq> LEADER_LEASE_KEY \<and> \<not> is_heartbeat_key k \<and>
    (\<exists>c \<in> set rows. k \<in> set (rl_parents c)) \<and>
    (\<forall>c \<in> set rows. k \<in> set (rl_parents c) \<longrightarrow> rl_key c = LEADER_LEASE_KEY \<or> is_heartbeat_key (rl_key c) \<or> lease_under_way c)"
proof -
  let ?ms = "shard_metas_from_leases rows" and ?st = "cleanup_state rows"
  have s: "\<exists>m \<in> set ?ms. meta_id m = k" "lease_completed ?st k" "\<exists>c \<in> set ?ms. k \<in> set (meta_parents c)"
    "\<forall>c \<in> set ?ms. k \<in> set (meta_parents c) \<longrightarrow> under_way ?st (meta_id c)"
    using assms(2) unfolding leases_safe_to_delete_iff by blast+
  from s(1) obtain r where r: "r \<in> set rows" "rl_key r = k" "k \<noteq> LEADER_LEASE_KEY" "\<not> is_heartbeat_key k"
    by (auto simp: shard_metas_from_leases_def)
  have "rl_completed r"
    using s(2) cleanup_state_row [OF assms(1) r(1)] r(2,3) by (simp add: lease_completed_def lease_state_of_def)
  moreover have "lease_under_way c"
    if "c \<in> set rows" "k \<in> set (rl_parents c)" "rl_key c \<noteq> LEADER_LEASE_KEY" "\<not> is_heartbeat_key (rl_key c)" for c
  proof -
    have "under_way ?st (rl_key c)" using s(4) that by (auto simp: shard_metas_from_leases_def)
    then show ?thesis using cleanup_state_row [OF assms(1) that(1,3)]
      by (auto simp: under_way_def lease_state_of_def lease_under_way_def)
  qed
  moreover have "\<exists>c \<in> set rows. k \<in> set (rl_parents c)" using s(3) by (auto simp: shard_metas_from_leases_def)
  ultimately show ?thesis using r by blast
qed

section \<open>Properties\<close>

text \<open>The leader row as it looks when its owner renews it: only the counter moves.\<close>

definition leader_row :: "string \<Rightarrow> u64 \<Rightarrow> RawLease" where
  "leader_row ow c =
     \<lparr>rl_key = LEADER_LEASE_KEY, rl_owner = Some ow, rl_counter = c, rl_completed = False, rl_checkpoint = None, rl_parents = []\<rparr>"

text \<open>
  A renewing leader is challenged. A worker that first sees the leader row of
  \<open>ow\<close> at \<open>t0\<close> and then scans the table any number of times bids for the leadership
  at every later step taken more than the lease duration after \<open>t0\<close>, conditioned on the
  counter it has just read, however often and however recently that counter moved: the
  coordinator is fed the leader row only, never the owner's heartbeat row, and a shard row's
  counter does not count as a sign of life.
\<close>

lemma live_leader_challenged:
  assumes "ow \<noteq> me" and "\<forall>(rows, t) \<in> set ((rows0, t0) # obs). foreign_leader ow rows" and "foreign_leader ow rows"
    and "watch_leader ord (traced_leases L) ((rows0, t0) # obs) (leadership_new me dur) (e, []) = (E, ld)"
    and "dur < saturating_sub now t0"
  shows "\<exists>row r b. List.find (\<lambda>r. rl_key r = LEADER_LEASE_KEY) rows = Some row \<and>
    leadership_step ord (traced_leases L) rows now ld E =
      ((fst (l_try_acquire_leadership L (fst E) LEADER_LEASE_KEY me (Some (rl_counter row))),
        snd E @ [EvLead LEADER_LEASE_KEY me (Some (rl_counter row)) r]),
       b) \<and> snd b = (\<exists>c. r = Inr (Some c))"
proof -
  obtain E1 ld1 b1 where s: "leadership_step ord (traced_leases L) rows0 t0 (leadership_new me dur) (e, []) = (E1, ld1, b1)"
    by (metis prod_cases3)
  have "watching me dur ow t0 ld1" using watching_first [OF _ assms(1) s] assms(2) by simp
  then have w: "watching me dur ow t0 ld"
    using watching_watch [OF _ assms(1), of obs dur t0 ld1 ord "traced_leases L" E1] assms(2,4) s by simp
  then obtain sn where sn: "coord_seen (ld_coord ld) ow = Some sn" "seen_last_change_ms sn = t0"
    by (auto simp: watching_def)
  from assms(3) show ?thesis
  proof (rule foreign_leaderE)
    fix row assume r: "List.find (\<lambda>r. rl_key r = LEADER_LEASE_KEY) rows = Some row" "rl_key row = LEADER_LEASE_KEY"
      "rl_owner row = Some ow" "\<not> rl_completed row"
    have "snd (tick ord (ld_coord ld) [row] now) = [LEADER_LEASE_KEY]"
      using sentinel_takeable [OF r(2,3) _ r(4) _ sn(1), of now ord] w sn(2) assms(1,5) by (simp add: watching_def)
    then obtain c' where t: "tick ord (ld_coord ld) [row] now = (c', [LEADER_LEASE_KEY])" by (metis prod.collapse)
    obtain e1 r1 where a: "l_try_acquire_leadership L (fst E) LEADER_LEASE_KEY me (Some (rl_counter row)) = (e1, r1)" by fastforce
    show ?thesis
      using w r t a assms(1)
      by (auto simp: leadership_step_def watching_def traced_leases_def traced_def Let_def split: sum.splits option.splits)
  qed
qed

lemma live_leader_challenged_witness:
  "\<exists>E ld b. watch_leader id (traced_leases fake_leases) [([leader_row ''w1'' 1], 0), ([leader_row ''w1'' 2], 5000), ([leader_row ''w1'' 3], 9999)]
      (leadership_new ''w2'' 10000) (fake_env, []) = (E, ld) \<and>
    snd (fst (leadership_step id (traced_leases fake_leases) [leader_row ''w1'' 4] 10001 ld E)) =
      snd E @ [EvLead LEADER_LEASE_KEY ''w2'' (Some 4) b]"
proof -
  obtain E ld where w: "watch_leader id (traced_leases fake_leases) [([leader_row ''w1'' 1], 0), ([leader_row ''w1'' 2], 5000), ([leader_row ''w1'' 3], 9999)]
      (leadership_new ''w2'' 10000) (fake_env, []) = (E, ld)" by fastforce
  have "\<exists>row r b. List.find (\<lambda>r. rl_key r = LEADER_LEASE_KEY) [leader_row ''w1'' 4] = Some row \<and>
    leadership_step id (traced_leases fake_leases) [leader_row ''w1'' 4] 10001 ld E =
      ((fst (l_try_acquire_leadership fake_leases (fst E) LEADER_LEASE_KEY ''w2'' (Some (rl_counter row))),
        snd E @ [EvLead LEADER_LEASE_KEY ''w2'' (Some (rl_counter row)) r]), b) \<and> snd b = (\<exists>c. r = Inr (Some c))"
    by (rule live_leader_challenged [where ow = "''w1''", OF _ _ _ w])
       (simp_all add: foreign_leader_def leader_row_def saturating_sub_def)
  then obtain r b where "leadership_step id (traced_leases fake_leases) [leader_row ''w1'' 4] 10001 ld E =
      ((fst (l_try_acquire_leadership fake_leases (fst E) LEADER_LEASE_KEY ''w2'' (Some 4)),
        snd E @ [EvLead LEADER_LEASE_KEY ''w2'' (Some 4) r]), b)"
    by (auto simp: leader_row_def)
  with w show ?thesis by (intro exI [of _ E] exI [of _ ld] exI [of _ r]) simp
qed

text \<open>One full pass of an initialised leader over the completed parents.\<close>

lemma leader_sync_seeded:
  assumes "leader_shard_sync ord (traced_ops ops) rows fleet (e, []) = ((e', tr), fleet', res)" "hash_order ord"
    and "seeded (flt_sync_state fleet)"
  defines "synced \<equiv> child_synced (flt_sync_state fleet)"
  shows "\<forall>ev \<in> set tr. sync_event_ok synced rows tr ev"
    and "completed_keys rows \<subseteq> synced \<union> parents_with_children rows \<Longrightarrow> tr = []"
    and "res = Inr () \<and> seeded (flt_sync_state fleet') \<and> synced \<subseteq> child_synced (flt_sync_state fleet')"
    and "parent \<in> completed_keys rows \<Longrightarrow> parent \<notin> parents_with_children rows \<Longrightarrow>
      (\<And>e. \<exists>e' cs. s_describe_child_shards (f_source ops) e parent = (e', Inr cs)) \<Longrightarrow>
      parent \<in> child_synced (flt_sync_state fleet')"
proof -
  let ?ps = "ord (remdups (map rl_key (filter rl_completed rows)))"
  have ps: "set ?ps = completed_keys rows" using assms(2) by (simp add: hash_order_def completed_keys_def)
  obtain E1 newly where p: "sync_parents (traced_ops ops) rows synced ?ps [] (e, []) = (E1, newly)" by fastforce
  with assms(1,3) have r: "E1 = (e', tr)" "res = Inr ()"
    "fleet' = fleet\<lparr>flt_sync_state := (flt_sync_state fleet)\<lparr>child_synced := synced \<union> set newly\<rparr>\<rparr>"
    by (auto simp: leader_shard_sync_def synced_def Let_def simp del: traced_ops_simps)
  show "\<forall>ev \<in> set tr. sync_event_ok synced rows tr ev" using sync_parents_trace [OF p] ps r(1) by simp
  show "tr = []" if "completed_keys rows \<subseteq> synced \<union> parents_with_children rows"
    using that sync_parents_idle [of ?ps synced rows "traced_ops ops" "[]" "(e, [])"] p ps r(1) by auto
  show "res = Inr () \<and> seeded (flt_sync_state fleet') \<and> synced \<subseteq> child_synced (flt_sync_state fleet')"
    using r assms(3) by auto
  show "parent \<in> child_synced (flt_sync_state fleet')"
    if "parent \<in> completed_keys rows" "parent \<notin> parents_with_children rows"
      "\<And>e. \<exists>e' cs. s_describe_child_shards (f_source ops) e parent = (e', Inr cs)"
  proof -
    have "\<exists>E' cs. s_describe_child_shards (f_source (traced_ops ops)) E parent = (E', Inr cs)" for E
      using that(3) [of "fst E"] by (auto simp: traced_ops_def traced_source_def traced_def)
    then show ?thesis using sync_parents_newly(2) [OF p, of parent] that(1,2) ps r(3) by fastforce
  qed
qed

text \<open>
  C29 (safety). What the leader's discovery does. The first run describes the stream once and
  then publishes exactly the shards whose parents are all completed and that have no lease, at
  the configured initial position; if the description fails nothing is published and the seeding
  is tried again. Later runs only ask for children of completed parents that are neither synced
  nor already have a child in the table, publish only shards without a lease that a description
  of this run returned, seeded by the rule for children, and make no call at all once every
  completed parent is synced or has children.
\<close>

theorem leader_shard_sync_publishes:
  assumes "leader_shard_sync ord (traced_ops ops) rows fleet (e, []) = ((e', tr), fleet', res)" and "hash_order ord"
  shows "if \<not> seeded (flt_sync_state fleet) then
      \<exists>r evs. tr = EvDescribe r # evs \<and>
        (case r of
           Inl err \<Rightarrow> evs = [] \<and> res = Inl err \<and> \<not> seeded (flt_sync_state fleet')
         | Inr ms \<Rightarrow> res = Inr () \<and> seeded (flt_sync_state fleet') \<and>
             (\<forall>m \<in> set ms. ready_and_absent rows m \<longrightarrow>
                (\<exists>x. EvCreate (meta_id m) (meta_parents m) (seed_checkpoint (fc_initial_position (flt_config fleet))) x \<in> set evs)) \<and>
             (\<forall>ev \<in> set evs. \<exists>m \<in> set ms. ready_and_absent rows m \<and>
                (\<exists>x. ev = EvCreate (meta_id m) (meta_parents m) (seed_checkpoint (fc_initial_position (flt_config fleet))) x)))
    else
      res = Inr () \<and>
      (\<forall>ev \<in> set tr. sync_event_ok (child_synced (flt_sync_state fleet)) rows tr ev) \<and>
      (completed_keys rows \<subseteq> child_synced (flt_sync_state fleet) \<union> parents_with_children rows \<longrightarrow> tr = [])"
proof (cases "seeded (flt_sync_state fleet)")
  case True
  with leader_sync_seeded(1-3) [OF assms True] show ?thesis by simp
next
  case False
  let ?cp = "\<lambda>_. seed_checkpoint (fc_initial_position (flt_config fleet))"
  obtain E1 r where d: "s_describe_shards (f_source (traced_ops ops)) (on_describe_stream (f_metrics (traced_ops ops)) (e, [])) = (E1, r)"
    by fastforce
  then have E1: "snd E1 = [EvDescribe r]" by (auto simp: traced_ops_def traced_defs untraced_def dest: traced_result)
  show ?thesis
  proof (cases r)
    case (Inl err)
    with assms(1) False d have "(e', tr) = E1" "fleet' = fleet" "res = Inl err"
      by (auto simp: leader_shard_sync_def Let_def simp del: traced_ops_simps)
    with E1 Inl False show ?thesis by (auto dest: sym [of "(e', tr)"])
  next
    case (Inr ms)
    with assms(1) False d have r: "(e', tr) = publish_leases (f_leases (traced_ops ops)) (ready_and_absent rows) ?cp ms E1"
      "res = Inr ()" "seeded (flt_sync_state fleet')"
      by (auto simp: leader_shard_sync_def Let_def simp del: traced_ops_simps)
    show ?thesis
    proof (rule publish_events [of "f_leases ops" "ready_and_absent rows" ?cp ms E1])
      fix evs assume e: "snd (publish_leases (traced_leases (f_leases ops)) (ready_and_absent rows) ?cp ms E1) = snd E1 @ evs"
        and sound: "\<And>ev. ev \<in> set evs \<Longrightarrow> \<exists>m r. m \<in> set ms \<and> ready_and_absent rows m \<and> ev = EvCreate (meta_id m) (meta_parents m) (?cp (meta_parents m)) r"
        and complete: "\<And>m. m \<in> set ms \<Longrightarrow> ready_and_absent rows m \<Longrightarrow> \<exists>r. EvCreate (meta_id m) (meta_parents m) (?cp (meta_parents m)) r \<in> set evs"
      have "tr = EvDescribe r # evs" using r(1) e E1 by (simp add: traced_ops_def prod_eq_iff)
      with False Inr r sound complete show ?thesis by fastforce
    qed
  qed
qed

text \<open>A fleet of one worker before its first cycle, and after its seed.\<close>

definition fresh_fleet :: "InitialPosition \<Rightarrow> Fleet" where
  "fresh_fleet pos =
     \<lparr>flt_config = \<lparr>fc_owner = ''w1'', fc_max_leases = 100, fc_lease_duration_ms = 10000, fc_poll_interval_ms = 5, fc_initial_position = pos\<rparr>,
      flt_sync_state = \<lparr>seeded = False, child_synced = {}\<rparr>, flt_processing_limit = None, flt_ckpt_defer = None, flt_sched = Map.empty\<rparr>"

definition seeded_fleet :: Fleet where
  "seeded_fleet = (fresh_fleet InitTrimHorizon)\<lparr>flt_sync_state := \<lparr>seeded = True, child_synced = {}\<rparr>\<rparr>"

definition reshard_env :: FakeEnv where
  "reshard_env =
     \<lparr>fk_metas = [\<lparr>meta_id = ''p'', meta_parents = []\<rparr>, \<lparr>meta_id = ''c'', meta_parents = [''p'']\<rparr>],
      fk_data = Map.empty, fk_rows = [], fk_events = []\<rparr>"

theorem leader_shard_sync_publishes_witness:
  "\<exists>e' fleet' res x. leader_shard_sync id (traced_ops fake_ops) [] (fresh_fleet InitLatest) (reshard_env, []) =
     ((e', [EvDescribe (Inr (fk_metas reshard_env)), EvCreate ''p'' [] (Some SENTINEL_LATEST) x]), fleet', res)"
proof -
  obtain E fleet' res where s: "leader_shard_sync id (traced_ops fake_ops) [] (fresh_fleet InitLatest) (reshard_env, []) = (E, fleet', res)"
    by (metis prod_cases3)
  then have "leader_shard_sync id (traced_ops fake_ops) [] (fresh_fleet InitLatest) (reshard_env, []) = ((fst E, snd E), fleet', res)" by simp
  from leader_shard_sync_publishes [OF this hash_order_id] obtain r evs where "snd E = EvDescribe r # evs"
    by (auto simp: fresh_fleet_def)
  moreover have "snd E = [EvDescribe (Inr (fk_metas reshard_env)), EvCreate ''p'' [] (Some SENTINEL_LATEST) (Inr ())]"
    using arg_cong [OF s, of "\<lambda>x. snd (fst x)"]
    by (simp add: leader_shard_sync_def fresh_fleet_def traced_ops_def traced_defs untraced_def traced_def fake_ops_def fake_source_def
        fake_leases_def fake_create_def noop_sink_def seed_checkpoint_def put_row_def reshard_env_def ready_and_absent_def completed_keys_def existing_keys_def Let_def)
  ultimately have "E = (fst E, [EvDescribe (Inr (fk_metas reshard_env)), EvCreate ''p'' [] (Some SENTINEL_LATEST) (Inr ())])"
    by (simp only: prod_eq_iff) simp
  with s have "leader_shard_sync id (traced_ops fake_ops) [] (fresh_fleet InitLatest) (reshard_env, []) =
      ((fst E, [EvDescribe (Inr (fk_metas reshard_env)), EvCreate ''p'' [] (Some SENTINEL_LATEST) (Inr ())]), fleet', res)"
    by simp
  then show ?thesis by (intro exI)
qed


text \<open>
  A store that refuses to create the child: the parent counts as synced with no child published.
\<close>

definition refusing_ops :: "FakeEnv fleet_ops" where
  "refusing_ops = fake_ops\<lparr>f_leases := fake_leases\<lparr>l_create_shard_lease := (\<lambda>e k ps cp. (e, Inl ''throttled''))\<rparr>\<rparr>"

definition parent_done :: RawLease where
  "parent_done =
     \<lparr>rl_key = ''p'', rl_owner = Some ''w1'', rl_counter = 7, rl_completed = True, rl_checkpoint = Some ''12'', rl_parents = []\<rparr>"


text \<open>
  C31 (safety). Garbage collection deletes only leases of completed shards that have a published
  child, all of whose published children are under way, never the leader's or a heartbeat row;
  and whichever of these deletions take effect, the shards that stay are eligible exactly as they
  were before.
\<close>

theorem cleanup_keeps_lineage:
  assumes "cleanup_completed_leases (traced_leases L) rows (e, []) = (e', tr)" and "distinct (map rl_key rows)"
  shows "(\<forall>ev \<in> set tr. \<exists>k r. ev = EvDelete k r \<and> (\<exists>row \<in> set rows. rl_key row = k \<and> rl_completed row) \<and>
      k \<noteq> LEADER_LEASE_KEY \<and> \<not> is_heartbeat_key k \<and> (\<exists>c \<in> set rows. k \<in> set (rl_parents c)) \<and>
      (\<forall>c \<in> set rows. k \<in> set (rl_parents c) \<longrightarrow>
         rl_key c = LEADER_LEASE_KEY \<or> is_heartbeat_key (rl_key c) \<or> lease_under_way c)) \<and>
    (\<forall>D m. D \<subseteq> {k. \<exists>r. EvDelete k r \<in> set tr} \<longrightarrow> meta_id m \<notin> D \<longrightarrow>
      eligible m (completed_keys (filter (\<lambda>r. rl_key r \<notin> D) rows)) (existing_keys (filter (\<lambda>r. rl_key r \<notin> D) rows)) =
      eligible m (completed_keys rows) (existing_keys rows))"
proof -
  let ?ks = "leases_safe_to_delete (shard_metas_from_leases rows) (cleanup_state rows)"
  obtain rs where rs: "length rs = length ?ks" "tr = map2 EvDelete ?ks rs"
    using cleanup_trace [of ?ks L "(e, [])"] assms(1) by (auto simp: cleanup_completed_leases_def)
  have ev: "\<exists>k r. ev = EvDelete k r \<and> k \<in> set ?ks" if "ev \<in> set tr" for ev
    using that rs(2) set_zip_leftD by fastforce
  have "eligible m (completed_keys (filter (\<lambda>r. rl_key r \<notin> D) rows)) (existing_keys (filter (\<lambda>r. rl_key r \<notin> D) rows)) =
      eligible m (completed_keys rows) (existing_keys rows)"
    if D: "D \<subseteq> {k. \<exists>r. EvDelete k r \<in> set tr}" "meta_id m \<notin> D" for D m
  proof -
    have "D \<subseteq> completed_keys rows"
      using D(1) ev safe_key_rows [OF assms(2)] by (fastforce simp: completed_keys_def)
    moreover have "completed_keys (filter (\<lambda>r. rl_key r \<notin> D) rows) = completed_keys rows - D"
      "existing_keys (filter (\<lambda>r. rl_key r \<notin> D) rows) = existing_keys rows - D"
      by (auto simp: completed_keys_def existing_keys_def)
    ultimately show ?thesis using D(2) by (auto simp: eligible_def)
  qed
  moreover have "\<forall>ev \<in> set tr. \<exists>k r. ev = EvDelete k r \<and> (\<exists>row \<in> set rows. rl_key row = k \<and> rl_completed row) \<and>
      k \<noteq> LEADER_LEASE_KEY \<and> \<not> is_heartbeat_key k \<and> (\<exists>c \<in> set rows. k \<in> set (rl_parents c)) \<and>
      (\<forall>c \<in> set rows. k \<in> set (rl_parents c) \<longrightarrow>
         rl_key c = LEADER_LEASE_KEY \<or> is_heartbeat_key (rl_key c) \<or> lease_under_way c)"
  proof
    fix x assume "x \<in> set tr"
    then obtain k r where k: "x = EvDelete k r" "k \<in> set ?ks" using ev by blast
    show "\<exists>k r. x = EvDelete k r \<and> (\<exists>row \<in> set rows. rl_key row = k \<and> rl_completed row) \<and>
      k \<noteq> LEADER_LEASE_KEY \<and> \<not> is_heartbeat_key k \<and> (\<exists>c \<in> set rows. k \<in> set (rl_parents c)) \<and>
      (\<forall>c \<in> set rows. k \<in> set (rl_parents c) \<longrightarrow>
         rl_key c = LEADER_LEASE_KEY \<or> is_heartbeat_key (rl_key c) \<or> lease_under_way c)"
      by (intro exI [of _ k] exI [of _ r] conjI [OF k(1)] safe_key_rows [OF assms(2) k(2)])
  qed
  ultimately show ?thesis by blast
qed

definition child_started :: RawLease where
  "child_started =
     \<lparr>rl_key = ''c'', rl_owner = Some ''w1'', rl_counter = 2, rl_completed = False, rl_checkpoint = Some ''20'', rl_parents = [''p'']\<rparr>"

theorem cleanup_keeps_lineage_witness:
  "\<exists>e' r. cleanup_completed_leases (traced_leases fake_leases) [parent_done, child_started] (reshard_env, []) = (e', [EvDelete ''p'' r]) \<and>
     (\<exists>c \<in> {parent_done, child_started}. ''p'' \<in> set (rl_parents c) \<and> lease_under_way c)"
proof -
  let ?E = "cleanup_completed_leases (traced_leases fake_leases) [parent_done, child_started] (reshard_env, [])"
  have d: "distinct (map rl_key [parent_done, child_started])" by (simp add: parent_done_def child_started_def)
  have tr: "snd ?E = [EvDelete ''p'' (Inr ())]"
    by (simp add: cleanup_completed_leases_def leases_safe_to_delete_def shard_metas_from_leases_def parent_done_def child_started_def
        lease_completed_def cleanup_state_def lease_state_of_def kids_under_way_def children_map_def add_child_def under_way_def
        traced_leases_def traced_def fake_leases_def fake_delete_def reshard_env_def is_heartbeat_key_def HEARTBEAT_KEY_PREFIX_def
        starts_with_def LEADER_LEASE_KEY_def from_checkpoint_def SENTINEL_LATEST_def)
  have "\<exists>c \<in> set [parent_done, child_started]. ''p'' \<in> set (rl_parents c) \<and>
      (rl_key c = LEADER_LEASE_KEY \<or> is_heartbeat_key (rl_key c) \<or> lease_under_way c)"
    using cleanup_keeps_lineage [OF prod.collapse [of ?E, symmetric] d] tr by fastforce
  then have "\<exists>c \<in> {parent_done, child_started}. ''p'' \<in> set (rl_parents c) \<and> lease_under_way c"
    by (auto simp: parent_done_def child_started_def LEADER_LEASE_KEY_def is_heartbeat_key_def HEARTBEAT_KEY_PREFIX_def starts_with_def)
  with tr show ?thesis by (metis prod.collapse)
qed

end
