(* ===== verification/Fleet_Pool.thy ===== *)
theory Fleet_Pool
  imports Shard_Sync "HOL-Library.Multiset"
begin

text \<open>
  The processing of one cycle (\<open>worker/src/fleet.rs\<close>): the tasks of the owned, eligible
  shards and the bounded pool with its poll schedule. Tasks run concurrently in the sources; here
  the interleaving is an argument, a list of actions: \<open>Claim\<close> starts the next pass and
  \<open>Turn i\<close> runs one turn of the loop of the \<open>i\<close>-th running pass. The passes are over
  when nothing is queued and nothing runs (\<open>while set.join_next().await.is_some()\<close>); a list of
  actions that is not enabled or stops earlier is not a run and gives \<open>None\<close>. The theorems hold
  for every run.
\<close>

section \<open>Passes\<close>

record PoolItem =
  it_shard :: ShardId
  it_counter :: u64
  it_checkpoint :: "string option"
  it_enqueued :: Instant

definition MAX_IDLE_BACKOFF_MS :: u64 where
  "MAX_IDLE_BACKOFF_MS = 5000"

datatype pool_act = Claim | Turn nat

record 'e PoolState =
  ps_env :: 'e
  ps_defer :: "CkptDefer option"
  ps_queue :: "PoolItem list"
  ps_running :: "(ShardTask \<times> loop_vars) list"
  ps_outcomes :: "(ShardId \<times> PassOutcome) list"

definition shard_task :: "FleetConfig \<Rightarrow> PoolItem \<Rightarrow> ShardTask" where
  "shard_task cfg it =
     \<lparr>t_owner = fc_owner cfg, t_shard = it_shard it, t_counter = it_counter it,
      t_checkpoint = it_checkpoint it, t_poll_interval_ms = fc_poll_interval_ms cfg\<rparr>"

text \<open>
  Starting a pass. A pool worker reports how long the item was queued; the tasks of the unbounded
  mode (\<open>limit = None\<close>) are spawned without a report.
\<close>

definition claim_item :: "'e fleet_ops \<Rightarrow> FleetConfig \<Rightarrow> nat option \<Rightarrow> 'e PoolState \<Rightarrow> 'e PoolState option" where
  "claim_item ops cfg limit st =
     (case ps_queue st of
        [] \<Rightarrow> None
      | it # q \<Rightarrow>
          if (case limit of None \<Rightarrow> False | Some k \<Rightarrow> length (ps_running st) \<ge> k) then None
          else
            let task = shard_task cfg it;
                e1 = (case limit of
                        None \<Rightarrow> ps_env st
                      | Some _ \<Rightarrow>
                          (let (e', now) = rt_now (f_runtime ops) (ps_env st)
                           in on_processing_slot_wait (f_metrics ops) e' (it_shard it)
                                (as_millis (now - it_enqueued it))))
            in Some (st\<lparr>ps_env := c_create (f_factory ops) e1 (it_shard it), ps_queue := q,
                        ps_running := ps_running st @ [(task, task_start task (ps_defer st))]\<rparr>))"

definition pass_outcome :: "WorkerError + PassOutcome \<Rightarrow> PassOutcome" where
  "pass_outcome res = (case res of Inl _ \<Rightarrow> Stopped | Inr out \<Rightarrow> out)"

definition turn_task :: "'e fleet_ops \<Rightarrow> nat \<Rightarrow> 'e PoolState \<Rightarrow> 'e PoolState option" where
  "turn_task ops i st =
     (if i < length (ps_running st) then
        (case ps_running st ! i of (task, vars) \<Rightarrow>
          (case task_turn ops task vars (ps_defer st) (ps_env st) of
             (e', defer', Inr vars') \<Rightarrow>
               Some (st\<lparr>ps_env := e', ps_defer := defer', ps_running := (ps_running st)[i := (task, vars')]\<rparr>)
           | (e', defer', Inl res) \<Rightarrow>
               Some (st\<lparr>ps_env := e', ps_defer := defer',
                        ps_running := take i (ps_running st) @ drop (Suc i) (ps_running st),
                        ps_outcomes := ps_outcomes st @ [(t_shard task, pass_outcome res)]\<rparr>)))
      else None)"

fun pool_step :: "'e fleet_ops \<Rightarrow> FleetConfig \<Rightarrow> nat option \<Rightarrow> pool_act \<Rightarrow> 'e PoolState \<Rightarrow> 'e PoolState option" where
  "pool_step ops cfg limit Claim st = claim_item ops cfg limit st"
| "pool_step ops cfg limit (Turn i) st = turn_task ops i st"

fun pool_run :: "'e fleet_ops \<Rightarrow> FleetConfig \<Rightarrow> nat option \<Rightarrow> pool_act list \<Rightarrow> 'e PoolState \<Rightarrow> 'e PoolState option" where
  "pool_run ops cfg limit [] st = (if ps_queue st = [] \<and> ps_running st = [] then Some st else None)"
| "pool_run ops cfg limit (a # acts) st =
     (case pool_step ops cfg limit a st of None \<Rightarrow> None | Some st' \<Rightarrow> pool_run ops cfg limit acts st')"

definition pool_start :: "CkptDefer option \<Rightarrow> PoolItem list \<Rightarrow> 'e \<Rightarrow> 'e PoolState" where
  "pool_start defer items e = \<lparr>ps_env = e, ps_defer = defer, ps_queue = items, ps_running = [], ps_outcomes = []\<rparr>"

section \<open>The bounded pool\<close>

type_synonym owned_shard = "ShardId \<times> u64 \<times> string option"

definition pool_item :: "Instant \<Rightarrow> owned_shard \<Rightarrow> PoolItem" where
  "pool_item now = (\<lambda>(shard, counter, checkpoint).
     \<lparr>it_shard = shard, it_counter = counter, it_checkpoint = checkpoint, it_enqueued = now\<rparr>)"

definition sched_entry :: "(ShardId \<rightharpoonup> ShardSched) \<Rightarrow> Instant \<Rightarrow> ShardId \<Rightarrow> ShardSched" where
  "sched_entry sched now shard =
     (case sched shard of None \<Rightarrow> \<lparr>backoff_ms = 0, due_at = now, last_liveness = now\<rparr> | Some en \<Rightarrow> en)"

fun refresh_sched ::
  "Instant \<Rightarrow> owned_shard list \<Rightarrow> (ShardId \<rightharpoonup> ShardSched) \<Rightarrow> PoolItem list \<Rightarrow> (ShardId \<rightharpoonup> ShardSched) \<times> PoolItem list" where
  "refresh_sched now [] sched due = (sched, due)"
| "refresh_sched now (o1 # os) sched due =
     (let en = sched_entry sched now (fst o1) in
      refresh_sched now os (sched(fst o1 \<mapsto> en)) (if due_at en \<le> now then due @ [pool_item now o1] else due))"

definition apply_outcome ::
  "u64 \<Rightarrow> Instant \<Rightarrow> ShardId \<times> PassOutcome \<Rightarrow> (ShardId \<rightharpoonup> ShardSched) \<Rightarrow> (ShardId \<rightharpoonup> ShardSched)" where
  "apply_outcome poll_interval_ms now = (\<lambda>(shard, out) sched.
     (case out of
        Active \<Rightarrow>
          (case sched shard of
             None \<Rightarrow> sched
           | Some en \<Rightarrow> sched(shard \<mapsto> en\<lparr>backoff_ms := 0, due_at := now, last_liveness := now\<rparr>))
      | Idle \<Rightarrow>
          (case sched shard of
             None \<Rightarrow> sched
           | Some en \<Rightarrow>
               let b = (if backoff_ms en = 0 then max poll_interval_ms 1
                        else min (backoff_ms en * 2) MAX_IDLE_BACKOFF_MS)
               in sched(shard \<mapsto> en\<lparr>backoff_ms := b, due_at := now + from_millis b, last_liveness := now\<rparr>))
      | Ended \<Rightarrow> sched(shard := None)
      | Stopped \<Rightarrow> sched(shard := None)))"

text \<open>
  \<open>sched.values().map(due_at).min()\<close>: after the refresh the schedule has exactly the shards of
  \<open>owned\<close>.
\<close>

definition earliest_due :: "owned_shard list \<Rightarrow> (ShardId \<rightharpoonup> ShardSched) \<Rightarrow> Instant option" where
  "earliest_due owned sched =
     (case List.map_filter (\<lambda>o1. map_option due_at (sched (fst o1))) owned of
        [] \<Rightarrow> None | d # ds \<Rightarrow> Some (fold min ds d))"

definition run_bounded_pool ::
  "'e fleet_ops \<Rightarrow> owned_shard list \<Rightarrow> nat \<Rightarrow> Instant \<Rightarrow> pool_act list \<Rightarrow> Fleet \<Rightarrow> 'e \<Rightarrow> ('e \<times> Fleet) option" where
  "run_bounded_pool ops owned k now acts fleet e =
     (let cfg = flt_config fleet;
          kept = (flt_sched fleet) |` (fst ` set owned);
          (sched, due) = refresh_sched now owned kept []
      in if due = [] then
           let e1 = on_processing_queue_depth (f_metrics ops) e 0;
               fleet1 = fleet\<lparr>flt_sched := sched\<rparr>
           in (case earliest_due owned sched of
                 None \<Rightarrow> Some (e1, fleet1)
               | Some next \<Rightarrow>
                   (let (e2, t) = rt_now (f_runtime ops) e1 in
                    Some (rt_wait (f_runtime ops) e2 (min (next - t) (from_millis (max (fc_poll_interval_ms cfg) 1))), fleet1)))
         else
           let e1 = on_processing_queue_depth (f_metrics ops) e (of_nat (length due)) in
           (case pool_run ops cfg (Some k) acts (pool_start (flt_ckpt_defer fleet) due e1) of
              None \<Rightarrow> None
            | Some st \<Rightarrow>
                (let (e2, t) = rt_now (f_runtime ops) (ps_env st) in
                 Some (e2, fleet\<lparr>flt_ckpt_defer := ps_defer st,
                   flt_sched := fold (apply_outcome (fc_poll_interval_ms cfg) t) (ps_outcomes st) sched\<rparr>))))"

section \<open>Lemmas\<close>

subsection \<open>Runs\<close>

text \<open>The enabled actions of an unfinished run.\<close>

fun pool_exec :: "'e fleet_ops \<Rightarrow> FleetConfig \<Rightarrow> nat option \<Rightarrow> pool_act list \<Rightarrow> 'e PoolState \<Rightarrow> 'e PoolState option" where
  "pool_exec ops cfg limit [] st = Some st"
| "pool_exec ops cfg limit (a # acts) st =
     (case pool_step ops cfg limit a st of None \<Rightarrow> None | Some st' \<Rightarrow> pool_exec ops cfg limit acts st')"

lemma pool_run_exec:
  "pool_run ops cfg limit acts st = Some st' \<longleftrightarrow>
     pool_exec ops cfg limit acts st = Some st' \<and> ps_queue st' = [] \<and> ps_running st' = []"
  by (induction acts arbitrary: st) (auto split: option.splits)

lemma pool_exec_take:
  "pool_exec ops cfg limit acts st = Some st' \<Longrightarrow> \<exists>st1. pool_exec ops cfg limit (take n acts) st = Some st1"
  by (induction acts arbitrary: n st) (auto simp: take_Cons split: option.splits nat.splits)

text \<open>An invariant of the steps is an invariant of the runs.\<close>

lemma pool_exec_inv:
  assumes "pool_exec ops cfg limit acts st = Some st'" "I st"
    and "\<And>a st st'. I st \<Longrightarrow> pool_step ops cfg limit a st = Some st' \<Longrightarrow> I st'"
  shows "I st'"
  using assms by (induction acts arbitrary: st) (auto split: option.splits)

lemma claim_itemE:
  assumes "claim_item ops cfg limit st = Some st'"
  obtains it q e1 where "ps_queue st = it # q" "\<And>k. limit = Some k \<Longrightarrow> length (ps_running st) < k"
    "e1 = ps_env st \<or> (\<exists>n. e1 = on_processing_slot_wait (f_metrics ops) (fst (rt_now (f_runtime ops) (ps_env st))) (it_shard it) n)"
    "st' = st\<lparr>ps_env := c_create (f_factory ops) e1 (it_shard it), ps_queue := q,
      ps_running := ps_running st @ [(shard_task cfg it, task_start (shard_task cfg it) (ps_defer st))]\<rparr>"
proof (cases "ps_queue st")
  case Nil
  with assms show ?thesis by (simp add: claim_item_def)
next
  case (Cons it q)
  show ?thesis
  proof (cases limit)
    case None
    with assms Cons show ?thesis by (intro that [of it q "ps_env st"]) (auto simp: claim_item_def Let_def)
  next
    case (Some k)
    obtain e' now where n: "rt_now (f_runtime ops) (ps_env st) = (e', now)" by fastforce
    with assms Cons Some show ?thesis
      by (intro that [of it q "on_processing_slot_wait (f_metrics ops) e' (it_shard it) (as_millis (now - it_enqueued it))"])
         (auto simp: claim_item_def Let_def split: if_splits)
  qed
qed

lemma turn_taskE:
  assumes "turn_task ops i st = Some st'"
  obtains (continues) task vars e' defer' vars' where "i < length (ps_running st)" "ps_running st ! i = (task, vars)"
      "task_turn ops task vars (ps_defer st) (ps_env st) = (e', defer', Inr vars')"
      "st' = st\<lparr>ps_env := e', ps_defer := defer', ps_running := (ps_running st)[i := (task, vars')]\<rparr>"
    | (ends) task vars e' defer' res where "i < length (ps_running st)" "ps_running st ! i = (task, vars)"
      "task_turn ops task vars (ps_defer st) (ps_env st) = (e', defer', Inl res)"
      "st' = st\<lparr>ps_env := e', ps_defer := defer', ps_running := take i (ps_running st) @ drop (Suc i) (ps_running st),
         ps_outcomes := ps_outcomes st @ [(t_shard task, pass_outcome res)]\<rparr>"
proof -
  from assms have i: "i < length (ps_running st)" by (simp add: turn_task_def split: if_splits)
  obtain task vars where tv: "ps_running st ! i = (task, vars)" by (cases "ps_running st ! i")
  obtain e' defer' r where t: "task_turn ops task vars (ps_defer st) (ps_env st) = (e', defer', r)" by (metis prod_cases3)
  show ?thesis
  proof (cases r)
    case (Inl res)
    with assms i tv t show ?thesis by (intro ends [of task vars e' defer' res]) (auto simp: turn_task_def)
  next
    case (Inr vars')
    with assms i tv t show ?thesis by (intro continues [of task vars e' defer' vars']) (auto simp: turn_task_def)
  qed
qed

subsection \<open>Every item gets one pass\<close>

definition pool_shards :: "'e PoolState \<Rightarrow> ShardId multiset" where
  "pool_shards st =
     mset (map it_shard (ps_queue st)) + mset (map (\<lambda>(t, v). t_shard t) (ps_running st)) + mset (map fst (ps_outcomes st))"

lemma mset_map_remove_nth:
  assumes "i < length xs"
  shows "mset (map f xs) = add_mset (f (xs ! i)) (mset (map f (take i xs @ drop (Suc i) xs)))"
  by (subst id_take_nth_drop [OF assms]) simp

lemma map_update_same: "i < length xs \<Longrightarrow> f y = f (xs ! i) \<Longrightarrow> map f (xs[i := y]) = map f xs"
  by (simp add: map_update list_update_same_conv)

lemma pool_step_shards:
  assumes "pool_step ops cfg limit a st = Some st'"
  shows "pool_shards st' = pool_shards st"
proof (cases a)
  case Claim
  with assms have "claim_item ops cfg limit st = Some st'" by simp
  then show ?thesis
    by (rule claim_itemE) (simp add: pool_shards_def shard_task_def)
next
  case (Turn i)
  with assms have "turn_task ops i st = Some st'" by simp
  then show ?thesis
  proof (cases rule: turn_taskE)
    case (continues task vars e' defer' vars')
    then have "map (\<lambda>(t, v). t_shard t) ((ps_running st)[i := (task, vars')]) = map (\<lambda>(t, v). t_shard t) (ps_running st)"
      by (intro map_update_same) simp_all
    with continues(4) show ?thesis by (simp add: pool_shards_def)
  next
    case (ends task vars e' defer' res)
    then have "mset (map (\<lambda>(t, v). t_shard t) (ps_running st)) =
        add_mset (t_shard task) (mset (map (\<lambda>(t, v). t_shard t) (take i (ps_running st) @ drop (Suc i) (ps_running st))))"
      using mset_map_remove_nth [OF ends(1), of "\<lambda>(t, v). t_shard t"] by simp
    with ends(4) show ?thesis by (simp add: pool_shards_def)
  qed
qed

lemma pool_exec_shards: "pool_exec ops cfg limit acts st = Some st' \<Longrightarrow> pool_shards st' = pool_shards st"
  by (induction acts arbitrary: st) (auto simp: pool_step_shards split: option.splits)

lemma pool_step_width:
  assumes "pool_step ops cfg limit a st = Some st'" "\<And>k. limit = Some k \<Longrightarrow> length (ps_running st) \<le> k"
  shows "limit = Some k \<Longrightarrow> length (ps_running st') \<le> k"
proof (cases a)
  case Claim
  moreover assume "limit = Some k"
  ultimately show ?thesis using assms(1) by (auto elim: claim_itemE)
next
  case (Turn i)
  moreover assume "limit = Some k"
  ultimately show ?thesis using assms by (auto elim!: turn_taskE)
qed

subsection \<open>Every run ends\<close>

text \<open>Positions of a shard are bounded and every non-empty batch moves strictly forward.\<close>

definition stream_advances :: "'e AsyncStreamSource \<Rightarrow> (ShardId \<Rightarrow> string option \<Rightarrow> nat) \<Rightarrow> nat \<Rightarrow> bool" where
  "stream_advances S pos N \<longleftrightarrow>
     (\<forall>e sh a e' b. s_get_records S e sh a = (e', Inr b) \<longrightarrow> batch_records b \<noteq> [] \<longrightarrow>
        pos sh a < pos sh (Some (rec_seq (last (batch_records b)))) \<and> pos sh (Some (rec_seq (last (batch_records b)))) \<le> N)"

definition pool_measure :: "(ShardId \<Rightarrow> string option \<Rightarrow> nat) \<Rightarrow> nat \<Rightarrow> 'e PoolState \<Rightarrow> nat" where
  "pool_measure pos N st =
     (N + 3) * length (ps_queue st) + sum_list (map (\<lambda>(t, v). Suc N - pos (t_shard t) (fst v)) (ps_running st)) + length (ps_running st)"

lemma sum_list_update_less:
  fixes f :: "'a \<Rightarrow> nat"
  assumes "i < length xs" "f y < f (xs ! i)"
  shows "sum_list (map f (xs[i := y])) < sum_list (map f xs)"
  using assms by (induction xs arbitrary: i) (auto simp: nth_Cons split: nat.splits)

lemma sum_list_remove_nth:
  fixes f :: "'a \<Rightarrow> nat"
  assumes "i < length xs"
  shows "sum_list (map f (take i xs @ drop (Suc i) xs)) \<le> sum_list (map f xs)"
  using arg_cong [OF id_take_nth_drop [OF assms], of "\<lambda>ys. sum_list (map f ys)"] by simp

lemma pool_step_measure:
  assumes "pool_step ops cfg limit a st = Some st'"
    and src: "stream_advances (f_source ops) pos N"
  shows "pool_measure pos N st' < pool_measure pos N st"
proof (cases a)
  case Claim
  with assms(1) have "claim_item ops cfg limit st = Some st'" by simp
  then show ?thesis by (rule claim_itemE) (simp add: pool_measure_def)
next
  case (Turn i)
  with assms(1) have "turn_task ops i st = Some st'" by simp
  then show ?thesis
  proof (cases rule: turn_taskE)
    case (continues task vars e' defer' vars')
    have "pos (t_shard task) (fst vars) < pos (t_shard task) (fst vars') \<and> pos (t_shard task) (fst vars') \<le> N"
      using task_turn_continues [OF continues(3)] src unfolding stream_advances_def by metis
    then have "sum_list (map (\<lambda>(t, v). Suc N - pos (t_shard t) (fst v)) ((ps_running st)[i := (task, vars')]))
        < sum_list (map (\<lambda>(t, v). Suc N - pos (t_shard t) (fst v)) (ps_running st))"
      using continues(1,2) by (intro sum_list_update_less) (auto simp del: diff_Suc_Suc)
    with continues(4) show ?thesis by (simp add: pool_measure_def)
  next
    case (ends task vars e' defer' res)
    with sum_list_remove_nth [OF ends(1), of "\<lambda>(t, v). Suc N - pos (t_shard t) (fst v)"] show ?thesis
      by (simp add: pool_measure_def)
  qed
qed

lemma pool_exec_measure:
  assumes "pool_exec ops cfg limit acts st = Some st'"
    and "stream_advances (f_source ops) pos N"
  shows "length acts + pool_measure pos N st' \<le> pool_measure pos N st"
  using assms(1)
proof (induction acts arbitrary: st)
  case (Cons a acts)
  then obtain st1 where "pool_step ops cfg limit a st = Some st1" "pool_exec ops cfg limit acts st1 = Some st'"
    by (auto split: option.splits)
  with Cons.IH [of st1] pool_step_measure [OF _ assms(2), of cfg limit a st st1] show ?case by simp
qed simp

lemma pool_enabled:
  assumes "limit \<noteq> Some 0" "\<not> (ps_queue st = [] \<and> ps_running st = [])"
  shows "\<exists>a st'. pool_step ops cfg limit a st = Some st'"
proof (cases "ps_running st")
  case Nil
  with assms obtain it q where "ps_queue st = it # q" by (cases "ps_queue st") auto
  with Nil assms(1) have "claim_item ops cfg limit st \<noteq> None"
    by (auto simp: claim_item_def Let_def split: option.splits)
  then show ?thesis using pool_step.simps(1) [of ops cfg limit st] by (metis option.exhaust)
next
  case (Cons tv r)
  then have "turn_task ops 0 st \<noteq> None"
    by (auto simp: turn_task_def split: prod.splits sum.splits)
  then show ?thesis using pool_step.simps(2) [of ops cfg limit 0 st] by (metis option.exhaust)
qed

subsection \<open>Passes do not disturb each other\<close>

lemma frame_simps [simp]:
  "sh \<noteq> sh' \<Longrightarrow> resume_from (fst (record_ack d sh a now)) sh' = resume_from d sh'"
  "sh \<noteq> sh' \<Longrightarrow> resume_from (persisted d sh now) sh' = resume_from d sh'"
  "sh \<noteq> sh' \<Longrightarrow> resume_from (fst (take_pending d sh)) sh' = resume_from d sh'"
  "sh \<noteq> sh' \<Longrightarrow> resume_from (forget d sh) sh' = resume_from d sh'"
  by (auto simp: record_ack_def persisted_def take_pending_def forget_def resume_from_def Let_def split: option.splits)

definition same_for_others :: "ShardId \<Rightarrow> CkptDefer option \<Rightarrow> CkptDefer option \<Rightarrow> bool" where
  "same_for_others sh d d' \<longleftrightarrow> (d' = None \<longleftrightarrow> d = None) \<and> (\<forall>sh'. sh' \<noteq> sh \<longrightarrow> pending_of d' sh' = pending_of d sh')"

lemma same_for_others_refl [simp]: "same_for_others sh d d"
  by (simp add: same_for_others_def)

lemma same_for_others_trans: "same_for_others sh d1 d2 \<Longrightarrow> same_for_others sh d2 d3 \<Longrightarrow> same_for_others sh d1 d3"
  by (simp add: same_for_others_def)

lemma same_for_others_Some: "same_for_others sh (Some d) (Some d') \<longleftrightarrow> (\<forall>sh'. sh' \<noteq> sh \<longrightarrow> resume_from d' sh' = resume_from d sh')"
  by (simp add: same_for_others_def pending_of_def)

lemma record_ack_frame: "record_ack d sh a now = (d1, due) \<Longrightarrow> sh' \<noteq> sh \<Longrightarrow> resume_from d1 sh' = resume_from d sh'"
  using frame_simps(1) [of sh sh' d a now] by auto

lemma persists_frame:
  assumes "persists ops task a d e e1 upd d'" and "\<And>d1 now sh'. sh' \<noteq> t_shard task \<Longrightarrow> resume_from (upd d1 now) sh' = resume_from d1 sh'"
  shows "same_for_others (t_shard task) d d'"
  using assms by (auto simp: persists_def same_for_others_Some dest: record_ack_frame split: option.splits)

lemma handle_ack_frame:
  assumes "handle_ack ops task c a d e = (e', d', r)"
  shows "same_for_others (t_shard task) d d'"
  using assms
  by (cases rule: handle_ack_cases) (auto simp: same_for_others_Some dest: record_ack_frame intro: persists_frame)

lemma deliver_batch_frame:
  assumes "deliver_batch ops task c b d e = (e', d', r)"
  shows "same_for_others (t_shard task) d d'"
  using assms
  by (cases rule: deliver_batch_cases) (cases d, auto simp: same_for_others_Some dest: handle_ack_frame)

lemma finish_shard_frame:
  assumes "finish_shard ops task c d e = (e', d', r)"
  shows "same_for_others (t_shard task) d d'"
  using assms by (cases rule: finish_shard_cases) (cases d, auto simp: same_for_others_Some)+

lemma handled_frame: "handled ops task c b d e e' d' r \<Longrightarrow> same_for_others (t_shard task) d d'"
  by (auto simp: handled_def dest: deliver_batch_frame split: if_splits)

lemma task_turn_frame:
  assumes "task_turn ops task vars d e = (e', d', r)"
  shows "same_for_others (t_shard task) d d'"
proof -
  obtain after c dl where "vars = (after, c, dl)" by (metis prod_cases3)
  with assms have "task_turn ops task (after, c, dl) d e = (e', d', r)" by simp
  then show ?thesis
    by (cases rule: task_turn_cases) (auto dest: handled_frame finish_shard_frame intro: same_for_others_trans)
qed

subsection \<open>The protocol of every pass\<close>

text \<open>The calls a shard's pass makes.\<close>

fun task_event :: "ShardId \<Rightarrow> event \<Rightarrow> bool" where
  "task_event sh (EvGetRecords k a r) \<longleftrightarrow> k = sh"
| "task_event sh (EvDeliver k rs r) \<longleftrightarrow> k = sh"
| "task_event sh (EvCheckpoint k w c q r) \<longleftrightarrow> k = sh"
| "task_event sh (EvMarkComplete k w c r) \<longleftrightarrow> k = sh"
| "task_event sh (EvShardEnded k) \<longleftrightarrow> k = sh"
| "task_event sh (EvLeaseLost k) \<longleftrightarrow> k = sh"
| "task_event sh _ \<longleftrightarrow> False"

abbreviation shard_log :: "ShardId \<Rightarrow> event list \<Rightarrow> event list" where
  "shard_log sh \<equiv> filter (task_event sh)"

lemma task_event_unique: "task_event sh ev \<Longrightarrow> task_event sh' ev \<Longrightarrow> sh' = sh"
  by (cases ev) auto

lemma spec_run_events: "spec_run sh ow s evs = Some s' \<Longrightarrow> ev \<in> set evs \<Longrightarrow> task_event sh ev"
proof (induction evs arbitrary: s)
  case (Cons x evs)
  then obtain s1 where "spec_step sh ow s x = Some s1" "spec_run sh ow s1 evs = Some s'" by (auto split: option.splits)
  with Cons show ?case by (cases x) (auto split: if_splits)
qed simp

lemma shard_log_own: "spec_run sh ow s evs = Some s' \<Longrightarrow> shard_log sh evs = evs"
  using spec_run_events by (simp add: filter_id_conv)

lemma shard_log_other: "spec_run sh ow s evs = Some s' \<Longrightarrow> sh' \<noteq> sh \<Longrightarrow> shard_log sh' evs = []"
  by (auto simp: filter_empty_conv dest: spec_run_events task_event_unique)

definition pass_ok :: "FleetConfig \<Rightarrow> CkptDefer option \<Rightarrow> PoolItem \<Rightarrow> event list \<Rightarrow> task_spec \<Rightarrow> bool" where
  "pass_ok cfg defer it tr s \<longleftrightarrow>
     spec_run (it_shard it) (fc_owner cfg) (spec_start (shard_task cfg it) defer) (shard_log (it_shard it) tr) = Some s"

definition running_shards :: "'e PoolState \<Rightarrow> ShardId list" where
  "running_shards st = map (\<lambda>(t, v). t_shard t) (ps_running st)"

text \<open>What the log says of a waiting, a running and a finished pass, relative to the buffer the cycle began with.\<close>

definition waiting_ok :: "CkptDefer option \<Rightarrow> event list \<Rightarrow> CkptDefer option \<Rightarrow> PoolItem \<Rightarrow> bool" where
  "waiting_ok defer tr d it \<longleftrightarrow> shard_log (it_shard it) tr = [] \<and> pending_of d (it_shard it) = pending_of defer (it_shard it)"

definition running_ok ::
  "FleetConfig \<Rightarrow> CkptDefer option \<Rightarrow> PoolItem list \<Rightarrow> event list \<Rightarrow> CkptDefer option \<Rightarrow> ShardTask \<times> loop_vars \<Rightarrow> bool" where
  "running_ok cfg defer items tr d = (\<lambda>(task, vars).
     \<exists>it \<in> set items. task = shard_task cfg it \<and> (\<exists>s. pass_ok cfg defer it tr s \<and> at_head task vars d s))"

definition finished_ok ::
  "FleetConfig \<Rightarrow> CkptDefer option \<Rightarrow> PoolItem list \<Rightarrow> event list \<Rightarrow> ShardId \<times> PassOutcome \<Rightarrow> bool" where
  "finished_ok cfg defer items tr = (\<lambda>(sh, out).
     \<exists>it \<in> set items. sh = it_shard it \<and> (\<exists>s res. pass_ok cfg defer it tr s \<and> spec_final res s \<and> out = pass_outcome res))"

definition pool_inv :: "FleetConfig \<Rightarrow> CkptDefer option \<Rightarrow> PoolItem list \<Rightarrow> 'e traced PoolState \<Rightarrow> bool" where
  "pool_inv cfg defer items st \<longleftrightarrow>
     (ps_defer st = None \<longleftrightarrow> defer = None) \<and> set (ps_queue st) \<subseteq> set items \<and>
     (\<forall>it \<in> set (ps_queue st). waiting_ok defer (snd (ps_env st)) (ps_defer st) it) \<and>
     (\<forall>rn \<in> set (ps_running st). running_ok cfg defer items (snd (ps_env st)) (ps_defer st) rn) \<and>
     (\<forall>oc \<in> set (ps_outcomes st). finished_ok cfg defer items (snd (ps_env st)) oc)"

lemmas pass_defs = waiting_ok_def running_ok_def finished_ok_def

lemma shard_task_simps [simp]:
  "t_shard (shard_task cfg it) = it_shard it" "t_owner (shard_task cfg it) = fc_owner cfg"
  by (simp_all add: shard_task_def)

lemma at_head_start:
  assumes "pending_of d (t_shard task) = pending_of defer (t_shard task)" "d = None \<longleftrightarrow> defer = None"
  shows "at_head task (task_start task d) d (spec_start task defer)"
  using assms by (auto simp: at_head_def spec_start_def task_start_def may_fetch_def pending_of_def)

lemma at_head_frame:
  assumes "at_head task vars d s" "same_for_others sh d d'" "t_shard task \<noteq> sh"
  shows "at_head task vars d' s"
  using assms by (simp add: at_head_def same_for_others_def)

lemma traced_pool_simps [simp]:
  "snd (on_processing_slot_wait (f_metrics (traced_ops ops)) E s n) = snd E"
  "snd (on_processing_queue_depth (f_metrics (traced_ops ops)) E n) = snd E"
  "snd (fst (rt_now (f_runtime (traced_ops ops)) E)) = snd E"
  "snd (rt_wait (f_runtime (traced_ops ops)) E w) = snd E"
  "snd (c_create (f_factory (traced_ops ops)) E sh) = snd E @ [EvConsumer sh]"
  by (simp_all add: traced_ops_def traced_defs split: prod.splits)

lemma claim_trace:
  assumes "claim_item (traced_ops ops) cfg limit st = Some st'"
  obtains it q where "ps_queue st = it # q" "snd (ps_env st') = snd (ps_env st) @ [EvConsumer (it_shard it)]"
    "ps_defer st' = ps_defer st" "ps_queue st' = q" "ps_outcomes st' = ps_outcomes st"
    "ps_running st' = ps_running st @ [(shard_task cfg it, task_start (shard_task cfg it) (ps_defer st))]"
  using assms
proof (rule claim_itemE)
  fix it q E1
  assume q: "ps_queue st = it # q"
    and E: "E1 = ps_env st \<or> (\<exists>n. E1 = on_processing_slot_wait (f_metrics (traced_ops ops))
      (fst (rt_now (f_runtime (traced_ops ops)) (ps_env st))) (it_shard it) n)"
    and st': "st' = st\<lparr>ps_env := c_create (f_factory (traced_ops ops)) E1 (it_shard it), ps_queue := q,
      ps_running := ps_running st @ [(shard_task cfg it, task_start (shard_task cfg it) (ps_defer st))]\<rparr>"
  have "snd E1 = snd (ps_env st)" using E by (elim disjE exE) (simp_all del: traced_ops_simps)
  then show thesis using q st' by (intro that [of it q]) simp_all
qed

lemma claim_inv:
  assumes "pool_inv cfg defer items st" "claim_item (traced_ops ops) cfg limit st = Some st'"
  shows "pool_inv cfg defer items st'"
  using assms(2)
proof (rule claim_trace)
  fix it q
  assume s: "ps_queue st = it # q" "snd (ps_env st') = snd (ps_env st) @ [EvConsumer (it_shard it)]"
    "ps_defer st' = ps_defer st" "ps_queue st' = q" "ps_outcomes st' = ps_outcomes st"
    "ps_running st' = ps_running st @ [(shard_task cfg it, task_start (shard_task cfg it) (ps_defer st))]"
  have log: "pass_ok cfg defer i (snd (ps_env st')) t \<longleftrightarrow> pass_ok cfg defer i (snd (ps_env st)) t" for i t
    using s(2) by (simp add: pass_ok_def)
  have it: "it \<in> set items" "shard_log (it_shard it) (snd (ps_env st)) = []"
    "pending_of (ps_defer st) (it_shard it) = pending_of defer (it_shard it)" "ps_defer st = None \<longleftrightarrow> defer = None"
    using assms(1) s(1) by (auto simp: pool_inv_def waiting_ok_def)
  have "pass_ok cfg defer it (snd (ps_env st)) (spec_start (shard_task cfg it) defer)"
    using it(2) by (simp add: pass_ok_def)
  moreover have "at_head (shard_task cfg it) (task_start (shard_task cfg it) (ps_defer st)) (ps_defer st) (spec_start (shard_task cfg it) defer)"
    using it(3,4) by (intro at_head_start) simp_all
  ultimately show ?thesis using assms(1) s it(1) unfolding pool_inv_def pass_defs log by auto
qed

lemma pass_ok_append_other:
  assumes "spec_run sh ow s evs = Some s'" "it_shard it \<noteq> sh"
  shows "pass_ok cfg defer it (tr @ evs) = pass_ok cfg defer it tr"
  using shard_log_other [OF assms(1,2)] by (intro ext) (simp add: pass_ok_def)

lemma pass_ok_append_own:
  assumes "pass_ok cfg defer it tr s" "spec_run (it_shard it) (fc_owner cfg) s evs = Some s'"
  shows "pass_ok cfg defer it (tr @ evs) s'"
  using assms shard_log_own [OF assms(2)] by (simp add: pass_ok_def spec_run_append)

text \<open>The steps of one pass leave every other pass where it was.\<close>

lemma waiting_frame:
  assumes "waiting_ok defer tr d it" "it_shard it \<noteq> sh" "spec_run sh ow s evs = Some s'" "same_for_others sh d d'"
  shows "waiting_ok defer (tr @ evs) d' it"
  using assms shard_log_other [OF assms(3,2)] by (simp add: waiting_ok_def same_for_others_def)

lemma running_frame:
  assumes "running_ok cfg defer items tr d (task, vars)" "t_shard task \<noteq> sh" "spec_run sh ow s evs = Some s'" "same_for_others sh d d'"
  shows "running_ok cfg defer items (tr @ evs) d' (task, vars)"
proof -
  from assms(1) obtain it s0 where it: "it \<in> set items" "task = shard_task cfg it" "pass_ok cfg defer it tr s0" "at_head task vars d s0"
    by (auto simp: running_ok_def)
  from it(2,3) assms(2) have "pass_ok cfg defer it (tr @ evs) s0" by (simp add: pass_ok_append_other [OF assms(3)])
  with it(1,2) at_head_frame [OF it(4) assms(4,2)] show ?thesis unfolding running_ok_def by blast
qed

lemma finished_frame:
  assumes "finished_ok cfg defer items tr (k, out)" "k \<noteq> sh" "spec_run sh ow s evs = Some s'"
  shows "finished_ok cfg defer items (tr @ evs) (k, out)"
  using assms(1,2) unfolding finished_ok_def by (clarsimp) (metis pass_ok_append_other [OF assms(3)])

text \<open>The shard of a running pass is in no other slot of the pool.\<close>

lemma shard_in_one_slot:
  assumes "\<forall>sh. count (pool_shards st) sh \<le> 1" "i < length (ps_running st)" "ps_running st ! i = (task, vars)"
  defines "rest \<equiv> take i (ps_running st) @ drop (Suc i) (ps_running st)"
  shows "it \<in> set (ps_queue st) \<Longrightarrow> it_shard it \<noteq> t_shard task" and "(task', vars') \<in> set rest \<Longrightarrow> t_shard task' \<noteq> t_shard task"
    and "(sh, out) \<in> set (ps_outcomes st) \<Longrightarrow> sh \<noteq> t_shard task"
proof -
  have "mset (map (\<lambda>(t, v). t_shard t) (ps_running st)) = add_mset (t_shard task) (mset (map (\<lambda>(t, v). t_shard t) rest))"
    using mset_map_remove_nth [OF assms(2), of "\<lambda>(t, v). t_shard t"] assms(3) by (simp add: rest_def)
  with assms(1) [rule_format, of "t_shard task"]
  have "t_shard task \<notin># mset (map it_shard (ps_queue st)) + mset (map (\<lambda>(t, v). t_shard t) rest) + mset (map fst (ps_outcomes st))"
    unfolding pool_shards_def by (simp add: count_eq_zero_iff)
  then show "it \<in> set (ps_queue st) \<Longrightarrow> it_shard it \<noteq> t_shard task" and "(task', vars') \<in> set rest \<Longrightarrow> t_shard task' \<noteq> t_shard task"
    and "(sh, out) \<in> set (ps_outcomes st) \<Longrightarrow> sh \<noteq> t_shard task" by force+
qed

text \<open>One turn of a running pass: its own protocol advances, all other passes are where they were.\<close>

lemma turn_frame:
  assumes inv: "pool_inv cfg defer items st" and d: "\<forall>sh. count (pool_shards st) sh \<le> 1"
    and i: "i < length (ps_running st)" "ps_running st ! i = (task, vars)"
    and t: "task_turn (traced_ops ops) task vars (ps_defer st) (ps_env st) = (E', defer', r)"
  shows "defer' = None \<longleftrightarrow> defer = None" and "\<forall>it \<in> set (ps_queue st). waiting_ok defer (snd E') defer' it"
    and "\<forall>rn \<in> set (take i (ps_running st) @ drop (Suc i) (ps_running st)). running_ok cfg defer items (snd E') defer' rn"
    and "\<forall>oc \<in> set (ps_outcomes st). finished_ok cfg defer items (snd E') oc"
    and "case r of Inl res \<Rightarrow> finished_ok cfg defer items (snd E') (t_shard task, pass_outcome res)
           | Inr vars' \<Rightarrow> running_ok cfg defer items (snd E') defer' (task, vars')"
proof -
  have "(task, vars) \<in> set (ps_running st)" using i by (metis nth_mem)
  then have "running_ok cfg defer items (snd (ps_env st)) (ps_defer st) (task, vars)" using inv by (simp add: pool_inv_def)
  then obtain it s where it: "it \<in> set items" "task = shard_task cfg it" "pass_ok cfg defer it (snd (ps_env st)) s"
    "at_head task vars (ps_defer st) s" by (auto simp: running_ok_def)
  obtain evs s' where E': "snd E' = snd (ps_env st) @ evs" and run: "spec_run (it_shard it) (fc_owner cfg) s evs = Some s'"
    and fin: "case r of Inl res \<Rightarrow> spec_final res s' | Inr vars' \<Rightarrow> at_head task vars' defer' s'"
    using task_turn_spec [OF t it(4)] it(2) by auto
  have fr: "same_for_others (it_shard it) (ps_defer st) defer'" using task_turn_frame [OF t] it(2) by simp
  have sh: "t_shard task = it_shard it" using it(2) by simp
  note one = shard_in_one_slot [OF d i, unfolded sh]
  show "defer' = None \<longleftrightarrow> defer = None" using fr inv by (simp add: same_for_others_def pool_inv_def)
  show "\<forall>it \<in> set (ps_queue st). waiting_ok defer (snd E') defer' it"
    using inv waiting_frame [OF _ one(1) run fr] by (simp add: pool_inv_def E')
  show "\<forall>rn \<in> set (take i (ps_running st) @ drop (Suc i) (ps_running st)). running_ok cfg defer items (snd E') defer' rn"
  proof clarify
    fix t v assume m: "(t, v) \<in> set (take i (ps_running st) @ drop (Suc i) (ps_running st))"
    then have "(t, v) \<in> set (ps_running st)" by (auto dest: in_set_takeD in_set_dropD)
    with inv running_frame [OF _ one(2) [OF m] run fr] show "running_ok cfg defer items (snd E') defer' (t, v)"
      by (simp add: pool_inv_def E')
  qed
  show "\<forall>oc \<in> set (ps_outcomes st). finished_ok cfg defer items (snd E') oc"
    using inv finished_frame [OF _ one(3) run] by (fastforce simp: pool_inv_def E')
  show "case r of Inl res \<Rightarrow> finished_ok cfg defer items (snd E') (t_shard task, pass_outcome res)
      | Inr vars' \<Rightarrow> running_ok cfg defer items (snd E') defer' (task, vars')"
    using fin pass_ok_append_own [OF it(3) run] it(1,2) unfolding running_ok_def finished_ok_def E' by (cases r) auto
qed

lemma turn_inv:
  assumes inv: "pool_inv cfg defer items st" and d: "\<forall>sh. count (pool_shards st) sh \<le> 1"
    and t: "turn_task (traced_ops ops) i st = Some st'"
  shows "pool_inv cfg defer items st'"
  using t
proof (cases rule: turn_taskE)
  case (continues task vars E' defer' vars')
  note turn_frame [OF inv d continues(1-3)]
  moreover have "set ((ps_running st)[i := (task, vars')]) = insert (task, vars') (set (take i (ps_running st) @ drop (Suc i) (ps_running st)))"
    using continues(1) by (simp add: upd_conv_take_nth_drop)
  ultimately show ?thesis using inv continues(4) unfolding pool_inv_def by simp
next
  case (ends task vars E' defer' res)
  from turn_frame [OF inv d ends(1-3)] inv ends(4) show ?thesis unfolding pool_inv_def by simp
qed

lemma pool_exec_protocol:
  assumes "pool_exec (traced_ops ops) cfg limit acts (pool_start defer items (e, [])) = Some st" "distinct (map it_shard items)"
  shows "pool_inv cfg defer items st"
proof -
  let ?I = "\<lambda>st. pool_inv cfg defer items st \<and> (\<forall>sh. count (pool_shards st) sh \<le> 1)"
  have "count (mset (map it_shard items)) sh \<le> 1" for sh
    using assms(2) unfolding distinct_count_atmost_1 by simp
  then have "?I (pool_start defer items (e, []))" by (simp add: pool_inv_def pool_start_def pool_shards_def waiting_ok_def)
  moreover have "?I st'" if "?I st" "pool_step (traced_ops ops) cfg limit a st = Some st'" for a st st'
  proof
    show "pool_inv cfg defer items st'"
      using that claim_inv turn_inv by (cases a) (simp_all, blast+)
    show "\<forall>sh. count (pool_shards st') sh \<le> 1" using that(1) pool_step_shards [OF that(2)] by simp
  qed
  ultimately show ?thesis using pool_exec_inv [OF assms(1), of ?I] by blast
qed

section \<open>Properties\<close>


text \<open>Two shards on one pool worker, each drained in one turn.\<close>

definition two_shard_env :: FakeEnv where
  "two_shard_env = fake_env\<lparr>fk_data := [''s'' \<mapsto> [fake_record ''11''], ''u'' \<mapsto> []]\<rparr>"

definition two_items :: "PoolItem list" where
  "two_items =
     [\<lparr>it_shard = ''s'', it_counter = 3, it_checkpoint = None, it_enqueued = 0\<rparr>,
      \<lparr>it_shard = ''u'', it_counter = 1, it_checkpoint = None, it_enqueued = 0\<rparr>]"

definition one_worker_config :: FleetConfig where
  "one_worker_config =
     \<lparr>fc_owner = ''w1'', fc_max_leases = 100, fc_lease_duration_ms = 10000, fc_poll_interval_ms = 5, fc_initial_position = InitTrimHorizon\<rparr>"

lemma two_items_run:
  obtains st where "pool_run (traced_ops fake_ops) one_worker_config (Some 1) [Claim, Turn 0, Claim, Turn 0]
      (pool_start None two_items (two_shard_env, [])) = Some st"
    "map fst (ps_outcomes st) = [''s'', ''u'']"
proof -
  have "map_option (map fst \<circ> ps_outcomes) (pool_run (traced_ops fake_ops) one_worker_config (Some 1) [Claim, Turn 0, Claim, Turn 0]
      (pool_start None two_items (two_shard_env, []))) = Some [''s'', ''u'']"
    by code_simp
  then show ?thesis using that by (auto simp: map_option_eq_Some)
qed


text \<open>
  C16 (refinement). Concurrent passes do not break each other's guarantees: in every interleaving
  of the passes over different shards, bounded or not, the calls made for one shard are a
  complete run of the protocol of a single pass (fetch after the last record, deliver what was
  fetched, checkpoint only what was acknowledged under the counter held, flush before
  completion), and the outcome recorded for the shard is the one its run ends with.
\<close>

theorem pool_passes_follow_protocol:
  assumes "pool_run (traced_ops ops) cfg limit acts (pool_start defer items (e, [])) = Some st"
    and "distinct (map it_shard items)" and "it \<in> set items"
  shows "\<exists>s res. spec_run (it_shard it) (fc_owner cfg) (spec_start (shard_task cfg it) defer)
      (shard_log (it_shard it) (snd (ps_env st))) = Some s \<and> spec_final res s \<and>
    (it_shard it, pass_outcome res) \<in> set (ps_outcomes st)"
proof -
  have x: "pool_exec (traced_ops ops) cfg limit acts (pool_start defer items (e, [])) = Some st" "ps_queue st = []" "ps_running st = []"
    using assms(1) by (simp_all add: pool_run_exec)
  from pool_exec_shards [OF x(1)] have "mset (map fst (ps_outcomes st)) = mset (map it_shard items)"
    using x(2,3) by (simp add: pool_shards_def pool_start_def)
  then have "it_shard it \<in> set (map fst (ps_outcomes st))"
    using assms(3) by (metis image_eqI list.set_map set_mset_mset)
  then obtain out where out: "(it_shard it, out) \<in> set (ps_outcomes st)" by auto
  with pool_exec_protocol [OF x(1) assms(2)] obtain it' s res where it': "it' \<in> set items" "it_shard it = it_shard it'"
    "pass_ok cfg defer it' (snd (ps_env st)) s" "spec_final res s" "out = pass_outcome res"
    by (fastforce simp: pool_inv_def finished_ok_def)
  have "it' = it" using it'(1,2) assms(2,3) by (auto simp: distinct_map dest: inj_onD)
  with it' out show ?thesis by (auto simp: pass_ok_def)
qed

theorem pool_passes_follow_protocol_witness:
  "\<exists>st s res. pool_run (traced_ops fake_ops) one_worker_config (Some 1) [Claim, Turn 0, Claim, Turn 0]
      (pool_start None two_items (two_shard_env, [])) = Some st \<and>
    spec_run ''s'' ''w1'' (spec_start (shard_task one_worker_config (hd two_items)) None) (shard_log ''s'' (snd (ps_env st))) = Some s \<and>
    spec_final res s"
proof (rule two_items_run)
  fix st
  assume r: "pool_run (traced_ops fake_ops) one_worker_config (Some 1) [Claim, Turn 0, Claim, Turn 0]
      (pool_start None two_items (two_shard_env, [])) = Some st"
  have "distinct (map it_shard two_items)" "hd two_items \<in> set two_items" by (simp_all add: two_items_def)
  from pool_passes_follow_protocol [OF r this] r show ?thesis by (auto simp: two_items_def one_worker_config_def)
qed



end
