(* ===== verification/Fleet.thy ===== *)
theory Fleet
  imports Fleet_Pool
begin

text \<open>
  The coordination cycle of a fleet worker (\<open>worker/src/fleet.rs\<close>): construction,
  \<open>run_cycle\<close>, \<open>run_until_complete\<close> and the graceful release. The mutable parts of the
  worker (coordinator, leadership, schedule, deferred checkpoints) are passed in and out; the
  interleaving of a cycle's passes is the argument \<open>acts\<close>. \<open>None\<close> stands for a scan that never
  returns or for a list of actions that is not a complete run.
\<close>

section \<open>Construction\<close>

definition fleet_new ::
  "'e AsyncStreamSource \<Rightarrow> 'e AsyncLeaseStore \<Rightarrow> 'e ShardConsumerFactory \<Rightarrow> 'e Runtime \<Rightarrow> FleetConfig \<Rightarrow> 'e fleet_ops \<times> Fleet" where
  "fleet_new source leases factory runtime config =
     (\<lparr>f_source = source, f_leases = leases, f_factory = factory, f_metrics = noop_sink, f_runtime = runtime\<rparr>,
      \<lparr>flt_config = config, flt_sync_state = \<lparr>seeded = False, child_synced = {}\<rparr>,
       flt_processing_limit = None, flt_ckpt_defer = None, flt_sched = Map.empty\<rparr>)"

definition with_metrics :: "'e MetricsSink \<Rightarrow> 'e fleet_ops \<times> Fleet \<Rightarrow> 'e fleet_ops \<times> Fleet" where
  "with_metrics metrics = map_prod (f_metrics_update (\<lambda>_. metrics)) id"

definition with_max_processing_concurrency :: "nat option \<Rightarrow> Fleet \<Rightarrow> Fleet" where
  "with_max_processing_concurrency max_opt fleet =
     fleet\<lparr>flt_processing_limit := (case max_opt of Some k \<Rightarrow> if k \<ge> 1 then Some k else None | None \<Rightarrow> None)\<rparr>"

definition set_max_processing_concurrency :: "nat \<Rightarrow> Fleet \<Rightarrow> Fleet" where
  "set_max_processing_concurrency target fleet =
     (case flt_processing_limit fleet of
        None \<Rightarrow> fleet
      | Some _ \<Rightarrow> fleet\<lparr>flt_processing_limit := Some (max target 1)\<rparr>)"

definition with_checkpoint_interval :: "u64 option \<Rightarrow> Fleet \<Rightarrow> Fleet" where
  "with_checkpoint_interval interval_ms fleet =
     fleet\<lparr>flt_ckpt_defer :=
       (case interval_ms of
          Some ms \<Rightarrow> if ms \<ge> 1 then Some \<lparr>defer_interval = from_millis ms, defer_state = Map.empty\<rparr> else None
        | None \<Rightarrow> None)\<rparr>"

section \<open>One cycle\<close>

text \<open>Leadership and the leader's duties; \<open>Inl\<close> where the discovery fails.\<close>

definition leader_phase ::
  "(string list \<Rightarrow> string list) \<Rightarrow> 'e fleet_ops \<Rightarrow> RawLease list \<Rightarrow> u64 \<Rightarrow> Leadership \<Rightarrow> Fleet \<Rightarrow> 'e \<Rightarrow>
   'e \<times> Leadership \<times> Fleet \<times> (WorkerError + unit)" where
  "leader_phase ord ops rows now_ms ld fleet e =
     (case leadership_step ord (f_leases ops) rows now_ms ld e of
        (e1, ld1, False) \<Rightarrow> (e1, ld1, fleet, Inr ())
      | (e1, ld1, True) \<Rightarrow>
          (case leader_shard_sync ord ops rows fleet e1 of
             (e2, fleet2, Inl err) \<Rightarrow> (e2, ld1, fleet2, Inl err)
           | (e2, fleet2, Inr _) \<Rightarrow> (cleanup_completed_leases (f_leases ops) rows e2, ld1, fleet2, Inr ())))"

fun claim_leases :: "'e fleet_ops \<Rightarrow> string \<Rightarrow> string list \<Rightarrow> 'e \<Rightarrow> 'e" where
  "claim_leases ops owner [] e = e"
| "claim_leases ops owner (key # keys) e =
     (case l_acquire (f_leases ops) e key owner of
        (e1, Inr _) \<Rightarrow> claim_leases ops owner keys (on_lease_acquired (f_metrics ops) e1 key)
      | (e1, Inl _) \<Rightarrow> claim_leases ops owner keys e1)"

definition is_shard_row :: "RawLease \<Rightarrow> bool" where
  "is_shard_row r \<longleftrightarrow> rl_key r \<noteq> LEADER_LEASE_KEY \<and> \<not> is_heartbeat_key (rl_key r)"

definition is_owned :: "string \<Rightarrow> RawLease \<Rightarrow> bool" where
  "is_owned owner r \<longleftrightarrow> rl_owner r = Some owner \<and> \<not> rl_completed r"

definition owned_leases :: "string \<Rightarrow> RawLease list \<Rightarrow> (ShardId \<rightharpoonup> u64 \<times> string option)" where
  "owned_leases owner rows =
     map_of (rev (map (\<lambda>r. (rl_key r, (rl_counter r, rl_checkpoint r))) (filter (is_owned owner) rows)))"

definition prune_defer :: "(ShardId \<rightharpoonup> u64 \<times> string option) \<Rightarrow> CkptDefer \<Rightarrow> CkptDefer" where
  "prune_defer owned d = d\<lparr>defer_state := (\<lambda>s. if owned s = None then None else defer_state d s)\<rparr>"

definition eligible_owned ::
  "(ShardId \<rightharpoonup> u64 \<times> string option) \<Rightarrow> ShardId set \<Rightarrow> ShardId set \<Rightarrow> ShardMeta list \<Rightarrow> owned_shard list" where
  "eligible_owned owned completed existing shards =
     List.map_filter (\<lambda>m. case owned (meta_id m) of
         None \<Rightarrow> None
       | Some cc \<Rightarrow> if \<not> eligible m completed existing then None else Some (meta_id m, cc)) shards"

text \<open>Steps 2 and 3: the owned shards of the last scan and their passes.\<close>

definition process_phase ::
  "'e fleet_ops \<Rightarrow> pool_act list \<Rightarrow> RawLease list \<Rightarrow> Fleet \<Rightarrow> 'e \<Rightarrow> ('e \<times> Fleet \<times> bool) option" where
  "process_phase ops acts rows fleet e =
     (let cfg = flt_config fleet; owner = fc_owner cfg; owned = owned_leases owner rows;
          e1 = on_leases_held (f_metrics ops) e (of_nat (length (remdups (map rl_key (filter (is_owned owner) rows)))));
          fleet1 = fleet\<lparr>flt_ckpt_defer := map_option (prune_defer owned) (flt_ckpt_defer fleet)\<rparr>;
          e2 = (case flt_processing_limit fleet of
                  None \<Rightarrow> e1 | Some m \<Rightarrow> on_max_processing_concurrency (f_metrics ops) e1 (of_nat m));
          completed = completed_keys rows;
          shards = shard_metas_from_leases rows
      in if shards \<noteq> [] \<and> (\<forall>m \<in> set shards. meta_id m \<in> completed) then Some (e2, fleet1, True)
         else
           let (e3, now) = rt_now (f_runtime ops) e2;
               eo = eligible_owned owned completed (meta_id ` set shards) shards
           in (case flt_processing_limit fleet of
                 None \<Rightarrow>
                   (case pool_run ops cfg None acts (pool_start (flt_ckpt_defer fleet1) (map (pool_item now) eo) e3) of
                      None \<Rightarrow> None
                    | Some st \<Rightarrow> Some (ps_env st, fleet1\<lparr>flt_ckpt_defer := ps_defer st\<rparr>, False))
               | Some m \<Rightarrow>
                   (case run_bounded_pool ops eo (max m 1) now acts fleet1 e3 of
                      None \<Rightarrow> None
                    | Some (e4, fleet4) \<Rightarrow> Some (e4, fleet4, False))))"

record cycle_state =
  cy_coord :: LeaseCoordinator
  cy_ld :: Leadership
  cy_fleet :: Fleet

definition run_cycle ::
  "(string list \<Rightarrow> string list) \<Rightarrow> 'e fleet_ops \<Rightarrow> pool_act list \<Rightarrow> u64 \<Rightarrow> cycle_state \<Rightarrow> 'e \<Rightarrow>
   ('e \<times> cycle_state \<times> (WorkerError + bool)) option" where
  "run_cycle ord ops acts now_ms cy e =
     (case l_list (f_leases ops) e of
        None \<Rightarrow> None
      | Some (e1, Inl err) \<Rightarrow> Some (e1, cy, Inl err)
      | Some (e1, Inr rows) \<Rightarrow>
          (case leader_phase ord ops rows now_ms (cy_ld cy) (cy_fleet cy) e1 of
             (e2, ld2, fleet2, Inl err) \<Rightarrow> Some (e2, cy\<lparr>cy_ld := ld2, cy_fleet := fleet2\<rparr>, Inl err)
           | (e2, ld2, fleet2, Inr _) \<Rightarrow>
               let owner = fc_owner (flt_config fleet2);
                   cy2 = cy\<lparr>cy_ld := ld2, cy_fleet := fleet2\<rparr>;
                   e3 = fst (l_heartbeat (f_leases ops) e2 owner)
               in (case l_list (f_leases ops) e3 of
                     None \<Rightarrow> None
                   | Some (e4, Inl err) \<Rightarrow> Some (e4, cy2, Inl err)
                   | Some (e4, Inr rows4) \<Rightarrow>
                       let (coord', keys) =
                             tick ord (cy_coord cy) (filter (\<lambda>r. rl_key r \<noteq> LEADER_LEASE_KEY) rows4) now_ms;
                           cy3 = cy2\<lparr>cy_coord := coord'\<rparr>;
                           e5 = claim_leases ops owner keys e4
                       in (case l_list (f_leases ops) e5 of
                             None \<Rightarrow> None
                           | Some (e6, Inl err) \<Rightarrow> Some (e6, cy3, Inl err)
                           | Some (e6, Inr rows6) \<Rightarrow>
                               (case process_phase ops acts (filter is_shard_row rows6) fleet2 e6 of
                                  None \<Rightarrow> None
                                | Some (e7, fleet7, done) \<Rightarrow> Some (e7, cy3\<lparr>cy_fleet := fleet7\<rparr>, Inr done))))))"

text \<open>\<open>acts i\<close> is the interleaving of the passes of the \<open>i\<close>-th cycle from the end.\<close>

fun run_cycles ::
  "(string list \<Rightarrow> string list) \<Rightarrow> 'e fleet_ops \<Rightarrow> (nat \<Rightarrow> pool_act list) \<Rightarrow> Instant \<Rightarrow> nat \<Rightarrow> cycle_state \<Rightarrow> 'e \<Rightarrow>
   ('e \<times> cycle_state \<times> (WorkerError + unit)) option" where
  "run_cycles ord ops acts start 0 cy e = Some (e, cy, Inr ())"
| "run_cycles ord ops acts start (Suc n) cy e =
     (let (e1, now) = rt_now (f_runtime ops) e in
      case run_cycle ord ops (acts n) (as_millis (now - start)) cy e1 of
        None \<Rightarrow> None
      | Some (e2, cy2, Inl err) \<Rightarrow> Some (e2, cy2, Inl err)
      | Some (e2, cy2, Inr True) \<Rightarrow> Some (e2, cy2, Inr ())
      | Some (e2, cy2, Inr False) \<Rightarrow> run_cycles ord ops acts start n cy2 e2)"

definition run_until_complete ::
  "(string list \<Rightarrow> string list) \<Rightarrow> 'e fleet_ops \<Rightarrow> (nat \<Rightarrow> pool_act list) \<Rightarrow> nat \<Rightarrow> Fleet \<Rightarrow> 'e \<Rightarrow>
   ('e \<times> cycle_state \<times> (WorkerError + unit)) option" where
  "run_until_complete ord ops acts max_cycles fleet e =
     (let cfg = flt_config fleet;
          cy = \<lparr>cy_coord = coordinator_new (fc_owner cfg) (fc_max_leases cfg) (fc_lease_duration_ms cfg),
                cy_ld = leadership_new (fc_owner cfg) (fc_lease_duration_ms cfg), cy_fleet = fleet\<rparr>;
          (e1, start) = rt_now (f_runtime ops) e
      in run_cycles ord ops acts start max_cycles cy e1)"

section \<open>Shutdown\<close>

definition owned_shards :: "'e fleet_ops \<Rightarrow> Fleet \<Rightarrow> 'e \<Rightarrow> ('e \<times> (WorkerError + ShardId list)) option" where
  "owned_shards ops fleet e =
     (case l_list (f_leases ops) e of
        None \<Rightarrow> None
      | Some (e1, Inl err) \<Rightarrow> Some (e1, Inl err)
      | Some (e1, Inr rows) \<Rightarrow>
          Some (e1, Inr (map rl_key
            (filter (\<lambda>r. is_owned (fc_owner (flt_config fleet)) r \<and> rl_key r \<noteq> LEADER_LEASE_KEY) rows))))"

text \<open>The body of the release loop for an owned row: flush the pending acknowledgement, then release.\<close>

definition release_row :: "'e fleet_ops \<Rightarrow> string \<Rightarrow> RawLease \<Rightarrow> CkptDefer option \<Rightarrow> 'e \<Rightarrow> 'e \<times> CkptDefer option \<times> bool" where
  "release_row ops owner r defer e =
     (let key = rl_key r;
          (e1, defer1, counter) =
            (case defer of
               None \<Rightarrow> (e, None, rl_counter r)
             | Some d \<Rightarrow>
                 (case take_pending d key of
                    (d1, None) \<Rightarrow> (e, Some (forget d1 key), rl_counter r)
                  | (d1, Some pending) \<Rightarrow>
                      (case l_checkpoint (f_leases ops) e key owner (rl_counter r) pending of
                         (e1, Inr c) \<Rightarrow> (e1, Some (forget d1 key), c)
                       | (e1, Inl _) \<Rightarrow> (e1, Some (forget d1 key), rl_counter r))))
      in (case l_release (f_leases ops) e1 key owner counter of (e2, res) \<Rightarrow> (e2, defer1, \<not> isl res)))"

fun release_rows ::
  "'e fleet_ops \<Rightarrow> string \<Rightarrow> RawLease list \<Rightarrow> nat \<Rightarrow> CkptDefer option \<Rightarrow> 'e \<Rightarrow> 'e \<times> CkptDefer option \<times> nat" where
  "release_rows ops owner [] released defer e = (e, defer, released)"
| "release_rows ops owner (r # rows) released defer e =
     (if is_owned owner r
      then (case release_row ops owner r defer e of
              (e1, defer1, ok) \<Rightarrow> release_rows ops owner rows (if ok then released + 1 else released) defer1 e1)
      else release_rows ops owner rows released defer e)"

definition release_owned :: "'e fleet_ops \<Rightarrow> Fleet \<Rightarrow> 'e \<Rightarrow> ('e \<times> Fleet \<times> (WorkerError + nat)) option" where
  "release_owned ops fleet e =
     (case l_list (f_leases ops) e of
        None \<Rightarrow> None
      | Some (e1, Inl err) \<Rightarrow> Some (e1, fleet, Inl err)
      | Some (e1, Inr rows) \<Rightarrow>
          (case release_rows ops (fc_owner (flt_config fleet)) rows 0 (flt_ckpt_defer fleet) e1 of
             (e2, defer2, n) \<Rightarrow> Some (e2, fleet\<lparr>flt_ckpt_defer := defer2\<rparr>, Inr n)))"

section \<open>Lemmas\<close>

subsection \<open>The calls of a cycle\<close>

text \<open>Calls that coordinate: no records are fetched or delivered and no consumer is created.\<close>

fun control_event :: "event \<Rightarrow> bool" where
  "control_event (EvGetRecords k a r) = False"
| "control_event (EvDeliver k rs r) = False"
| "control_event (EvCheckpoint k w c q r) = False"
| "control_event (EvMarkComplete k w c r) = False"
| "control_event (EvShardEnded k) = False"
| "control_event (EvLeaseLost k) = False"
| "control_event (EvConsumer k) = False"
| "control_event _ = True"

text \<open>
  A property of logs that no coordinating call destroys is kept by every step of the
  coordination: that all calls so far coordinate, or that a given call has been made.
\<close>

locale log_property =
  fixes keeps :: "event list \<Rightarrow> bool"
  assumes keeps_control: "keeps log \<Longrightarrow> control_event ev \<Longrightarrow> keeps (log @ [ev])"
begin

lemma keeps_append: "keeps log \<Longrightarrow> (\<And>ev. ev \<in> set evs \<Longrightarrow> control_event ev) \<Longrightarrow> keeps (log @ evs)"
proof (induction evs arbitrary: log)
  case (Cons ev evs)
  from Cons.IH [OF keeps_control [OF Cons.prems(1)]] Cons.prems(2) show ?case by simp
qed simp

lemma keepsI:
  assumes "snd E' = snd E @ evs" "keeps (snd E)" "\<And>ev. ev \<in> set evs \<Longrightarrow> control_event ev"
  shows "keeps (snd E')"
  using keeps_append [OF assms(2,3)] assms(1) by simp

lemma traced_keeps: "traced ev f E = (E', r) \<Longrightarrow> keeps (snd E) \<Longrightarrow> (\<And>r. control_event (ev r)) \<Longrightarrow> keeps (snd E')"
  by (drule traced_result) (simp add: keeps_control)

lemma leadership_control:
  assumes "leadership_step ord (traced_leases L) rows now ld E = (E', ld', b)" "keeps (snd E)"
  shows "keeps (snd E')"
  using assms
  by (auto simp: leadership_step_def traced_leases_def Let_def dest!: traced_keeps
      split: prod.splits if_splits sum.splits option.splits)

lemma publish_control:
  assumes "keeps (snd E)"
  shows "keeps (snd (publish_leases (traced_leases L) want cp ms E))"
proof (rule publish_events [of L want cp ms E])
  fix evs assume log: "snd (publish_leases (traced_leases L) want cp ms E) = snd E @ evs"
    and ev: "\<And>ev. ev \<in> set evs \<Longrightarrow> \<exists>m r. m \<in> set ms \<and> want m \<and> ev = EvCreate (meta_id m) (meta_parents m) (cp (meta_parents m)) r"
  from log assms show ?thesis
  proof (rule keepsI)
    fix x assume "x \<in> set evs"
    from ev [OF this] show "control_event x" by (elim exE conjE) simp
  qed
qed

lemma describe_control:
  assumes "keeps (snd E)"
  shows "s_describe_child_shards (traced_source S) E p = (E', r) \<Longrightarrow> keeps (snd E')"
    and "s_describe_shards (traced_source S) E = (E', r) \<Longrightarrow> keeps (snd E')"
    and "keeps (snd (on_describe_stream (carried_metrics M) E))"
  using assms by (simp_all add: traced_source_def carried_metrics_def traced_keeps)

lemma sync_parents_control:
  assumes "sync_parents (traced_ops ops) rows synced ps newly E = (E', newly')" "keeps (snd E)"
  shows "keeps (snd E')"
  using assms
proof (induction ps arbitrary: newly E)
  case (Cons p ps)
  let ?M = "carried_metrics (f_metrics ops)" and ?S = "traced_source (f_source ops)"
  obtain E2 r where d: "s_describe_child_shards ?S (on_describe_stream ?M E) p = (E2, r)" by fastforce
  have 2: "keeps (snd E2)" by (rule describe_control(1) [OF describe_control(3) [OF Cons.prems(2)] d])
  obtain E3 r3 where d3: "s_describe_shards ?S (on_describe_stream ?M E2) = (E3, r3)" by fastforce
  have 3: "keeps (snd E3)" by (rule describe_control(2) [OF describe_control(3) [OF 2] d3])
  from Cons.prems(1) d d3 Cons.prems(2) 3 publish_control [OF 2] publish_control [OF 3] Cons.IH show ?case
    by (auto simp: traced_ops_def Let_def split: if_splits sum.splits)
qed simp

lemma cleanup_control:
  assumes "keeps (snd E)"
  shows "keeps (snd (cleanup_completed_leases (traced_leases L) rows E))"
proof -
  obtain rs where "snd (cleanup_completed_leases (traced_leases L) rows E) =
      snd E @ map2 EvDelete (leases_safe_to_delete (shard_metas_from_leases rows) (cleanup_state rows)) rs"
    using cleanup_trace unfolding cleanup_completed_leases_def by blast
  then show ?thesis using assms by (rule keepsI) auto
qed

lemma leader_shard_sync_control:
  assumes "leader_shard_sync ord (traced_ops ops) rows fleet E = (E', fleet', res)" "keeps (snd E)"
  shows "keeps (snd E')" and "flt_config fleet' = flt_config fleet"
proof -
  let ?M = "carried_metrics (f_metrics ops)" and ?S = "traced_source (f_source ops)"
  obtain E1 r where d: "s_describe_shards ?S (on_describe_stream ?M E) = (E1, r)" by fastforce
  have 1: "keeps (snd E1)" by (rule describe_control(2) [OF describe_control(3) [OF assms(2)] d])
  obtain E2 newly where p: "sync_parents (traced_ops ops) rows (child_synced (flt_sync_state fleet))
      (ord (remdups (map rl_key (filter rl_completed rows)))) [] E = (E2, newly)" by fastforce
  have 2: "keeps (snd E2)" by (rule sync_parents_control [OF p assms(2)])
  have src: "f_source (traced_ops ops) = ?S" "f_metrics (traced_ops ops) = ?M" "f_leases (traced_ops ops) = traced_leases (f_leases ops)"
    by (simp_all add: traced_ops_def)
  from assms(1) d p 1 2 publish_control [OF 1] show "keeps (snd E')"
    unfolding leader_shard_sync_def Let_def src by (auto split: if_splits sum.splits)
  from assms(1) d p show "flt_config fleet' = flt_config fleet"
    unfolding leader_shard_sync_def Let_def src by (auto split: if_splits sum.splits)
qed

lemma leader_phase_control:
  assumes "leader_phase ord (traced_ops ops) rows now ld fleet E = (E', ld', fleet', res)" "keeps (snd E)"
  shows "keeps (snd E')" and "flt_config fleet' = flt_config fleet"
proof -
  have src: "f_leases (traced_ops ops) = traced_leases (f_leases ops)" by (simp add: traced_ops_def)
  obtain E1 ld1 b where s: "leadership_step ord (traced_leases (f_leases ops)) rows now ld E = (E1, ld1, b)" by (metis prod_cases3)
  have 1: "keeps (snd E1)" by (rule leadership_control [OF s assms(2)])
  obtain E2 fleet2 r where y: "leader_shard_sync ord (traced_ops ops) rows fleet E1 = (E2, fleet2, r)" by (metis prod_cases3)
  note 2 = leader_shard_sync_control [OF y 1]
  from assms(1) s y 1 2 cleanup_control [OF 2(1)] show "keeps (snd E')" "flt_config fleet' = flt_config fleet"
    unfolding leader_phase_def src by (cases b; cases r; auto)+
qed

lemma claim_leases_control:
  assumes "keeps (snd E)"
  shows "keeps (snd (claim_leases (traced_ops ops) owner keys E))"
  using assms
proof (induction keys arbitrary: E)
  case (Cons key keys)
  obtain E1 r where a: "l_acquire (traced_leases (f_leases ops)) E key owner = (E1, r)" by fastforce
  then have 1: "keeps (snd E1)" using Cons.prems by (simp add: traced_leases_def traced_keeps)
  then have 2: "keeps (snd (on_lease_acquired (carried_metrics (f_metrics ops)) E1 key))"
    by (simp add: carried_metrics_def)
  from a Cons.IH [OF 1] Cons.IH [OF 2] show ?case by (auto simp: traced_ops_def split: sum.splits)
qed simp

lemma list_control:
  assumes "l_list (traced_leases L) E = Some (E', r)" "keeps (snd E)"
  shows "keeps (snd E') \<and> snd E' = snd E @ [EvList r]"
  using assms by (auto simp: traced_leases_def keeps_control split: option.splits)

lemma heartbeat_control: "keeps (snd E) \<Longrightarrow> keeps (snd (fst (l_heartbeat (traced_leases L) E w)))"
  by (simp add: traced_leases_def keeps_control)

end

interpretation coordinating: log_property "\<lambda>log. \<forall>ev \<in> set log. control_event ev"
  by unfold_locales auto

interpretation made: log_property "\<lambda>log. x \<in> set log" for x
  by unfold_locales simp

subsection \<open>The calls of the passes\<close>

lemma task_turn_events:
  assumes "task_turn (traced_ops ops) task vars d E = (E', d', r)"
  shows "\<exists>evs. snd E' = snd E @ evs \<and> (\<forall>ev \<in> set evs. task_event (t_shard task) ev)"
proof -
  let ?s = "\<lparr>sp_phase = Start, sp_after = fst vars, sp_counter = fst (snd vars), sp_pending = pending_of d (t_shard task),
    sp_batch = None, sp_eager = (d = None)\<rparr>"
  have "at_head task vars d ?s" by (auto simp: at_head_def may_fetch_def)
  from task_turn_spec [OF assms this] show ?thesis using spec_run_events by blast
qed

text \<open>The calls of a run of passes belong to the queued shards.\<close>

definition pass_events :: "ShardId set \<Rightarrow> event list \<Rightarrow> bool" where
  "pass_events S evs \<longleftrightarrow> (\<forall>ev \<in> set evs. \<exists>sh \<in> S. ev = EvConsumer sh \<or> task_event sh ev)"

lemma pool_exec_events:
  assumes "pool_exec (traced_ops ops) cfg limit acts st = Some st'"
    and "\<forall>(t, v) \<in> set (ps_running st). t_shard t \<in> S" "it_shard ` set (ps_queue st) \<subseteq> S"
  shows "\<exists>evs. snd (ps_env st') = snd (ps_env st) @ evs \<and> pass_events S evs"
  using assms
proof (induction acts arbitrary: st)
  case Nil
  then show ?case by (simp add: pass_events_def)
next
  case (Cons a acts)
  then obtain st1 where s: "pool_step (traced_ops ops) cfg limit a st = Some st1" "pool_exec (traced_ops ops) cfg limit acts st1 = Some st'"
    by (auto split: option.splits)
  have "(\<exists>evs. snd (ps_env st1) = snd (ps_env st) @ evs \<and> pass_events S evs) \<and>
      (\<forall>(t, v) \<in> set (ps_running st1). t_shard t \<in> S) \<and> it_shard ` set (ps_queue st1) \<subseteq> S"
  proof (cases a)
    case Claim
    with s(1) have "claim_item (traced_ops ops) cfg limit st = Some st1" by simp
    then show ?thesis by (rule claim_trace) (use Cons.prems(2,3) in \<open>auto simp: pass_events_def\<close>)
  next
    case (Turn i)
    with s(1) have "turn_task (traced_ops ops) i st = Some st1" by simp
    then show ?thesis
    proof (cases rule: turn_taskE)
      case (continues task vars e' defer' vars')
      have m: "(task, vars) \<in> set (ps_running st)" using continues(1,2) by (metis nth_mem)
      with Cons.prems(2) have "t_shard task \<in> S" by blast
      moreover from this obtain evs where "snd e' = snd (ps_env st) @ evs" "pass_events S evs"
        using task_turn_events [OF continues(3)] by (auto simp: pass_events_def)
      moreover have "\<forall>(t, v) \<in> set ((ps_running st)[i := (task, vars')]). t_shard t \<in> S"
        using \<open>t_shard task \<in> S\<close> Cons.prems(2) set_update_subset_insert [of "ps_running st" i "(task, vars')"] by blast
      ultimately show ?thesis using continues(4) Cons.prems(3) by simp
    next
      case (ends task vars e' defer' res)
      have m: "(task, vars) \<in> set (ps_running st)" using ends(1,2) by (metis nth_mem)
      with Cons.prems(2) have "t_shard task \<in> S" by blast
      then obtain evs where "snd e' = snd (ps_env st) @ evs" "pass_events S evs"
        using task_turn_events [OF ends(3)] by (auto simp: pass_events_def)
      moreover have "\<forall>(t, v) \<in> set (take i (ps_running st) @ drop (Suc i) (ps_running st)). t_shard t \<in> S"
        using Cons.prems(2) by (auto dest: in_set_takeD in_set_dropD)
      ultimately show ?thesis using ends(4) Cons.prems(3) by simp
    qed
  qed
  with Cons.IH [OF s(2)] show ?case by (auto simp: pass_events_def)
qed

subsection \<open>What may be processed\<close>

text \<open>
  The shards a scan allows a worker to process: leased to it, not completed, every parent
  completed or without a lease.
\<close>

definition may_process :: "string \<Rightarrow> RawLease list \<Rightarrow> ShardId set" where
  "may_process me rows =
     {rl_key r | r. r \<in> set rows \<and> is_shard_row r \<and> (\<exists>r' \<in> set rows. rl_key r' = rl_key r \<and> is_owned me r') \<and>
        rl_key r \<notin> completed_keys (filter is_shard_row rows) \<and>
        (\<forall>p \<in> set (rl_parents r). p \<in> completed_keys (filter is_shard_row rows) \<or> p \<notin> existing_keys (filter is_shard_row rows))}"

lemma owned_leases_row: "owned_leases me rows k = Some cc \<Longrightarrow> \<exists>r \<in> set rows. rl_key r = k \<and> is_owned me r"
  by (auto simp: owned_leases_def dest!: map_of_SomeD)

lemma eligible_owned_sound:
  assumes "sh \<in> fst ` set (eligible_owned (owned_leases me (filter is_shard_row rows)) (completed_keys (filter is_shard_row rows))
    (meta_id ` set (shard_metas_from_leases (filter is_shard_row rows))) (shard_metas_from_leases (filter is_shard_row rows)))"
  shows "sh \<in> may_process me rows"
proof -
  let ?rows = "filter is_shard_row rows" and ?ms = "shard_metas_from_leases (filter is_shard_row rows)"
  from assms obtain m cc where m: "m \<in> set ?ms" "sh = meta_id m" "owned_leases me ?rows (meta_id m) = Some cc"
    "eligible m (completed_keys ?rows) (meta_id ` set ?ms)"
    by (auto simp: eligible_owned_def List.map_filter_def split: option.splits if_splits)
  have ms: "?ms = map (\<lambda>r. \<lparr>meta_id = rl_key r, meta_parents = rl_parents r\<rparr>) ?rows"
    by (simp add: shard_metas_from_leases_def is_shard_row_def [abs_def])
  then have ex: "meta_id ` set ?ms = existing_keys ?rows" by (simp add: existing_keys_def image_image)
  from m(1) ms obtain r where r: "r \<in> set rows" "is_shard_row r" "meta_id m = rl_key r" "meta_parents m = rl_parents r" by auto
  with m owned_leases_row [OF m(3)] show ?thesis unfolding may_process_def ex eligible_def by auto
qed

lemma pool_item_shard [simp]: "it_shard (pool_item now o1) = fst o1"
  by (simp add: pool_item_def split: prod.splits)

lemma refresh_due_shards: "it_shard ` set (snd (refresh_sched now owned sched due)) \<subseteq> fst ` set owned \<union> it_shard ` set due"
proof (induction owned arbitrary: sched due)
  case (Cons o1 os)
  let ?due = "if due_at (sched_entry sched now (fst o1)) \<le> now then due @ [pool_item now o1] else due"
  have "it_shard ` set ?due \<subseteq> insert (fst o1) (it_shard ` set due)" by auto
  with Cons.IH [of "sched(fst o1 \<mapsto> sched_entry sched now (fst o1))" ?due]
  have "it_shard ` set (snd (refresh_sched now os (sched(fst o1 \<mapsto> sched_entry sched now (fst o1))) ?due))
      \<subseteq> insert (fst o1) (fst ` set os \<union> it_shard ` set due)" by blast
  then show ?case unfolding refresh_sched.simps Let_def by (simp only: list.set image_insert Un_insert_left)
qed simp

lemma run_bounded_pool_events:
  assumes "run_bounded_pool (traced_ops ops) owned k now acts fleet E = Some (E', fleet')" "fst ` set owned \<subseteq> S"
  shows "\<exists>evs. snd E' = snd E @ evs \<and> pass_events S evs"
proof -
  obtain sched due where r: "refresh_sched now owned ((flt_sched fleet) |` (fst ` set owned)) [] = (sched, due)" by fastforce
  have due: "it_shard ` set due \<subseteq> S"
    using refresh_due_shards [of now owned "(flt_sched fleet) |` (fst ` set owned)" "[]"] r assms(2) by simp
  show ?thesis
  proof (cases "due = []")
    case True
    let ?E1 = "on_processing_queue_depth (f_metrics (traced_ops ops)) E 0"
    obtain E2 t where n: "rt_now (f_runtime (traced_ops ops)) ?E1 = (E2, t)" by fastforce
    then have E2: "snd E2 = snd E" using traced_pool_simps(2,3) [of ops] by (metis fst_conv)
    have "E' = ?E1 \<or> (\<exists>w. E' = rt_wait (f_runtime (traced_ops ops)) E2 w)"
      using assms(1) r True n unfolding run_bounded_pool_def Let_def
      by (auto simp del: traced_ops_simps split: option.splits)
    with E2 have "snd E' = snd E" by (elim disjE exE) simp_all
    then show ?thesis by (simp add: pass_events_def)
  next
    case False
    let ?E1 = "on_processing_queue_depth (f_metrics (traced_ops ops)) E (of_nat (length due))"
    obtain st where st: "pool_run (traced_ops ops) (flt_config fleet) (Some k) acts (pool_start (flt_ckpt_defer fleet) due ?E1) = Some st"
      "E' = fst (rt_now (f_runtime (traced_ops ops)) (ps_env st))"
      using assms(1) r False by (auto simp: run_bounded_pool_def Let_def simp del: traced_ops_simps split: option.splits prod.splits)
    have "\<exists>evs. snd (ps_env st) = snd ?E1 @ evs \<and> pass_events S evs"
      using pool_exec_events [of ops "flt_config fleet" "Some k" acts "pool_start (flt_ckpt_defer fleet) due ?E1" st S] st(1) due
      by (simp add: pool_run_exec pool_start_def)
    then show ?thesis unfolding st(2) by (simp del: traced_ops_simps)
  qed
qed

lemma process_phase_events:
  assumes "process_phase (traced_ops ops) acts (filter is_shard_row rows) fleet E = Some (E', fleet', b)"
  shows "\<exists>evs. snd E' = snd E @ evs \<and> pass_events (may_process (fc_owner (flt_config fleet)) rows) evs"
proof -
  let ?rows = "filter is_shard_row rows" and ?me = "fc_owner (flt_config fleet)"
  let ?ms = "shard_metas_from_leases ?rows" and ?O = "owned_leases ?me ?rows"
  let ?S = "may_process ?me rows"
  let ?eo = "eligible_owned ?O (completed_keys ?rows) (meta_id ` set ?ms) ?ms"
  have eo: "fst ` set ?eo \<subseteq> ?S" using eligible_owned_sound by blast
  let ?f = "fleet\<lparr>flt_ckpt_defer := map_option (prune_defer ?O) (flt_ckpt_defer fleet)\<rparr>"
  let ?E1 = "on_leases_held (f_metrics (traced_ops ops)) E (of_nat (length (remdups (map rl_key (filter (is_owned ?me) ?rows)))))"
  let ?E2 = "case flt_processing_limit fleet of None \<Rightarrow> ?E1 | Some m \<Rightarrow> on_max_processing_concurrency (f_metrics (traced_ops ops)) ?E1 (of_nat m)"
  have E2: "snd ?E2 = snd E" by (auto simp: traced_ops_def carried_metrics_def split: option.splits)
  obtain E3 now where n: "rt_now (f_runtime (traced_ops ops)) ?E2 = (E3, now)" by fastforce
  then have E3: "snd E3 = snd E" using E2 traced_pool_simps(3) [of ops ?E2] by (simp del: traced_ops_simps)
  show ?thesis
  proof (cases "?ms \<noteq> [] \<and> (\<forall>m \<in> set ?ms. meta_id m \<in> completed_keys ?rows)")
    case True
    with assms have "E' = ?E2" by (auto simp add: process_phase_def Let_def simp del: traced_ops_simps filter_filter)
    with E2 show ?thesis by (simp add: pass_events_def)
  next
    case F: False
    show ?thesis
    proof (cases "flt_processing_limit fleet")
      case None
      obtain st where st: "pool_run (traced_ops ops) (flt_config fleet) None acts
          (pool_start (flt_ckpt_defer ?f) (map (pool_item now) ?eo) E3) = Some st" "E' = ps_env st"
        using assms F None n unfolding process_phase_def Let_def by (auto simp del: traced_ops_simps filter_filter split: option.splits)
      have "it_shard ` set (map (pool_item now) ?eo) \<subseteq> ?S" using eo by (auto simp: pool_item_def)
      with pool_exec_events [of ops "flt_config fleet" None acts "pool_start (flt_ckpt_defer ?f) (map (pool_item now) ?eo) E3" st ?S] st E3
      show ?thesis by (simp add: pool_run_exec pool_start_def)
    next
      case (Some m)
      obtain f4 where "run_bounded_pool (traced_ops ops) ?eo (max m 1) now acts ?f E3 = Some (E', f4)"
        using assms F Some n unfolding process_phase_def Let_def by (auto simp del: traced_ops_simps filter_filter split: option.splits prod.splits)
      from run_bounded_pool_events [OF this eo] E3 show ?thesis by simp
    qed
  qed
qed

subsection \<open>A cycle, call by call\<close>

text \<open>The calls only the leader makes, and the answers that make a worker the leader.\<close>

fun leader_event :: "event \<Rightarrow> bool" where
  "leader_event (EvDescribe r) = True"
| "leader_event (EvDescribeChildren p r) = True"
| "leader_event (EvCreate k ps cp r) = True"
| "leader_event (EvDelete k r) = True"
| "leader_event _ = False"

definition confirms_leader :: "string \<Rightarrow> event \<Rightarrow> bool" where
  "confirms_leader me ev \<longleftrightarrow>
     (\<exists>c c'. ev = EvRenew LEADER_LEASE_KEY me c (Inr c')) \<or> (\<exists>x c. ev = EvLead LEADER_LEASE_KEY me x (Inr (Some c)))"

lemma leadership_step_events:
  assumes "leadership_step ord (traced_leases L) rows now ld E = (E', ld', b)"
  shows "\<exists>evs. snd E' = snd E @ evs \<and> (\<forall>ev \<in> set evs. \<not> leader_event ev) \<and> (b \<longrightarrow> (\<exists>ev \<in> set evs. confirms_leader (ld_owner ld) ev))"
  using assms
  by (auto simp: leadership_step_def traced_leases_def traced_def confirms_leader_def Let_def
      split: prod.splits if_splits sum.splits option.splits)

lemma claim_leases_events: "\<exists>evs. snd (claim_leases (traced_ops ops) owner keys E) = snd E @ evs \<and> (\<forall>ev \<in> set evs. \<not> leader_event ev)"
proof (induction keys arbitrary: E)
  case (Cons key keys)
  obtain E1 r where a: "l_acquire (traced_leases (f_leases ops)) E key owner = (E1, r)" by fastforce
  then have 1: "snd E1 = snd E @ [EvAcquire key owner r]" by (simp add: traced_leases_def traced_result)
  then have 2: "snd (on_lease_acquired (carried_metrics (f_metrics ops)) E1 key) = snd E @ [EvAcquire key owner r]"
    by (simp add: carried_metrics_def)
  let ?E2 = "case r of Inl _ \<Rightarrow> E1 | Inr _ \<Rightarrow> on_lease_acquired (carried_metrics (f_metrics ops)) E1 key"
  have E2: "snd ?E2 = snd E @ [EvAcquire key owner r]" using 1 2 by (simp split: sum.splits)
  have "claim_leases (traced_ops ops) owner (key # keys) E = claim_leases (traced_ops ops) owner keys ?E2"
    using a by (cases r) (simp_all add: traced_ops_def)
  moreover obtain evs where "snd (claim_leases (traced_ops ops) owner keys ?E2) = snd ?E2 @ evs" "\<forall>ev \<in> set evs. \<not> leader_event ev"
    using Cons.IH by blast
  ultimately show ?case using E2 by (intro exI [of _ "EvAcquire key owner r # evs"]) simp
qed simp

lemma pass_events_no_leader: "pass_events S evs \<Longrightarrow> ev \<in> set evs \<Longrightarrow> \<not> leader_event ev"
  by (cases ev) (auto simp: pass_events_def)

text \<open>The stages of a cycle that gets to its passes.\<close>

lemma run_cycle_stages:
  assumes "run_cycle ord (traced_ops ops) acts now cy E = Some (E', cy', res)"
  obtains (listed) E1 err where "l_list (traced_leases (f_leases ops)) E = Some (E1, Inl err)" "E' = E1"
    | (synced) E1 rows E2 ld2 fleet2 err where "l_list (traced_leases (f_leases ops)) E = Some (E1, Inr rows)"
      "leader_phase ord (traced_ops ops) rows now (cy_ld cy) (cy_fleet cy) E1 = (E2, ld2, fleet2, Inl err)" "E' = E2"
    | (relisted) E1 rows E2 ld2 fleet2 E4 err where "l_list (traced_leases (f_leases ops)) E = Some (E1, Inr rows)"
      "leader_phase ord (traced_ops ops) rows now (cy_ld cy) (cy_fleet cy) E1 = (E2, ld2, fleet2, Inr ())"
      "l_list (traced_leases (f_leases ops)) (fst (l_heartbeat (traced_leases (f_leases ops)) E2 (fc_owner (flt_config fleet2)))) = Some (E4, Inl err)"
      "E' = E4"
    | (claimed) E1 rows E2 ld2 fleet2 E4 rows4 keys E6 r6 where "l_list (traced_leases (f_leases ops)) E = Some (E1, Inr rows)"
      "leader_phase ord (traced_ops ops) rows now (cy_ld cy) (cy_fleet cy) E1 = (E2, ld2, fleet2, Inr ())"
      "l_list (traced_leases (f_leases ops)) (fst (l_heartbeat (traced_leases (f_leases ops)) E2 (fc_owner (flt_config fleet2)))) = Some (E4, Inr rows4)"
      "l_list (traced_leases (f_leases ops)) (claim_leases (traced_ops ops) (fc_owner (flt_config fleet2)) keys E4) = Some (E6, r6)"
      "case r6 of Inl err \<Rightarrow> E' = E6
       | Inr rows6 \<Rightarrow> \<exists>fleet7 b. process_phase (traced_ops ops) acts (filter is_shard_row rows6) fleet2 E6 = Some (E', fleet7, b)"
proof -
  have src: "f_leases (traced_ops ops) = traced_leases (f_leases ops)" by (simp add: traced_ops_def)
  note c = assms [unfolded run_cycle_def src Let_def]
  obtain E1 r1 where 1: "l_list (traced_leases (f_leases ops)) E = Some (E1, r1)" using c by (auto split: option.splits)
  show ?thesis
  proof (cases r1)
    case (Inl err)
    with c 1 show ?thesis by (intro listed [of E1 err]) auto
  next
    case (Inr rows)
    obtain E2 ld2 fleet2 y where 2: "leader_phase ord (traced_ops ops) rows now (cy_ld cy) (cy_fleet cy) E1 = (E2, ld2, fleet2, y)"
      by (metis prod_cases4)
    show ?thesis
    proof (cases y)
      case (Inl err)
      with c 1 2 \<open>r1 = Inr rows\<close> show ?thesis by (intro synced [of E1 rows E2 ld2 fleet2 err]) auto
    next
      case (Inr u)
      let ?E3 = "fst (l_heartbeat (traced_leases (f_leases ops)) E2 (fc_owner (flt_config fleet2)))"
      note c2 = c [unfolded 1 \<open>r1 = Inr rows\<close>, simplified, unfolded 2 Inr, simplified]
      obtain E4 r4 where 4: "l_list (traced_leases (f_leases ops)) ?E3 = Some (E4, r4)" using c2 by (auto split: option.splits)
      show ?thesis
      proof (cases r4)
        case (Inl err)
        with c2 1 2 4 \<open>r1 = Inr rows\<close> Inr show ?thesis by (intro relisted [of E1 rows E2 ld2 fleet2 E4 err]) auto
      next
        case (Inr rows4)
        obtain coord' keys where t: "tick ord (cy_coord cy) (filter (\<lambda>r. rl_key r \<noteq> LEADER_LEASE_KEY) rows4) now = (coord', keys)" by fastforce
        note c4 = c2 [unfolded 4 Inr, simplified, unfolded t, simplified]
        obtain E6 r6 where 6: "l_list (traced_leases (f_leases ops)) (claim_leases (traced_ops ops) (fc_owner (flt_config fleet2)) keys E4) = Some (E6, r6)"
          using c4 by (auto split: option.splits)
        show ?thesis
          using c4 1 2 4 6 \<open>r1 = Inr rows\<close> \<open>y = Inr u\<close> Inr
          by (intro claimed [of E1 rows E2 ld2 fleet2 E4 rows4 keys E6 r6]) (auto split: sum.splits option.splits prod.splits)
      qed
    qed
  qed
qed

lemma leader_phase_events:
  assumes "leader_phase ord (traced_ops ops) rows now ld fleet E = (E', ld', fleet', res)"
  shows "(\<exists>ev \<in> set (snd E'). confirms_leader (ld_owner ld) ev) \<or> (\<exists>evs. snd E' = snd E @ evs \<and> (\<forall>ev \<in> set evs. \<not> leader_event ev))"
proof -
  have src: "f_leases (traced_ops ops) = traced_leases (f_leases ops)" by (simp add: traced_ops_def)
  obtain E1 ld1 b where s: "leadership_step ord (traced_leases (f_leases ops)) rows now ld E = (E1, ld1, b)" by (metis prod_cases3)
  obtain evs where evs: "snd E1 = snd E @ evs" "\<forall>ev \<in> set evs. \<not> leader_event ev" "b \<longrightarrow> (\<exists>ev \<in> set evs. confirms_leader (ld_owner ld) ev)"
    using leadership_step_events [OF s] by blast
  show ?thesis
  proof (cases b)
    case True
    with evs obtain ev where ev: "ev \<in> set (snd E1)" "confirms_leader (ld_owner ld) ev" by auto
    obtain E2 fleet2 r where y: "leader_shard_sync ord (traced_ops ops) rows fleet E1 = (E2, fleet2, r)" by (metis prod_cases3)
    have 2: "ev \<in> set (snd E2)" by (rule made.leader_shard_sync_control [OF y ev(1)])
    from made.cleanup_control [OF 2] assms s y True 2 have "ev \<in> set (snd E')"
      unfolding leader_phase_def src by (cases r) auto
    with ev(2) show ?thesis by blast
  next
    case False
    with assms s have "E' = E1" unfolding leader_phase_def src by auto
    with evs show ?thesis by blast
  qed
qed

subsection \<open>The release, row by row\<close>

text \<open>
  The calls for one released row: the flush of the pending acknowledgement, if there is one, then
  the release under the counter the flush returned.
\<close>

definition release_segment :: "string option \<Rightarrow> string \<Rightarrow> RawLease \<Rightarrow> bool \<Rightarrow> event list \<Rightarrow> bool" where
  "release_segment pend ow r ok seg \<longleftrightarrow>
     (\<exists>res. (ok \<longleftrightarrow> \<not> isl res) \<and>
        (case pend of
           None \<Rightarrow> seg = [EvRelease (rl_key r) ow (rl_counter r) res]
         | Some q \<Rightarrow>
             \<exists>rc. seg = [EvCheckpoint (rl_key r) ow (rl_counter r) q rc,
                        EvRelease (rl_key r) ow (case rc of Inl _ \<Rightarrow> rl_counter r | Inr c \<Rightarrow> c) res]))"

lemma release_row_defer:
  assumes "release_row ops ow r defer e = (e', defer', ok)"
  shows "same_for_others (rl_key r) defer defer' \<and> pending_of defer' (rl_key r) = None"
proof -
  have "defer' = map_option (\<lambda>d. forget (fst (take_pending d (rl_key r))) (rl_key r)) defer"
    using assms by (auto simp: release_row_def Let_def split: option.splits prod.splits sum.splits)
  then show ?thesis
    by (cases "defer") (simp_all add: frame_simps same_for_others_Some pending_of_def resume_from_def forget_def take_pending_def split: option.splits)
qed

lemma release_row_cases:
  assumes "release_row ops ow r defer e = (e', defer', ok)"
  obtains (direct) res where "pending_of defer (rl_key r) = None"
      "l_release (f_leases ops) e (rl_key r) ow (rl_counter r) = (e', res)" "ok \<longleftrightarrow> \<not> isl res"
  | (flushed) q e1 rc res where "pending_of defer (rl_key r) = Some q"
      "l_checkpoint (f_leases ops) e (rl_key r) ow (rl_counter r) q = (e1, rc)"
      "l_release (f_leases ops) e1 (rl_key r) ow (case rc of Inl _ \<Rightarrow> rl_counter r | Inr c \<Rightarrow> c) = (e', res)" "ok \<longleftrightarrow> \<not> isl res"
proof (cases "pending_of defer (rl_key r)")
  case None
  then have "defer = None \<or> (\<exists>d d1. defer = Some d \<and> take_pending d (rl_key r) = (d1, None))"
    by (cases "defer") (use pending_simps(6) in \<open>auto simp: prod_eq_iff\<close>)
  with assms None direct show ?thesis by (auto simp: release_row_def Let_def split: prod.splits)
next
  case (Some q)
  then obtain d d1 where d: "defer = Some d" "take_pending d (rl_key r) = (d1, Some q)"
    by (cases "defer") (use pending_simps(6) in \<open>auto simp: prod_eq_iff\<close>)
  obtain e1 rc where c: "l_checkpoint (f_leases ops) e (rl_key r) ow (rl_counter r) q = (e1, rc)" by fastforce
  obtain e2 res where l: "l_release (f_leases ops) e1 (rl_key r) ow (case rc of Inl _ \<Rightarrow> rl_counter r | Inr c \<Rightarrow> c) = (e2, res)" by fastforce
  from assms d c l have "e2 = e' \<and> (ok \<longleftrightarrow> \<not> isl res)" by (cases rc) (simp_all add: release_row_def Let_def)
  with flushed [OF Some c] l show ?thesis by simp
qed

lemma release_log: "l_release (f_leases (traced_ops ops)) E k ow c = (E', res) \<Longrightarrow> snd E' = snd E @ [EvRelease k ow c res]"
  by (simp add: traced_ops_def traced_leases_def traced_result)

lemma release_row_trace:
  assumes "release_row (traced_ops ops) ow r defer E = (E', defer', ok)"
  shows "\<exists>seg. snd E' = snd E @ seg \<and> release_segment (pending_of defer (rl_key r)) ow r ok seg"
  using assms
proof (cases rule: release_row_cases)
  case (direct res)
  from release_log [OF direct(2)] direct(1,3) show ?thesis by (auto simp: release_segment_def)
next
  case (flushed q E1 rc res)
  from checkpoint_log [OF flushed(2)] release_log [OF flushed(3)] flushed(1,4) show ?thesis by (auto simp: release_segment_def)
qed

lemma release_rows_trace:
  assumes "release_rows (traced_ops ops) ow rows n defer E = (E', defer', m)" "distinct (map rl_key rows)"
  shows "\<exists>segs. snd E' = snd E @ concat (map snd segs) \<and> m = n + length (filter fst segs) \<and>
      list_all2 (\<lambda>r (ok, seg). release_segment (pending_of defer (rl_key r)) ow r ok seg) (filter (is_owned ow) rows) segs \<and>
      (\<forall>k. k \<notin> rl_key ` set rows \<longrightarrow> pending_of defer' k = pending_of defer k) \<and>
      (\<forall>r \<in> set rows. is_owned ow r \<longrightarrow> pending_of defer' (rl_key r) = None)"
  using assms
proof (induction rows arbitrary: n "defer" E)
  case (Cons r rows)
  show ?case
  proof (cases "is_owned ow r")
    case False
    with Cons.prems have "release_rows (traced_ops ops) ow rows n defer E = (E', defer', m)" by simp
    from Cons.IH [OF this] Cons.prems(2) False show ?thesis by auto
  next
    case True
    obtain E1 defer1 ok where s: "release_row (traced_ops ops) ow r defer E = (E1, defer1, ok)" by (metis prod_cases3)
    obtain seg where seg: "snd E1 = snd E @ seg" "release_segment (pending_of defer (rl_key r)) ow r ok seg"
      using release_row_trace [OF s] by blast
    have fr: "same_for_others (rl_key r) defer defer1" "pending_of defer1 (rl_key r) = None"
      using release_row_defer [OF s] by blast+
    have "release_rows (traced_ops ops) ow rows (if ok then n + 1 else n) defer1 E1 = (E', defer', m)"
      using Cons.prems(1) True s by simp
    from Cons.IH [OF this] Cons.prems(2) obtain segs where segs: "snd E' = snd E1 @ concat (map snd segs)"
      "m = (if ok then n + 1 else n) + length (filter fst segs)"
      "list_all2 (\<lambda>r (ok, seg). release_segment (pending_of defer1 (rl_key r)) ow r ok seg) (filter (is_owned ow) rows) segs"
      "\<forall>k. k \<notin> rl_key ` set rows \<longrightarrow> pending_of defer' k = pending_of defer1 k"
      "\<forall>r \<in> set rows. is_owned ow r \<longrightarrow> pending_of defer' (rl_key r) = None" by auto
    have "list_all2 (\<lambda>r (ok, seg). release_segment (pending_of defer (rl_key r)) ow r ok seg) (filter (is_owned ow) rows) segs"
      using segs(3)
    proof (rule list.rel_mono_strong, clarify)
      fix r' ok' seg'
      assume "r' \<in> set (filter (is_owned ow) rows)" "release_segment (pending_of defer1 (rl_key r')) ow r' ok' seg'"
      moreover from this Cons.prems(2) have "rl_key r' \<noteq> rl_key r" by (auto simp: image_iff)
      ultimately show "release_segment (pending_of defer (rl_key r')) ow r' ok' seg'" using fr(1) by (simp add: same_for_others_def)
    qed
    moreover have "pending_of defer' (rl_key r) = None" using segs(4) fr(2) Cons.prems(2) by simp
    moreover have "\<forall>k. k \<notin> rl_key ` set (r # rows) \<longrightarrow> pending_of defer' k = pending_of defer k"
      using segs(4) fr(1) by (simp add: same_for_others_def)
    ultimately show ?thesis using seg segs True by (intro exI [of _ "(ok, seg) # segs"]) auto
  qed
qed simp

section \<open>Properties\<close>

text \<open>
  C14 (safety). In a coordination cycle no consumer is created and no record is fetched,
  delivered or checkpointed before the worker's last scan of the lease table, and afterwards only
  for shards which that scan shows leased to this worker, not completed, with every parent
  completed or without a lease. This holds for every interleaving of the passes and whatever the
  store, the stream and the consumers answer.
\<close>

theorem run_cycle_gated:
  assumes "run_cycle ord (traced_ops ops) acts now cy (e, []) = Some ((e', tr), cy', res)"
  shows "\<exists>pre post. tr = pre @ post \<and> (\<forall>ev \<in> set pre. control_event ev) \<and>
    (post \<noteq> [] \<longrightarrow> (\<exists>rows. pre \<noteq> [] \<and> last pre = EvList (Inr rows) \<and>
       pass_events (may_process (fc_owner (flt_config (cy_fleet cy))) rows) post))"
  using assms
proof (cases rule: run_cycle_stages)
  case (listed E1 err)
  have "\<forall>ev \<in> set (snd E1). control_event ev" using coordinating.list_control [OF listed(1)] by simp
  with listed(2) show ?thesis by (intro exI [of _ tr] exI [of _ "[]"]) auto
next
  case (synced E1 rows E2 ld2 fleet2 err)
  have "\<forall>ev \<in> set (snd E1). control_event ev" using coordinating.list_control [OF synced(1)] by simp
  from coordinating.leader_phase_control(1) [OF synced(2) this] synced(3) show ?thesis
    by (intro exI [of _ tr] exI [of _ "[]"]) auto
next
  case (relisted E1 rows E2 ld2 fleet2 E4 err)
  have 1: "\<forall>ev \<in> set (snd E1). control_event ev" using coordinating.list_control [OF relisted(1)] by simp
  have 2: "\<forall>ev \<in> set (snd E2). control_event ev" by (rule coordinating.leader_phase_control(1) [OF relisted(2) 1])
  from coordinating.list_control [OF relisted(3) coordinating.heartbeat_control [OF 2]] relisted(4) show ?thesis
    by (intro exI [of _ tr] exI [of _ "[]"]) auto
next
  case (claimed E1 rows E2 ld2 fleet2 E4 rows4 keys E6 r6)
  have 1: "\<forall>ev \<in> set (snd E1). control_event ev" using coordinating.list_control [OF claimed(1)] by simp
  note 2 = coordinating.leader_phase_control [OF claimed(2) 1]
  have 4: "\<forall>ev \<in> set (snd E4). control_event ev"
    using coordinating.list_control [OF claimed(3) coordinating.heartbeat_control [OF 2(1)]] by blast
  have 6: "(\<forall>ev \<in> set (snd E6). control_event ev) \<and> snd E6 \<noteq> [] \<and> last (snd E6) = EvList r6"
    using coordinating.list_control [OF claimed(4) coordinating.claim_leases_control [OF 4]] by auto
  show ?thesis
  proof (cases r6)
    case (Inl err)
    with claimed(5) 6 show ?thesis by (intro exI [of _ tr] exI [of _ "[]"]) auto
  next
    case (Inr rows6)
    then obtain fleet7 b where p: "process_phase (traced_ops ops) acts (filter is_shard_row rows6) fleet2 E6 = Some ((e', tr), fleet7, b)"
      using claimed(5) by auto
    from process_phase_events [OF p] 2(2) obtain post where "tr = snd E6 @ post"
      "pass_events (may_process (fc_owner (flt_config (cy_fleet cy))) rows6) post" by auto
    with 6 Inr show ?thesis by blast
  qed
qed

text \<open>The first cycle of a worker on an empty table: a parent with a child not yet ready.\<close>

definition first_state :: cycle_state where
  "first_state =
     \<lparr>cy_coord = coordinator_new ''w1'' 100 10000, cy_ld = leadership_new ''w1'' 10000, cy_fleet = fresh_fleet InitTrimHorizon\<rparr>"

definition first_rows :: "RawLease list" where
  "first_rows =
     [leader_row ''w1'' 1,
      \<lparr>rl_key = ''p'', rl_owner = Some ''w1'', rl_counter = 1, rl_completed = False, rl_checkpoint = None, rl_parents = []\<rparr>]"

lemma first_cycle:
  obtains e' cy' pre where "run_cycle id (traced_ops fake_ops) [Claim, Turn 0] 0 first_state (reshard_env, []) =
      Some ((e', pre @ [EvList (Inr first_rows), EvConsumer ''p'',
        EvGetRecords ''p'' None (Inr \<lparr>batch_records = [], batch_shard_end = True, batch_millis_behind_latest = None\<rparr>),
        EvShardEnded ''p'', EvMarkComplete ''p'' ''w1'' 1 (Inr ())]), cy', Inr False)"
    "EvDescribe (Inr (fk_metas reshard_env)) \<in> set pre"
proof -
  let ?post = "[EvList (Inr first_rows), EvConsumer ''p'',
    EvGetRecords ''p'' None (Inr \<lparr>batch_records = [], batch_shard_end = True, batch_millis_behind_latest = None\<rparr>),
    EvShardEnded ''p'', EvMarkComplete ''p'' ''w1'' 1 (Inr ())]"
  have "map_option (\<lambda>((e, tr), cy, r). (drop 7 tr, tr ! 2, length tr, r))
      (run_cycle id (traced_ops fake_ops) [Claim, Turn 0] 0 first_state (reshard_env, [])) =
      Some (?post, EvDescribe (Inr (fk_metas reshard_env)), 12, Inr False)"
    by code_simp
  then obtain e' tr cy' where r: "run_cycle id (traced_ops fake_ops) [Claim, Turn 0] 0 first_state (reshard_env, []) =
      Some ((e', tr), cy', Inr False)" "drop 7 tr = ?post" "tr ! 2 = EvDescribe (Inr (fk_metas reshard_env))" "length tr = 12"
    by (auto split: prod.splits)
  have "tr = take 7 tr @ ?post" using r(2) append_take_drop_id [of 7 tr] by simp
  moreover have "EvDescribe (Inr (fk_metas reshard_env)) \<in> set (take 7 tr)"
    using r(3,4) nth_mem [of 2 "take 7 tr"] by simp
  ultimately show ?thesis using r(1) that by metis
qed

theorem run_cycle_gated_witness:
  "\<exists>e' cy' pre post rows. run_cycle id (traced_ops fake_ops) [Claim, Turn 0] 0 first_state (reshard_env, []) =
      Some ((e', pre @ post), cy', Inr False) \<and> EvConsumer ''p'' \<in> set post \<and> last pre = EvList (Inr rows) \<and>
    pass_events (may_process ''w1'' rows) post"
proof (rule first_cycle)
  fix e' cy' pre
  let ?tr = "pre @ [EvList (Inr first_rows), EvConsumer ''p'',
        EvGetRecords ''p'' None (Inr \<lparr>batch_records = [], batch_shard_end = True, batch_millis_behind_latest = None\<rparr>),
        EvShardEnded ''p'', EvMarkComplete ''p'' ''w1'' 1 (Inr ())]"
  assume r: "run_cycle id (traced_ops fake_ops) [Claim, Turn 0] 0 first_state (reshard_env, []) = Some ((e', ?tr), cy', Inr False)"
  from run_cycle_gated [OF r] obtain pr po where p: "?tr = pr @ po" "\<forall>ev \<in> set pr. control_event ev"
    "po \<noteq> [] \<longrightarrow> (\<exists>rows. pr \<noteq> [] \<and> last pr = EvList (Inr rows) \<and> pass_events (may_process ''w1'' rows) po)"
    by (auto simp: first_state_def fresh_fleet_def)
  have "EvConsumer ''p'' \<in> set (pr @ po)" unfolding p(1) [symmetric] by simp
  then have "EvConsumer ''p'' \<in> set po" using p(2) by (metis UnE control_event.simps(7) set_append)
  with p(3) r show ?thesis unfolding p(1) by fastforce
qed

text \<open>
  C15 (safety). Only a confirmed leader describes the stream, publishes leases or deletes them:
  if a cycle makes one of these calls, then in that cycle the store has confirmed this worker as
  the leader, by renewing its leader lease or by granting its bid.
\<close>

theorem only_leader_discovers:
  assumes "run_cycle ord (traced_ops ops) acts now cy (e, []) = Some ((e', tr), cy', res)"
    and "ev \<in> set tr" and "leader_event ev"
  shows "\<exists>ev' \<in> set tr. confirms_leader (ld_owner (cy_ld cy)) ev'"
proof -
  let ?C = "\<lambda>log. \<exists>ev' \<in> set log. confirms_leader (ld_owner (cy_ld cy)) ev'"
  let ?Q = "\<lambda>log. ?C log \<or> (\<forall>ev \<in> set log. \<not> leader_event ev)"
  have ext: "?Q (log @ evs)" if "?Q log" "\<forall>ev \<in> set evs. \<not> leader_event ev" for log evs using that by auto
  have lists: "?Q (snd E')" if "l_list (traced_leases (f_leases ops)) E = Some (E', r)" "?Q (snd E)" for E E' r
    using that by (auto simp: traced_leases_def split: option.splits)
  have hb: "?Q (snd (fst (l_heartbeat (traced_leases (f_leases ops)) E w)))" if "?Q (snd E)" for E w
    using that by (auto simp: traced_leases_def)
  have lead: "?Q (snd E2)" if "leader_phase ord (traced_ops ops) rows now (cy_ld cy) (cy_fleet cy) E1 = (E2, ld2, fleet2, y)" "?Q (snd E1)"
    for rows E1 E2 ld2 fleet2 y using leader_phase_events [OF that(1)] ext [OF that(2)] by (elim disjE exE conjE) auto
  have claim: "?Q (snd (claim_leases (traced_ops ops) w keys E))" if "?Q (snd E)" for w keys E
    using claim_leases_events [of ops w keys E] ext [OF that] by fastforce
  from assms(1) have "?Q tr"
  proof (cases rule: run_cycle_stages)
    case (listed E1 err)
    from lists [OF listed(1)] listed(2) show ?thesis by auto
  next
    case (synced E1 rows E2 ld2 fleet2 err)
    from lead [OF synced(2) lists [OF synced(1)]] synced(3) show ?thesis by auto
  next
    case (relisted E1 rows E2 ld2 fleet2 E4 err)
    from lists [OF relisted(3) hb [OF lead [OF relisted(2) lists [OF relisted(1)]]]] relisted(4) show ?thesis by auto
  next
    case (claimed E1 rows E2 ld2 fleet2 E4 rows4 keys E6 r6)
    have 6: "?Q (snd E6)"
      by (rule lists [OF claimed(4) claim [OF lists [OF claimed(3) hb [OF lead [OF claimed(2) lists [OF claimed(1)]]]]]]) simp
    show ?thesis
    proof (cases r6)
      case (Inr rows6)
      then obtain fleet7 b where p: "process_phase (traced_ops ops) acts (filter is_shard_row rows6) fleet2 E6 = Some ((e', tr), fleet7, b)"
        using claimed(5) by auto
      then obtain post where "tr = snd E6 @ post" "\<forall>ev \<in> set post. \<not> leader_event ev"
        using process_phase_events [OF p] pass_events_no_leader by fastforce
      with ext [OF 6] show ?thesis by simp
    qed (use claimed(5) 6 in auto)
  qed
  with assms(2,3) show ?thesis by blast
qed

theorem only_leader_discovers_witness:
  "\<exists>e' tr cy'. run_cycle id (traced_ops fake_ops) [Claim, Turn 0] 0 first_state (reshard_env, []) = Some ((e', tr), cy', Inr False) \<and>
     (\<exists>ev' \<in> set tr. confirms_leader ''w1'' ev')"
proof (rule first_cycle)
  fix e' cy' pre
  let ?tr = "pre @ [EvList (Inr first_rows), EvConsumer ''p'',
        EvGetRecords ''p'' None (Inr \<lparr>batch_records = [], batch_shard_end = True, batch_millis_behind_latest = None\<rparr>),
        EvShardEnded ''p'', EvMarkComplete ''p'' ''w1'' 1 (Inr ())]"
  assume r: "run_cycle id (traced_ops fake_ops) [Claim, Turn 0] 0 first_state (reshard_env, []) = Some ((e', ?tr), cy', Inr False)"
    and d: "EvDescribe (Inr (fk_metas reshard_env)) \<in> set pre"
  have "\<exists>ev' \<in> set ?tr. confirms_leader (ld_owner (cy_ld first_state)) ev'"
    by (rule only_leader_discovers [OF r, of "EvDescribe (Inr (fk_metas reshard_env))"]) (use d in simp_all)
  with r show ?thesis by (auto simp: first_state_def leadership_new_def)
qed

text \<open>
  C19 (functional). A graceful shutdown releases, in the order of the scan, every lease that the
  scan shows held by this worker and not completed, and before each release it flushes the
  shard's pending acknowledgement, releasing under the counter the flush returned (under the
  scanned one if the flush was refused); afterwards nothing is pending for these shards. The
  result is the number of releases that succeeded. Heartbeat and leader rows held by the worker
  are released and counted like shards.
\<close>

theorem release_flushes_first:
  assumes "l_list (f_leases ops) e = Some (e1, Inr rows)" and "distinct (map rl_key rows)"
    and "release_owned (traced_ops ops) fleet (e, []) = Some ((e', tr), fleet', res)"
  shows "\<exists>segs. tr = EvList (Inr rows) # concat (map snd segs) \<and> res = Inr (length (filter fst segs)) \<and>
    list_all2 (\<lambda>r (ok, seg). release_segment (pending_of (flt_ckpt_defer fleet) (rl_key r)) (fc_owner (flt_config fleet)) r ok seg)
      (filter (is_owned (fc_owner (flt_config fleet))) rows) segs \<and>
    (\<forall>r \<in> set rows. is_owned (fc_owner (flt_config fleet)) r \<longrightarrow> pending_of (flt_ckpt_defer fleet') (rl_key r) = None)"
proof -
  let ?me = "fc_owner (flt_config fleet)"
  obtain E2 defer2 n where s: "release_rows (traced_ops ops) ?me rows 0 (flt_ckpt_defer fleet) (e1, [EvList (Inr rows)]) = (E2, defer2, n)"
    by (metis prod_cases3)
  have l: "l_list (f_leases (traced_ops ops)) (e, []) = Some ((e1, [EvList (Inr rows)]), Inr rows)"
    using assms(1) by (simp add: traced_ops_def traced_leases_def)
  from assms(3) s l have r: "E2 = (e', tr)" "fleet' = fleet\<lparr>flt_ckpt_defer := defer2\<rparr>" "res = Inr n"
    by (auto simp: release_owned_def)
  from release_rows_trace [OF s assms(2)] r show ?thesis by auto
qed

text \<open>A worker that holds its heartbeat row and a shard with a pending acknowledgement.\<close>

definition held_env :: FakeEnv where
  "held_env = fake_env\<lparr>fk_rows :=
     [(''__hb__:w1'', fake_lease_default\<lparr>fl_owner := Some ''w1'', fl_counter := 9\<rparr>),
      (''s'', fake_lease_default\<lparr>fl_owner := Some ''w1'', fl_counter := 3\<rparr>)]\<rparr>"

definition pending_fleet :: Fleet where
  "pending_fleet = (fresh_fleet InitTrimHorizon)\<lparr>flt_ckpt_defer :=
     Some \<lparr>defer_interval = 1000, defer_state = [''s'' \<mapsto> \<lparr>pend_ack = Some ''12'', last_persist = 0\<rparr>]\<rparr>\<rparr>"

theorem release_flushes_first_witness:
  "\<exists>e' fleet' res x y z. release_owned (traced_ops fake_ops) pending_fleet (held_env, []) =
     Some ((e', [EvList (Inr (map fake_raw (fk_rows held_env))), EvRelease ''__hb__:w1'' ''w1'' 9 x,
       EvCheckpoint ''s'' ''w1'' 3 ''12'' y, EvRelease ''s'' ''w1'' (case y of Inl _ \<Rightarrow> 3 | Inr c \<Rightarrow> c) z]), fleet', res)"
proof -
  let ?rows = "map fake_raw (fk_rows held_env)"
  have l: "l_list (f_leases fake_ops) held_env = Some (held_env, Inr ?rows)" by (simp add: fake_ops_def fake_leases_def)
  have d: "distinct (map rl_key ?rows)" by (simp add: held_env_def fake_raw_def)
  obtain e' tr fleet' res where r: "release_owned (traced_ops fake_ops) pending_fleet (held_env, []) = Some ((e', tr), fleet', res)"
    using l by (fastforce simp: release_owned_def traced_ops_def traced_leases_def split: prod.splits)
  have "fc_owner (flt_config pending_fleet) = ''w1''" "pending_of (flt_ckpt_defer pending_fleet) ''__hb__:w1'' = None"
    "pending_of (flt_ckpt_defer pending_fleet) ''s'' = Some ''12''"
    by (simp_all add: pending_fleet_def fresh_fleet_def pending_of_def resume_from_def)
  with release_flushes_first [OF l d r] have "\<exists>x y z. tr = [EvList (Inr ?rows), EvRelease ''__hb__:w1'' ''w1'' 9 x,
       EvCheckpoint ''s'' ''w1'' 3 ''12'' y, EvRelease ''s'' ''w1'' (case y of Inl _ \<Rightarrow> 3 | Inr c \<Rightarrow> c) z]"
    by (auto simp: held_env_def fake_raw_def fake_lease_default_def is_owned_def list_all2_Cons1 release_segment_def split: sum.splits)
  with r show ?thesis by blast
qed

text \<open>
  The idle backoff of the pool's schedule. After \<open>n\<close> consecutive idle passes a
  shard that was active before is due again \<open>min (p * 2 ^ (n - 1)) 5000\<close> milliseconds after the
  last of them, where \<open>p\<close> is the poll interval (at least 1); only the first backoff is the poll
  interval itself, also where that is larger than the ceiling.
\<close>

lemma idle_backoff_schedule:
  assumes "sched shard = Some en" and "backoff_ms en = 0" and "instants \<noteq> []" and "unat p < 2 ^ 63"
  shows "\<exists>en'. fold (\<lambda>t. apply_outcome p t (shard, Idle)) instants sched shard = Some en' \<and>
    unat (backoff_ms en') =
      (if length instants = 1 then max (unat p) 1 else min (max (unat p) 1 * 2 ^ (length instants - 1)) 5000) \<and>
    due_at en' = last instants + from_millis (backoff_ms en')"
  using assms(3)
proof (induction instants rule: rev_induct)
  case (snoc t instants)
  have p1: "unat (max p 1) = max (unat p) 1" by (simp add: max_def word_le_nat_alt)
  show ?case
  proof (cases "instants = []")
    case True
    with assms(1,2) p1 show ?thesis by (simp add: apply_outcome_def Let_def)
  next
    case False
    then obtain en1 where en1: "fold (\<lambda>t. apply_outcome p t (shard, Idle)) instants sched shard = Some en1"
      "unat (backoff_ms en1) = (if length instants = 1 then max (unat p) 1 else min (max (unat p) 1 * 2 ^ (length instants - 1)) 5000)"
      using snoc.IH by blast
    let ?b = "unat (backoff_ms en1)"
    have pos: "0 < ?b" using en1(2) by simp
    then have "backoff_ms en1 \<noteq> 0" by auto
    moreover have "?b < 2 ^ 63" using en1(2) assms(4) by (auto simp: max_def)
    then have "unat (backoff_ms en1 * 2) = ?b * 2" by (subst unat_mult_lem [THEN iffD1]) simp_all
    then have "unat (min (backoff_ms en1 * 2) MAX_IDLE_BACKOFF_MS) = min (?b * 2) 5000"
      by (simp add: MAX_IDLE_BACKOFF_MS_def min_def word_le_nat_alt)
    moreover have "min (?b * 2) 5000 = min (max (unat p) 1 * 2 ^ length instants) 5000"
    proof (cases "length instants = 1")
      case False
      with \<open>instants \<noteq> []\<close> obtain k where "length instants = Suc k" by (cases instants) auto
      with False en1(2) show ?thesis by (simp add: min_def)
    qed (use en1(2) in simp)
    ultimately show ?thesis using False en1(1) by (simp add: apply_outcome_def Let_def)
  qed
qed simp

lemma idle_backoff_schedule_witness:
  "\<exists>en'. fold (\<lambda>t. apply_outcome 300 t (''s'', Idle)) [10, 20, 30] [''s'' \<mapsto> \<lparr>backoff_ms = 0, due_at = 0, last_liveness = 0\<rparr>] ''s'' = Some en' \<and>
     unat (backoff_ms en') = 1200"
  using idle_backoff_schedule [of "[''s'' \<mapsto> \<lparr>backoff_ms = 0, due_at = 0, last_liveness = 0\<rparr>]" "''s''"
      "\<lparr>backoff_ms = 0, due_at = 0, last_liveness = 0\<rparr>" "[10, 20, 30]" 300] by auto

end
