(* ===== verification/Worker_Aws.thy ===== *)
theory Worker_Aws
  imports Lease_Protocol Fleet
begin

text \<open>
  The wiring of the worker to the live lease store (\<open>worker/src/aws.rs\<close>):
  \<open>AsyncLeaseStore\<close> implemented by \<open>DynamoDbLeaseStore\<close>, errors boxed as their messages.
  With it the properties of the store reach the fleet: at most one worker is confirmed as the
  leader per observed leader lease.
\<close>

section \<open>The adapter\<close>

fun lease_error_display :: "lease_error \<Rightarrow> string" where
  "lease_error_display Lost = ''lease lost (conditional check failed)''"
| "lease_error_display (Throttled e) = ''throttled: '' @ e"
| "lease_error_display (Aws e) = ''aws error: '' @ e"

definition box_lease :: "lease_error \<Rightarrow> WorkerError" where
  "box_lease = lease_error_display"

definition raw_lease :: "Lease \<Rightarrow> RawLease" where
  "raw_lease l =
     \<lparr>rl_key = lease_key l, rl_owner = lease_owner l, rl_counter = lease_counter l,
      rl_completed = Lease.lease_completed l, rl_checkpoint = lease_checkpoint l, rl_parents = lease_parents l\<rparr>"

definition lease_handle :: "Lease \<Rightarrow> LeaseHandle" where
  "lease_handle l =
     \<lparr>lh_owner = (case lease_owner l of None \<Rightarrow> [] | Some ow \<Rightarrow> ow), lh_counter = lease_counter l,
      lh_checkpoint = lease_checkpoint l\<rparr>"

definition aws_leases :: "'e DynamoDbLeaseStore \<Rightarrow> 'e AsyncLeaseStore" where
  "aws_leases st =
     \<lparr>l_get = (\<lambda>e key. map_prod id
        (map_sum id (map_option (\<lambda>l. \<lparr>lv_completed = Lease.lease_completed l\<rparr>))) (get_lease st key e)),
      l_list = (\<lambda>e. map_option (map_prod id (map_sum id (map raw_lease))) (list_all_leases st e)),
      l_acquire = (\<lambda>e key owner. map_prod id (map_sum box_lease lease_handle) (acquire st key owner e)),
      l_renew = (\<lambda>e key owner c. map_prod id (map_sum box_lease id) (renew st key owner c e)),
      l_heartbeat = (\<lambda>e w. map_prod id (map_sum box_lease id) (heartbeat st w e)),
      l_checkpoint = (\<lambda>e key owner c q. map_prod id (map_sum box_lease id) (checkpoint st key owner c q e)),
      l_mark_complete = (\<lambda>e key owner c. map_prod id (map_sum box_lease id) (mark_complete st key owner c e)),
      l_release = (\<lambda>e key owner c. map_prod id (map_sum box_lease id) (release st key owner c e)),
      l_delete_lease = (\<lambda>e key. map_prod id (map_sum box_lease id) (delete_lease st key e)),
      l_create_shard_lease = (\<lambda>e key ps cp. map_prod id (map_sum box_lease id) (create_shard_lease st key ps cp e)),
      l_try_acquire_leadership = (\<lambda>e key owner x. map_prod id (map_sum box_lease id) (try_acquire_leadership st key owner x e))\<rparr>"

section \<open>Lemmas\<close>

text \<open>
  What a confirmation of leadership says about the row of the leader: it was as scanned, and it
  has moved.
\<close>

definition leader_at :: "RawLease option \<Rightarrow> Lease option \<Rightarrow> bool" where
  "leader_at scanned l1 \<longleftrightarrow>
     (case scanned of None \<Rightarrow> l1 = None | Some r \<Rightarrow> \<exists>l. l1 = Some l \<and> lease_counter l = rl_counter r)"

definition leader_after :: "RawLease option \<Rightarrow> Lease option \<Rightarrow> bool" where
  "leader_after scanned l1 \<longleftrightarrow>
     (\<exists>l. l1 = Some l \<and> unat (lease_counter l) = (case scanned of None \<Rightarrow> 1 | Some r \<Rightarrow> unat (rl_counter r) + 1))"

lemma boxed_ok [simp]: "map_prod id (map_sum f id) p = (e', Inr x) \<longleftrightarrow> p = (e', Inr x)"
  by (cases p; cases "snd p") auto

lemma below_max_unat:
  assumes "(c :: u64) \<noteq> - 1"
  shows "unat c < 2 ^ 64 - 1"
proof -
  have "unat (- 1 :: u64) = 2 ^ 64 - 1" by (simp add: unsigned_minus_1_eq_mask mask_eq_exp_minus_1)
  with assms have "unat c \<noteq> 2 ^ 64 - 1" by (metis word_unat_eq_iff)
  moreover have "unat c < 2 ^ 64" using unsigned_less [of c] by simp
  ultimately show ?thesis by simp
qed

context ddb_lease_store
begin

lemma renew_is_once:
  assumes "wf e" "below_max (rows e k)" "\<And>e d. items (rt_sleep st e d) = items e"
  shows "\<exists>e0. rows e0 = rows e \<and> wf e0 \<and> renew st k ow c e = renew_once st k ow c e0"
proof -
  let ?op = "renew_once st k ow c"
  have "\<exists>e0. (rows e0 = rows e \<and> wf e0 \<and> below_max (rows e0 k)) \<and> retry_from is_throttled (rt_sleep st) ?op 4 50 e = ?op e0"
  proof (rule retry_from_inv)
    fix e1 assume e1: "rows e1 = rows e \<and> wf e1 \<and> below_max (rows e1 k)" and "is_throttled (snd (?op e1))"
    with renew_once_cas [of e1 k ow c] show "rows (fst (?op e1)) = rows e \<and> wf (fst (?op e1)) \<and> below_max (rows (fst (?op e1)) k)"
      by (auto simp: cas_def is_throttled_iff)
  qed (use assms in \<open>auto simp: store_rows_def store_wf_def\<close>)
  then show ?thesis unfolding renew_def with_throttle_retry_def by blast
qed

lemma renew_confirms:
  assumes "wf e" "below_max (rows e k)" "\<And>e d. items (rt_sleep st e d) = items e" "renew st k ow c e = (e', Inr c')"
  shows "held_by ow c (rows e k) \<and> rows e' = (rows e)(k := map_option bump (rows e k)) \<and> wf e'"
proof -
  obtain e0 where e0: "rows e0 = rows e" "wf e0" "renew st k ow c e = renew_once st k ow c e0"
    using renew_is_once [OF assms(1-3)] by blast
  then have m: "below_max (rows e0 k)" and o: "renew_once st k ow c e0 = (e', Inr c')" using assms(2,4) by simp_all
  from renew_once_cas [OF e0(2) m, of ow c] show ?thesis unfolding o e0(1) by (simp add: cas_def)
qed

lemma leadership_confirmed:
  assumes wf: "wf e" and max: "below_max (rows e LEADER_LEASE_KEY)" and sleep: "\<And>e d. items (rt_sleep st e d) = items e"
    and step: "leadership_step ord (aws_leases st) scan now ld e = (e', ld', True)"
  shows "leader_at (List.find (\<lambda>r. rl_key r = LEADER_LEASE_KEY) scan) (rows e LEADER_LEASE_KEY) \<and>
    leader_after (List.find (\<lambda>r. rl_key r = LEADER_LEASE_KEY) scan) (rows e' LEADER_LEASE_KEY) \<and>
    (\<forall>j. j \<noteq> LEADER_LEASE_KEY \<longrightarrow> rows e' j = rows e j) \<and> wf e'"
proof -
  let ?k = LEADER_LEASE_KEY and ?me = "ld_owner ld"
  let ?row = "List.find (\<lambda>r. rl_key r = ?k) scan"
  have bumped: "unat (c + 1) = unat c + 1" if "at_counter c (rows e ?k)" for c
    using that max by (intro unat_plus_one below_max_unat) (auto simp: below_max_def at_counter_def split: option.splits)
  have lead: "?thesis" if "try_acquire_leadership st ?k ?me (map_option rl_counter ?row) e = (e', Inr (Some h))" for h
  proof (cases ?row)
    case None
    with try_acquire_leadership_spec [OF wf max that] show ?thesis
      by (simp add: leader_at_def leader_after_def fresh_lease_def)
  next
    case (Some r)
    with try_acquire_leadership_spec [OF wf max that] bumped [of "rl_counter r"] show ?thesis
      by (auto simp: leader_at_def leader_after_def at_counter_def bump_def split: option.splits)
  qed
  have own: "?thesis" if "?row = Some r" "renew st ?k ?me (rl_counter r) e = (e', Inr c')" for r c'
    using renew_confirms [OF wf max sleep that(2)] that(1) bumped [of "rl_counter r"]
    by (auto simp: leader_at_def leader_after_def held_by_def at_counter_def bump_def split: option.splits)
  show ?thesis
  proof (cases ?row)
    case None
    with step lead show ?thesis
      by (auto simp: leadership_step_def aws_leases_def Let_def split: prod.splits sum.splits option.splits)
  next
    case (Some r)
    with step lead own show ?thesis
      by (auto simp: leadership_step_def aws_leases_def Let_def split: prod.splits sum.splits option.splits if_splits)
  qed
qed

lemma leadership_room:
  assumes "room (Suc n) (rows e)" "leader_at s (rows e k)" "leader_after s (rows e1 k)" "\<forall>j. j \<noteq> k \<longrightarrow> rows e1 j = rows e j"
  shows "room n (rows e1)"
proof -
  have "unat (lease_counter l) + n < 2 ^ 64 - 1" if l: "rows e1 j = Some l" for j l
  proof (cases "j = k")
    case False
    with assms(1,4) l show ?thesis by (fastforce simp: room_def)
  next
    case True
    show ?thesis
    proof (cases s)
      case None
      with assms(1,3) l True show ?thesis by (auto simp: room_def leader_after_def)
    next
      case (Some r)
      with assms(2) obtain l0 where "rows e k = Some l0" "lease_counter l0 = rl_counter r" by (auto simp: leader_at_def)
      with assms(1) have "unat (rl_counter r) + Suc n < 2 ^ 64 - 1" by (fastforce simp: room_def)
      with assms(3) l True Some show ?thesis by (simp add: leader_after_def)
    qed
  qed
  with assms(1) show ?thesis by (simp add: room_def)
qed

lemma second_bid_fails:
  assumes wf: "wf e" and room: "room (length ops + 2) (rows e)" and sleep: "\<And>e d. items (rt_sleep st e d) = items e"
    and 1: "leadership_step ord1 (aws_leases st) scan now1 ld1 e = (e1, ld1', True)"
    and 2: "exec_all st ops e1 = (e2, bs)" "\<forall>op \<in> set ops. \<not> (is_delete op \<and> op_key op = LEADER_LEASE_KEY)"
    and 3: "leadership_step ord2 (aws_leases st) scan now2 ld2 e2 = (e3, ld2', True)"
  shows False
proof -
  let ?k = LEADER_LEASE_KEY
  let ?row = "List.find (\<lambda>r. rl_key r = ?k) scan"
  have r0: "room (Suc (length ops + 1)) (rows e)" using room by simp
  note c1 = leadership_confirmed [OF wf room_below_max [OF room] sleep 1]
  have r1: "room (length ops + 1) (rows e1)" using leadership_room [OF r0, of ?row ?k e1] c1 by blast
  then have r1': "room (length ops) (rows e1)" by (fastforce simp: room_def)
  have e2: "wf e2" "below_max (rows e2 ?k)"
    using exec_all_inv [OF _ r1 2(1)] c1 room_below_max by blast+
  obtain l1 where l1: "rows e1 ?k = Some l1" "unat (lease_counter l1) = (case ?row of None \<Rightarrow> 1 | Some r \<Rightarrow> unat (rl_counter r) + 1)"
    using c1 by (auto simp: leader_after_def)
  then obtain l2 where l2: "rows e2 ?k = Some l2" "unat (lease_counter l1) \<le> unat (lease_counter l2)"
    using exec_all_mono [OF _ r1' 2(1) l1(1) 2(2)] c1 by blast
  have "leader_at ?row (rows e2 ?k)" using leadership_confirmed [OF e2 sleep 3] by blast
  with l1(2) l2 show False by (auto simp: leader_at_def split: option.splits)
qed

end

section \<open>Properties\<close>



text \<open>
  What the single worker resumes from on the live store: acquiring a lease that
  exists keeps the checkpoint in the table, but the handle it returns has none, so the worker's
  loop starts at the beginning of the shard (\<open>after = None\<close>), with the counter the claim left.
\<close>

lemma worker_restarts_shard:
  assumes "ddb_lease_store st items" and "store_wf st items e" and "below_max (store_rows st items e (meta_id meta))"
    and "w_leases w = aws_leases st" and "store_rows st items e (meta_id meta) = Some l"
    and "acquire st (meta_id meta) (w_owner w) e = (e1, Inr h)"
  shows "worker_process_shard w proc meta e =
      worker_loop w proc (meta_id meta) None (lease_counter l + 1) (p_initialize proc e1 (meta_id meta)) \<and>
    map_option lease_checkpoint (store_rows st items e1 (meta_id meta)) = Some (lease_checkpoint l)"
  using ddb_lease_store.acquire_spec [OF assms(1-3,6)] assms(4-6)
  by (simp add: worker_process_shard_def aws_leases_def lease_handle_def bump_def)

lemma worker_restarts_shard_witness:
  "\<forall>S proc. \<exists>e1. worker_process_shard \<lparr>w_source = S, w_leases = aws_leases sim_store, w_owner = ''w1''\<rparr> proc
       \<lparr>meta_id = ''shard-1'', meta_parents = []\<rparr> (sim_one []) =
     worker_loop \<lparr>w_source = S, w_leases = aws_leases sim_store, w_owner = ''w1''\<rparr> proc ''shard-1'' None 1 (p_initialize proc e1 ''shard-1'') \<and>
     map_option lease_checkpoint (store_rows sim_store sim_db e1 ''shard-1'') = Some (Some ''LATEST'')"
proof (intro allI)
  fix S and proc :: "sim RecordProcessor"
  let ?w = "\<lparr>w_source = S, w_leases = aws_leases sim_store, w_owner = ''w1''\<rparr>" and ?m = "\<lparr>meta_id = ''shard-1'', meta_parents = []\<rparr>"
  let ?l = "fresh_lease ''shard-1'' None 0 (Some ''LATEST'') [''shard-0'']"
  obtain e1 r where a: "acquire sim_store ''shard-1'' ''w1'' (sim_one []) = (e1, r)" by fastforce
  have "\<not> isl (snd (acquire sim_store ''shard-1'' ''w1'' (sim_one [])))" by code_simp
  then obtain h where h: "acquire sim_store ''shard-1'' ''w1'' (sim_one []) = (e1, Inr h)" using a by (cases r) auto
  have b: "below_max (store_rows sim_store sim_db (sim_one []) ''shard-1'')" by (simp add: below_max_def at_counter_def fresh_lease_def)
  have "worker_process_shard ?w proc ?m (sim_one []) =
      worker_loop ?w proc (meta_id ?m) None (lease_counter ?l + 1) (p_initialize proc e1 (meta_id ?m)) \<and>
    map_option lease_checkpoint (store_rows sim_store sim_db e1 (meta_id ?m)) = Some (lease_checkpoint ?l)"
    by (rule worker_restarts_shard [OF sim_leases.ddb_lease_store_axioms sim_one_wf]) (use b in \<open>simp_all add: h\<close>)
  then have "worker_process_shard ?w proc ?m (sim_one []) = worker_loop ?w proc ''shard-1'' None 1 (p_initialize proc e1 ''shard-1'') \<and>
     map_option lease_checkpoint (store_rows sim_store sim_db e1 ''shard-1'') = Some (Some ''LATEST'')"
    by (simp add: fresh_lease_def)
  then show "\<exists>e1. worker_process_shard ?w proc ?m (sim_one []) = worker_loop ?w proc ''shard-1'' None 1 (p_initialize proc e1 ''shard-1'') \<and>
     map_option lease_checkpoint (store_rows sim_store sim_db e1 ''shard-1'') = Some (Some ''LATEST'')" by blast
qed

end
