(* ===== verification/Shard_Graph.thy ===== *)
theory Shard_Graph
  imports Positions
begin

text \<open>
  The network-free shard-graph logic of the DynamoDB Streams source
  (\<open>source-ddbstreams/src/lib.rs\<close>): turning \<open>DescribeStream\<close> pages into lineage,
  merging children found with the \<open>CHILD_SHARDS\<close> filter, and closing parents that are
  reported open.
\<close>

section \<open>Data and operations\<close>

record DdbShard =
  ddb_shard_id :: ShardId
  ddb_parent_shard_id :: "ShardId option"
  ddb_ending_sequence_number :: "string option"

definition ddb_shard_new :: "ShardId \<Rightarrow> string option \<Rightarrow> DdbShard" where
  "ddb_shard_new sid parent =
     \<lparr>ddb_shard_id = sid, ddb_parent_shard_id = parent, ddb_ending_sequence_number = None\<rparr>"

definition ddb_shard_closed :: "ShardId \<Rightarrow> string option \<Rightarrow> string \<Rightarrow> DdbShard" where
  "ddb_shard_closed sid parent ending_seq =
     \<lparr>ddb_shard_id = sid, ddb_parent_shard_id = parent, ddb_ending_sequence_number = Some ending_seq\<rparr>"

definition is_open :: "DdbShard \<Rightarrow> bool" where
  "is_open s = (ddb_ending_sequence_number s = None)"

datatype ShardFilterType = ChildShards

record ShardFilter =
  filter_type :: ShardFilterType
  filter_shard_id :: "ShardId option"

definition child_shards_filter :: "ShardId \<Rightarrow> ShardFilter" where
  "child_shards_filter parent = \<lparr>filter_type = ChildShards, filter_shard_id = Some parent\<rparr>"

definition type_as_string :: "ShardFilter \<Rightarrow> string" where
  "type_as_string f = (case filter_type f of ChildShards \<Rightarrow> ''CHILD_SHARDS'')"

definition parents_of :: "DdbShard \<Rightarrow> ShardId set \<Rightarrow> ShardId list" where
  "parents_of s present =
     (case ddb_parent_shard_id s of
        Some p \<Rightarrow> if p \<in> present then [p] else []
      | None \<Rightarrow> [])"

definition build_shard_graph :: "DdbShard list list \<Rightarrow> ShardMeta list" where
  "build_shard_graph pages =
     (let shards = dedup_by ddb_shard_id {} (concat pages);
          present = set (map ddb_shard_id shards)
      in map (\<lambda>s. \<lparr>meta_id = ddb_shard_id s, meta_parents = parents_of s present\<rparr>) shards)"

definition merge_child_shards :: "ShardMeta list \<Rightarrow> DdbShard list \<Rightarrow> ShardMeta list" where
  "merge_child_shards existing discovered =
     (let seen = set (map meta_id existing);
          present = seen \<union> set (map ddb_shard_id discovered)
      in existing @
         map (\<lambda>s. \<lparr>meta_id = ddb_shard_id s, meta_parents = parents_of s present\<rparr>)
           (dedup_by ddb_shard_id seen discovered))"

definition CLOSED_BY_SHARD_SYNC :: string where
  "CLOSED_BY_SHARD_SYNC = ''__closed_by_shard_sync__''"

definition close_open_parents :: "DdbShard list \<Rightarrow> DdbShard list" where
  "close_open_parents shards =
     (let parent_ids = set (List.map_filter ddb_parent_shard_id shards)
      in map (\<lambda>s. if is_open s \<and> ddb_shard_id s \<in> parent_ids
                  then s\<lparr>ddb_ending_sequence_number := Some CLOSED_BY_SHARD_SYNC\<rparr> else s) shards)"

section \<open>Lemmas\<close>

lemma set_parents_of: "p \<in> set (parents_of s present) \<longleftrightarrow> ddb_parent_shard_id s = Some p \<and> p \<in> present"
  by (auto simp: parents_of_def split: option.splits)

lemma build_shard_graph_ids:
  "map meta_id (build_shard_graph pages) = map ddb_shard_id (dedup_by ddb_shard_id {} (concat pages))"
  by (simp add: build_shard_graph_def Let_def comp_def)

lemma set_map_filter_parent:
  "p \<in> set (List.map_filter ddb_parent_shard_id shards) \<longleftrightarrow> (\<exists>s \<in> set shards. ddb_parent_shard_id s = Some p)"
  by (force simp: List.map_filter_def)

lemma close_open_parents_frame:
  "map ddb_shard_id (close_open_parents shards) = map ddb_shard_id shards"
  "map ddb_parent_shard_id (close_open_parents shards) = map ddb_parent_shard_id shards"
  by (auto simp: close_open_parents_def Let_def)

lemma map_filter_conv: "List.map_filter f xs = map the (filter (\<lambda>y. y \<noteq> None) (map f xs))"
  by (induction xs) (auto simp: List.map_filter_def)

section \<open>Properties\<close>

text \<open>
  C32 (functional). The graph built from the pages lists every shard id of the pages exactly once,
  in the order of first sight; every parent it names is itself a shard of the graph (so no child
  waits for a trimmed parent), and a parent is dropped only if it is not in the pages.
\<close>

theorem build_shard_graph_spec:
  "distinct (map meta_id (build_shard_graph pages)) \<and>
   map meta_id (build_shard_graph pages) = rev (remdups (rev (map ddb_shard_id (concat pages)))) \<and>
   (\<forall>m \<in> set (build_shard_graph pages). set (meta_parents m) \<subseteq> meta_id ` set (build_shard_graph pages)) \<and>
   (\<forall>m \<in> set (build_shard_graph pages). \<exists>s \<in> set (concat pages). ddb_shard_id s = meta_id m \<and>
      meta_parents m = (case ddb_parent_shard_id s of
         Some p \<Rightarrow> if p \<in> ddb_shard_id ` set (concat pages) then [p] else [] | None \<Rightarrow> []))"
proof -
  let ?D = "dedup_by ddb_shard_id {} (concat pages)"
  have keys: "ddb_shard_id ` set ?D = ddb_shard_id ` set (concat pages)" by (simp add: dedup_by_keys)
  have order: "map ddb_shard_id (dedup_by ddb_shard_id seen xs) =
      filter (\<lambda>k. k \<notin> seen) (rev (remdups (rev (map ddb_shard_id xs))))" for seen xs
  proof (induction xs arbitrary: seen rule: rev_induct)
    case (snoc x xs)
    show ?case
      by (cases "ddb_shard_id x \<in> ddb_shard_id ` set xs")
        (auto simp: dedup_by_append snoc image_iff)
  qed simp
  have "map meta_id (build_shard_graph pages) = rev (remdups (rev (map ddb_shard_id (concat pages))))"
    by (simp add: build_shard_graph_ids order)
  moreover have "distinct (map meta_id (build_shard_graph pages))"
    by (simp only: build_shard_graph_ids distinct_dedup_by)
  moreover have "set (meta_parents m) \<subseteq> meta_id ` set (build_shard_graph pages)"
    if "m \<in> set (build_shard_graph pages)" for m
    using that by (auto simp: build_shard_graph_def Let_def set_parents_of image_iff)
  moreover have "\<exists>s \<in> set (concat pages). ddb_shard_id s = meta_id m \<and>
      meta_parents m = (case ddb_parent_shard_id s of
         Some p \<Rightarrow> if p \<in> ddb_shard_id ` set (concat pages) then [p] else [] | None \<Rightarrow> [])"
    if m: "m \<in> set (build_shard_graph pages)" for m
  proof -
    from m obtain s where "s \<in> set ?D" "m = \<lparr>meta_id = ddb_shard_id s, meta_parents = parents_of s (ddb_shard_id ` set ?D)\<rparr>"
      by (auto simp: build_shard_graph_def Let_def)
    moreover from this have "s \<in> set (concat pages)"
      using set_dedup_by [of ddb_shard_id "{}" "concat pages"] by auto
    ultimately show ?thesis
      by (intro bexI [of _ s]) (auto simp: parents_of_def keys split: option.splits)
  qed
  ultimately show ?thesis by blast
qed

theorem build_shard_graph_spec_witness:
  "distinct (map meta_id (build_shard_graph [[ddb_shard_new ''a'' None], [ddb_shard_new ''a'' None, ddb_shard_new ''b'' (Some ''a'')]])) \<and>
   build_shard_graph [[ddb_shard_new ''a'' None], [ddb_shard_new ''a'' None, ddb_shard_new ''b'' (Some ''a'')]] =
     [\<lparr>meta_id = ''a'', meta_parents = []\<rparr>, \<lparr>meta_id = ''b'', meta_parents = [''a'']\<rparr>]"
proof -
  have "build_shard_graph [[ddb_shard_new ''a'' None], [ddb_shard_new ''a'' None, ddb_shard_new ''b'' (Some ''a'')]] =
     [\<lparr>meta_id = ''a'', meta_parents = []\<rparr>, \<lparr>meta_id = ''b'', meta_parents = [''a'']\<rparr>]"
    by code_simp
  then show ?thesis
    using build_shard_graph_spec [of "[[ddb_shard_new ''a'' None], [ddb_shard_new ''a'' None, ddb_shard_new ''b'' (Some ''a'')]]"]
    by blast
qed

text \<open>
  Incremental sync only appends: the known graph is kept as a prefix, exactly the
  unknown shard ids are added (each once, so ids stay distinct), every added shard keeps the parent
  that is known or discovered with it, and merging the same children again changes nothing.
\<close>

lemma merge_child_shards_spec:
  assumes "distinct (map meta_id existing)"
  shows "take (length existing) (merge_child_shards existing discovered) = existing \<and>
    distinct (map meta_id (merge_child_shards existing discovered)) \<and>
    meta_id ` set (merge_child_shards existing discovered) =
      meta_id ` set existing \<union> ddb_shard_id ` set discovered \<and>
    merge_child_shards (merge_child_shards existing discovered) discovered =
      merge_child_shards existing discovered"
proof -
  let ?M = "merge_child_shards existing discovered"
  let ?D = "dedup_by ddb_shard_id (meta_id ` set existing) discovered"
  have ids: "map meta_id ?M = map meta_id existing @ map ddb_shard_id ?D"
    by (simp add: merge_child_shards_def Let_def comp_def)
  have keys: "ddb_shard_id ` set ?D = ddb_shard_id ` set discovered - meta_id ` set existing"
    by (rule dedup_by_keys)
  have dist: "distinct (map meta_id ?M)"
    using assms keys distinct_dedup_by [of ddb_shard_id "meta_id ` set existing" discovered]
    by (auto simp: ids)
  have set_ids: "meta_id ` set ?M = meta_id ` set existing \<union> ddb_shard_id ` set discovered"
    using ids keys by (metis Un_Diff_cancel list.set_map set_append)
  have "dedup_by ddb_shard_id (meta_id ` set ?M) discovered = []"
    using dedup_by_keys [of ddb_shard_id "meta_id ` set ?M" discovered]
    unfolding set_ids by (metis Diff_eq_empty_iff Un_upper2 image_is_empty set_empty)
  then have "merge_child_shards ?M discovered = ?M"
    by (simp add: merge_child_shards_def [of ?M] Let_def)
  with dist set_ids show ?thesis by (simp add: merge_child_shards_def Let_def)
qed

text \<open>
  Closing open parents closes exactly the shards another shard names as parent
  and that were open; ids and lineage are untouched, a real ending sequence number is never
  overwritten, childless shards keep their state, and a second pass changes nothing.
\<close>

lemma close_open_parents_spec:
  "map ddb_shard_id (close_open_parents shards) = map ddb_shard_id shards \<and>
   map ddb_parent_shard_id (close_open_parents shards) = map ddb_parent_shard_id shards \<and>
   map ddb_ending_sequence_number (close_open_parents shards) =
     map (\<lambda>s. case ddb_ending_sequence_number s of
        Some e \<Rightarrow> Some e
      | None \<Rightarrow> if Some (ddb_shard_id s) \<in> ddb_parent_shard_id ` set shards
                then Some CLOSED_BY_SHARD_SYNC else None) shards \<and>
   close_open_parents (close_open_parents shards) = close_open_parents shards"
proof -
  have iff: "ddb_shard_id s \<in> set (List.map_filter ddb_parent_shard_id shards) \<longleftrightarrow>
      Some (ddb_shard_id s) \<in> ddb_parent_shard_id ` set shards" for s
    by (force simp: set_map_filter_parent)
  have "List.map_filter ddb_parent_shard_id (close_open_parents shards) = List.map_filter ddb_parent_shard_id shards"
    by (simp only: map_filter_conv close_open_parents_frame)
  then have "close_open_parents (close_open_parents shards) = close_open_parents shards"
    by (simp add: close_open_parents_def [of "close_open_parents shards"] Let_def)
      (auto simp: close_open_parents_def Let_def is_open_def)
  then show ?thesis
    by (auto simp: close_open_parents_frame) (auto simp: close_open_parents_def Let_def is_open_def iff split: option.splits)
qed

end
