(* ===== verification/Change_Record.thy ===== *)
theory Change_Record
  imports Positions
begin

text \<open>
  The typed change record (\<open>core/src/record.rs\<close>), its construction from the records of the
  streams SDK (\<open>source-ddbstreams/src/record.rs\<close>), and the views the Rust client gives of it
  (\<open>clients/rust/src/lib.rs\<close>): the native and the DynamoDB JSON of an item, and the decoding of
  an opaque payload into the record a processor sees.

  A \<open>BTreeMap\<close> is the association list of its entries in key order; collecting into one inserts the
  entries one by one. A \<open>HashMap\<close> of the SDK is the list of its entries in iteration order. The
  serialiser (\<open>serde_json\<close>) and the \<open>base64\<close> crate are parameters.
\<close>

section \<open>Ordered maps\<close>

fun btree_insert :: "'k :: linorder \<Rightarrow> 'v \<Rightarrow> ('k \<times> 'v) list \<Rightarrow> ('k \<times> 'v) list" where
  "btree_insert k v [] = [(k, v)]"
| "btree_insert k v ((k', v') # m) =
     (if k < k' then (k, v) # (k', v') # m
      else if k = k' then (k, v) # m
      else (k', v') # btree_insert k v m)"

definition btree_collect :: "('k :: linorder \<times> 'v) list \<Rightarrow> ('k \<times> 'v) list" where
  "btree_collect xs = fold (\<lambda>(k, v). btree_insert k v) xs []"

definition btree_wf :: "('k :: linorder \<times> 'v) list \<Rightarrow> bool" where
  "btree_wf m \<longleftrightarrow> sorted_wrt (<) (map fst m)"

section \<open>The typed record\<close>

type_synonym u8 = "8 word"

datatype AttrValue =
    AttrS string | AttrN string | AttrBool bool | AttrNull | AttrB "u8 list"
  | AttrM "(string \<times> AttrValue) list" | AttrL "AttrValue list"
  | AttrSs "string list" | AttrNs "string list" | AttrBs "u8 list list"

type_synonym Item = "(string \<times> AttrValue) list"

record StreamRecord =
  sr_event_name :: "string option"
  sr_sequence_number :: "string option"
  sr_size_bytes :: "int option"
  sr_stream_view_type :: "string option"
  sr_keys :: Item
  sr_new_image :: "Item option"
  sr_old_image :: "Item option"
  sr_approx_creation_time_ms :: "int option"

definition stream_record_default :: StreamRecord where
  "stream_record_default =
     \<lparr>sr_event_name = None, sr_sequence_number = None, sr_size_bytes = None, sr_stream_view_type = None,
      sr_keys = [], sr_new_image = None, sr_old_image = None, sr_approx_creation_time_ms = None\<rparr>"

text \<open>The payload codec: \<open>StreamRecord::encode\<close> and \<open>decode\<close>, derived by serde.\<close>

record payload_codec =
  pc_encode :: "StreamRecord \<Rightarrow> u8 list"
  pc_decode :: "u8 list \<Rightarrow> string + StreamRecord"

definition codec_ok :: "payload_codec \<Rightarrow> bool" where
  "codec_ok pc \<longleftrightarrow> (\<forall>r. pc_decode pc (pc_encode pc r) = Inr r)"

section \<open>From the SDK\<close>

text \<open>\<open>Sdk_Unknown\<close> is a variant of a newer service; the enumerations are their \<open>as_str\<close>.\<close>

datatype SdkAttr =
    Sdk_S string | Sdk_N string | Sdk_Bool bool | Sdk_Null bool | Sdk_B "u8 list"
  | Sdk_M "(string \<times> SdkAttr) list" | Sdk_L "SdkAttr list"
  | Sdk_Ss "string list" | Sdk_Ns "string list" | Sdk_Bs "u8 list list" | Sdk_Unknown

text \<open>\<open>dt_to_millis\<close> is the result of \<open>DateTime::to_millis\<close>, absent where it fails.\<close>

record SdkDateTime =
  dt_secs :: int
  dt_to_millis :: "int option"

record SdkStreamRecord =
  ds_sequence_number :: "string option"
  ds_size_bytes :: "int option"
  ds_stream_view_type :: "string option"
  ds_keys :: "(string \<times> SdkAttr) list option"
  ds_new_image :: "(string \<times> SdkAttr) list option"
  ds_old_image :: "(string \<times> SdkAttr) list option"
  ds_approximate_creation_date_time :: "SdkDateTime option"

record SdkRecord =
  sdk_event_name :: "string option"
  sdk_dynamodb :: "SdkStreamRecord option"

primrec attr :: "SdkAttr \<Rightarrow> AttrValue" where
  "attr (Sdk_S s) = AttrS s"
| "attr (Sdk_N n) = AttrN n"
| "attr (Sdk_Bool b) = AttrBool b"
| "attr (Sdk_Null b) = AttrNull"
| "attr (Sdk_B b) = AttrB b"
| "attr (Sdk_M m) = AttrM (btree_collect (map (map_prod id attr) m))"
| "attr (Sdk_L l) = AttrL (map attr l)"
| "attr (Sdk_Ss ss) = AttrSs ss"
| "attr (Sdk_Ns ns) = AttrNs ns"
| "attr (Sdk_Bs bs) = AttrBs bs"
| "attr Sdk_Unknown = AttrNull"

definition map_btree :: "(string \<times> SdkAttr) list \<Rightarrow> Item" where
  "map_btree m = btree_collect (map (map_prod id attr) m)"

text \<open>
  \<open>t.to_millis().unwrap_or_else(|_| t.secs() * 1000)\<close>, the product wrapped to 64 bits as in a
  release build.
\<close>

definition creation_ms :: "SdkDateTime \<Rightarrow> int" where
  "creation_ms t = (case dt_to_millis t of Some ms \<Rightarrow> ms | None \<Rightarrow> signed_take_bit 63 (dt_secs t * 1000))"

definition non_empty_image :: "(string \<times> SdkAttr) list option \<Rightarrow> Item option" where
  "non_empty_image im = (case im of None \<Rightarrow> None | Some m \<Rightarrow> if m = [] then None else Some (map_btree m))"

definition from_sdk :: "SdkRecord \<Rightarrow> StreamRecord" where
  "from_sdk r =
     (let sr = sdk_dynamodb r in
      \<lparr>sr_event_name = sdk_event_name r,
       sr_sequence_number = Option.bind sr ds_sequence_number,
       sr_size_bytes = Option.bind sr ds_size_bytes,
       sr_stream_view_type = Option.bind sr ds_stream_view_type,
       sr_keys = (case Option.bind sr ds_keys of None \<Rightarrow> [] | Some m \<Rightarrow> map_btree m),
       sr_new_image = non_empty_image (Option.bind sr ds_new_image),
       sr_old_image = non_empty_image (Option.bind sr ds_old_image),
       sr_approx_creation_time_ms = map_option creation_ms (Option.bind sr ds_approximate_creation_date_time)\<rparr>)"

section \<open>The views of the client\<close>

datatype RecordFormat = Native | DdbJson

text \<open>The part of \<open>serde_json::Value\<close> the views are built from.\<close>

datatype Value = JNull | JBool bool | JString string | JArray "Value list" | JObject "(string \<times> Value) list"

primrec to_native_json :: "(u8 list \<Rightarrow> string) \<Rightarrow> AttrValue \<Rightarrow> Value" where
  "to_native_json b64 (AttrS s) = JString s"
| "to_native_json b64 (AttrN n) = JString n"
| "to_native_json b64 (AttrBool b) = JBool b"
| "to_native_json b64 AttrNull = JNull"
| "to_native_json b64 (AttrB b) = JString (b64 b)"
| "to_native_json b64 (AttrM m) = JObject (btree_collect (map (map_prod id (to_native_json b64)) m))"
| "to_native_json b64 (AttrL l) = JArray (map (to_native_json b64) l)"
| "to_native_json b64 (AttrSs ss) = JArray (map JString ss)"
| "to_native_json b64 (AttrNs ns) = JArray (map JString ns)"
| "to_native_json b64 (AttrBs bs) = JArray (map (JString \<circ> b64) bs)"

primrec to_ddb_json :: "(u8 list \<Rightarrow> string) \<Rightarrow> AttrValue \<Rightarrow> Value" where
  "to_ddb_json b64 (AttrS s) = JObject [(''S'', JString s)]"
| "to_ddb_json b64 (AttrN n) = JObject [(''N'', JString n)]"
| "to_ddb_json b64 (AttrBool b) = JObject [(''BOOL'', JBool b)]"
| "to_ddb_json b64 AttrNull = JObject [(''NULL'', JBool True)]"
| "to_ddb_json b64 (AttrB b) = JObject [(''B'', JString (b64 b))]"
| "to_ddb_json b64 (AttrM m) = JObject [(''M'', JObject (btree_collect (map (map_prod id (to_ddb_json b64)) m)))]"
| "to_ddb_json b64 (AttrL l) = JObject [(''L'', JArray (map (to_ddb_json b64) l))]"
| "to_ddb_json b64 (AttrSs ss) = JObject [(''SS'', JArray (map JString ss))]"
| "to_ddb_json b64 (AttrNs ns) = JObject [(''NS'', JArray (map JString ns))]"
| "to_ddb_json b64 (AttrBs bs) = JObject [(''BS'', JArray (map (JString \<circ> b64) bs))]"

definition item_to_json :: "(u8 list \<Rightarrow> string) \<Rightarrow> Item \<Rightarrow> RecordFormat \<Rightarrow> Value" where
  "item_to_json b64 item fmt =
     (let conv = (case fmt of Native \<Rightarrow> to_native_json b64 | DdbJson \<Rightarrow> to_ddb_json b64)
      in JObject (btree_collect (map (map_prod id conv) item)))"

record ClientRecord =
  cr_shard_id :: string
  cr_sequence_number :: string
  cr_event_name :: "string option"
  cr_stream_view_type :: "string option"
  cr_keys :: Item
  cr_new_image :: "Item option"
  cr_old_image :: "Item option"
  cr_format :: RecordFormat

definition keys_json :: "(u8 list \<Rightarrow> string) \<Rightarrow> ClientRecord \<Rightarrow> Value" where
  "keys_json b64 r = item_to_json b64 (cr_keys r) (cr_format r)"

definition new_image_json :: "(u8 list \<Rightarrow> string) \<Rightarrow> ClientRecord \<Rightarrow> Value option" where
  "new_image_json b64 r = map_option (\<lambda>i. item_to_json b64 i (cr_format r)) (cr_new_image r)"

definition old_image_json :: "(u8 list \<Rightarrow> string) \<Rightarrow> ClientRecord \<Rightarrow> Value option" where
  "old_image_json b64 r = map_option (\<lambda>i. item_to_json b64 i (cr_format r)) (cr_old_image r)"

definition decode_record :: "payload_codec \<Rightarrow> Record \<Rightarrow> RecordFormat \<Rightarrow> ClientRecord" where
  "decode_record pc r format =
     (let sr = (case pc_decode pc (rec_data r) of Inr sr \<Rightarrow> sr | Inl _ \<Rightarrow> stream_record_default) in
      \<lparr>cr_shard_id = rec_shard_id r,
       cr_sequence_number = (case sr_sequence_number sr of Some s \<Rightarrow> s | None \<Rightarrow> rec_seq r),
       cr_event_name = sr_event_name sr, cr_stream_view_type = sr_stream_view_type sr,
       cr_keys = sr_keys sr, cr_new_image = sr_new_image sr, cr_old_image = sr_old_image sr,
       cr_format = format\<rparr>)"

section \<open>Lemmas on ordered maps\<close>

lemma btree_wf_Nil [simp]: "btree_wf []"
  by (simp add: btree_wf_def)

lemma map_fst_btree_insert: "set (map fst (btree_insert k v m)) = insert k (set (map fst m))"
  by (induction k v m rule: btree_insert.induct) auto

lemma btree_wf_insert [simp]: "btree_wf m \<Longrightarrow> btree_wf (btree_insert k v m)"
proof (induction k v m rule: btree_insert.induct)
  case (2 k v k' v' m)
  have "set (map fst (btree_insert k v m)) = insert k (set (map fst m))" by (rule map_fst_btree_insert)
  with 2 show ?case by (fastforce simp: btree_wf_def)
qed (simp add: btree_wf_def)

lemma map_of_btree_insert [simp]: "map_of (btree_insert k v m) = (map_of m)(k \<mapsto> v)"
  by (induction k v m rule: btree_insert.induct) auto

lemma btree_wf_fold: "btree_wf m \<Longrightarrow> btree_wf (fold (\<lambda>(k, v). btree_insert k v) xs m)"
  by (induction xs arbitrary: m) auto

lemma btree_wf_collect [simp]: "btree_wf (btree_collect xs)"
  by (simp add: btree_collect_def btree_wf_fold)

lemma map_of_fold_insert:
  "map_of (fold (\<lambda>(k, v). btree_insert k v) xs m) = map_of m ++ map_of (rev xs)"
  by (induction xs arbitrary: m) auto

lemma map_of_btree_collect: "map_of (btree_collect xs) = map_of (rev xs)"
  by (simp add: btree_collect_def map_of_fold_insert)

lemma set_fold_insert: "set (fold (\<lambda>(k, v). btree_insert k v) xs m) \<subseteq> set xs \<union> set m"
proof (induction xs arbitrary: m)
  case (Cons p xs)
  have "set (btree_insert k v m) \<subseteq> insert (k, v) (set m)" for k :: 'a and v :: 'b
    by (induction k v m rule: btree_insert.induct) auto
  with Cons show ?case by (cases p) fastforce
qed simp

lemma set_btree_collect: "set (btree_collect xs) \<subseteq> set xs"
  using set_fold_insert [of xs "[]"] by (simp add: btree_collect_def)

text \<open>Two ordered maps with the same entries are the same list.\<close>

lemma btree_wf_distinct: "btree_wf m \<Longrightarrow> distinct (map fst m)"
  by (simp add: btree_wf_def strict_sorted_iff)

lemma alist_as_map: "distinct (map fst m) \<Longrightarrow> map (\<lambda>k. (k, the (map_of m k))) (map fst m) = m"
  by (auto simp: comp_def intro!: map_idI)

lemma btree_unique:
  assumes "btree_wf m" "btree_wf m'" "map_of m = map_of m'"
  shows "m = m'"
proof -
  have "set (map fst m) = set (map fst m')" using dom_map_of_conv_image_fst [of m] dom_map_of_conv_image_fst [of m'] assms(3) by simp
  then have k: "map fst m = map fst m'"
    using assms(1,2) by (intro strict_sorted_equal) (auto simp: btree_wf_def)
  show ?thesis using alist_as_map [OF btree_wf_distinct, OF assms(1)] alist_as_map [OF btree_wf_distinct, OF assms(2)]
    k assms(3) by metis
qed

lemma map_of_rev_distinct: "distinct (map fst m) \<Longrightarrow> map_of (rev m) = map_of m"
  by (intro map_of_inject_set [THEN iffD2]) (simp_all add: rev_map [symmetric])

lemma btree_collect_wf: "btree_wf m \<Longrightarrow> btree_collect m = m"
  by (rule btree_unique) (simp_all add: map_of_btree_collect btree_wf_distinct map_of_rev_distinct)

lemma btree_collect_perm:
  "distinct (map fst m) \<Longrightarrow> mset m = mset m' \<Longrightarrow> btree_collect m = btree_collect m'"
proof (rule btree_unique)
  assume m: "distinct (map fst m)" "mset m = mset m'"
  then have "distinct (map fst m')" by (metis mset_eq_imp_distinct_iff mset_map)
  with m show "map_of (btree_collect m) = map_of (btree_collect m')"
    by (simp add: map_of_btree_collect map_of_rev_distinct map_of_inject_set) (metis set_mset_mset)
qed simp_all

lemma btree_wf_map [simp]: "btree_wf (map (map_prod id f) m) = btree_wf m"
  by (simp add: btree_wf_def)

section \<open>Lemmas on values\<close>

text \<open>Every map inside a value is in key order.\<close>

primrec wf_attr :: "AttrValue \<Rightarrow> bool" where
  "wf_attr (AttrS s) = True"
| "wf_attr (AttrN n) = True"
| "wf_attr (AttrBool b) = True"
| "wf_attr AttrNull = True"
| "wf_attr (AttrB b) = True"
| "wf_attr (AttrM m) = (btree_wf m \<and> list_all snd (map (map_prod id wf_attr) m))"
| "wf_attr (AttrL l) = list_all id (map wf_attr l)"
| "wf_attr (AttrSs ss) = True"
| "wf_attr (AttrNs ns) = True"
| "wf_attr (AttrBs bs) = True"

definition wf_item :: "Item \<Rightarrow> bool" where
  "wf_item m = wf_attr (AttrM m)"

lemma wf_attr_M: "wf_attr (AttrM m) \<longleftrightarrow> btree_wf m \<and> (\<forall>v \<in> snd ` set m. wf_attr v)"
  by (auto simp: list_all_iff)

lemma wf_attr_L: "wf_attr (AttrL l) \<longleftrightarrow> (\<forall>v \<in> set l. wf_attr v)"
  by (auto simp: list_all_iff)

declare wf_attr.simps(6,7) [simp del]

lemma wf_attr_attr [simp]: "wf_attr (attr v)"
proof (induction v)
  case (Sdk_M m)
  have "wf_attr v" if "v \<in> snd ` set (btree_collect (map (map_prod id attr) m))" for v
    using that Sdk_M set_btree_collect [of "map (map_prod id attr) m"] by (fastforce simp: snds.simps)
  then show ?case by (simp add: wf_attr_M)
qed (auto simp: wf_attr_L)

lemma wf_map_btree [simp]: "wf_item (map_btree m)"
  using wf_attr_attr [of "Sdk_M m"] by (simp add: wf_item_def map_btree_def)

lemma map_of_map_btree: "distinct (map fst m) \<Longrightarrow> map_of (map_btree m) k = map_option attr (map_of m k)"
  by (simp add: map_btree_def map_of_btree_collect map_of_rev_distinct comp_def)
    (induction m; auto)

text \<open>
  Two values of the SDK that differ only in the iteration order of their hash maps.
\<close>

inductive same_sdk :: "SdkAttr \<Rightarrow> SdkAttr \<Rightarrow> bool" where
  same_value: "same_sdk v v"
| same_list: "list_all2 same_sdk l l' \<Longrightarrow> same_sdk (Sdk_L l) (Sdk_L l')"
| same_map: "distinct (map fst m) \<Longrightarrow> mset m = mset m' \<Longrightarrow> list_all2 (rel_prod (=) same_sdk) m' m'' \<Longrightarrow>
    same_sdk (Sdk_M m) (Sdk_M m'')"

lemma same_sdk_attr: "same_sdk v w \<Longrightarrow> attr v = attr w"
proof (induction rule: same_sdk.induct)
  case (same_list l l')
  then show ?case by (auto simp: list_all2_conv_all_nth intro: nth_equalityI)
next
  case (same_map m m' m'')
  have "map (map_prod id attr) m' = map (map_prod id attr) m''"
    using same_map(3) by (auto simp: list_all2_conv_all_nth rel_prod_sel intro!: nth_equalityI prod_eqI)
  moreover have "btree_collect (map (map_prod id attr) m) = btree_collect (map (map_prod id attr) m')"
    using same_map(1,2) by (intro btree_collect_perm) (auto simp: comp_def)
  ultimately show ?case by simp
qed simp

text \<open>\<open>unwrap\<close> removes the type wrappers of DynamoDB JSON.\<close>

fun unwrap :: "Value \<Rightarrow> Value" where
  "unwrap (JObject [(t, JArray l)]) = JArray (if t = ''L'' then map unwrap l else l)"
| "unwrap (JObject [(t, JObject m)]) = JObject (if t = ''M'' then map (\<lambda>p. (fst p, unwrap (snd p))) m else m)"
| "unwrap (JObject [(t, v)]) = (if t = ''NULL'' then JNull else v)"
| "unwrap v = v"

lemma collect_entries: "btree_wf m \<Longrightarrow> btree_collect (map (map_prod id f) m) = map (map_prod id f) m"
  by (simp add: btree_collect_wf)

lemma unwrap_ddb: "wf_attr v \<Longrightarrow> unwrap (to_ddb_json b64 v) = to_native_json b64 v"
proof (induction v)
  case (AttrM m)
  then show ?case by (auto simp: wf_attr_M collect_entries snds.simps)
qed (auto simp: wf_attr_L)

lemma ddb_json_inj:
  assumes "inj b64"
  shows "wf_attr v \<Longrightarrow> wf_attr w \<Longrightarrow> to_ddb_json b64 v = to_ddb_json b64 w \<Longrightarrow> v = w"
proof (induction v arbitrary: w)
  case (AttrM m)
  then obtain m' where w: "w = AttrM m'" by (cases w) auto
  with AttrM.prems have e: "map (map_prod id (to_ddb_json b64)) m = map (map_prod id (to_ddb_json b64)) m'"
    by (simp add: wf_attr_M collect_entries)
  have "m = m'"
  proof (rule list.inj_map_strong [OF _ e])
    fix p p' assume p: "p \<in> set m" "p' \<in> set m'" "map_prod id (to_ddb_json b64) p = map_prod id (to_ddb_json b64) p'"
    then have "to_ddb_json b64 (snd p) = to_ddb_json b64 (snd p')" by (metis snd_map_prod)
    with p AttrM.prems(1,2) w have "snd p = snd p'"
      using AttrM.IH [of p "snd p" "snd p'"] by (auto simp: wf_attr_M snds.simps)
    with p(3) show "p = p'" by (cases p; cases p') simp
  qed
  with w show ?case by simp
next
  case (AttrL l)
  then obtain l' where w: "w = AttrL l'" by (cases w) auto
  with AttrL.prems have e: "map (to_ddb_json b64) l = map (to_ddb_json b64) l'" by simp
  have "l = l'"
    by (rule list.inj_map_strong [OF _ e]) (use AttrL w in \<open>auto simp: wf_attr_L\<close>)
  with w show ?case by simp
next
  case (AttrBs bs)
  then show ?case using assms by (cases w) (auto simp: inj_map_eq_map inj_compose inj_def)
next
  case (AttrSs ss)
  then show ?case by (cases w) (auto simp: inj_map_eq_map inj_def)
next
  case (AttrNs ns)
  then show ?case by (cases w) (auto simp: inj_map_eq_map inj_def)
next
  case (AttrB b)
  then show ?case using assms by (cases w) (auto simp: inj_eq)
next
  case (AttrS x)
  then show ?case by (cases w) auto
next
  case (AttrN x)
  then show ?case by (cases w) auto
next
  case (AttrBool x)
  then show ?case by (cases w) auto
next
  case AttrNull
  then show ?case by (cases w) auto
qed

lemma btree_insert_nonempty [simp]: "btree_insert k v m \<noteq> []"
  by (induction k v m rule: btree_insert.induct) auto

lemma fold_insert_empty: "fold (\<lambda>(k, v). btree_insert k v) xs m = [] \<longleftrightarrow> xs = [] \<and> m = []"
proof (induction xs arbitrary: m)
  case (Cons p xs)
  then show ?case by (cases p) (simp only: fold_simps prod.case btree_insert_nonempty list.distinct simp_thms)
qed simp

lemma btree_collect_empty [simp]: "btree_collect m = [] \<longleftrightarrow> m = []"
  by (simp add: btree_collect_def fold_insert_empty)

lemma map_btree_empty [simp]: "map_btree m = [] \<longleftrightarrow> m = []"
  by (simp add: map_btree_def)

definition wf_stream_record :: "StreamRecord \<Rightarrow> bool" where
  "wf_stream_record r \<longleftrightarrow> wf_item (sr_keys r) \<and>
     (\<forall>i. sr_new_image r = Some i \<or> sr_old_image r = Some i \<longrightarrow> wf_item i \<and> i \<noteq> [])"

lemma wf_from_sdk [simp]: "wf_stream_record (from_sdk r)"
proof -
  have "wf_item []" by (simp add: wf_item_def wf_attr_M)
  then show ?thesis
    by (auto simp: wf_stream_record_def from_sdk_def Let_def non_empty_image_def split: option.splits if_splits)
qed

section \<open>Properties\<close>




lemma unat_lt2p8: "unat (b :: u8) < 256"
  using unsigned_less [of b] by simp


text \<open>
  C39 (equivalence). The two JSON views of an item agree: the native view is the DynamoDB JSON with
  the type wrappers removed, entry by entry and at every depth.
\<close>

theorem native_json_unwrapped:
  assumes "wf_item i"
  shows "\<exists>ms. item_to_json b64 i DdbJson = JObject ms \<and>
    item_to_json b64 i Native = JObject (map (\<lambda>p. (fst p, unwrap (snd p))) ms)"
proof -
  have "btree_wf i" and "\<forall>p \<in> set i. wf_attr (snd p)" using assms by (auto simp: wf_item_def wf_attr_M)
  then show ?thesis by (auto simp: item_to_json_def collect_entries unwrap_ddb)
qed

theorem native_json_unwrapped_witness:
  "item_to_json (\<lambda>_. ''AQID'') [(''blob'', AttrB [1, 2, 3]), (''meta'', AttrM [(''k'', AttrN ''5'')])] DdbJson =
     JObject [(''blob'', JObject [(''B'', JString ''AQID'')]),
       (''meta'', JObject [(''M'', JObject [(''k'', JObject [(''N'', JString ''5'')])])])] \<and>
   item_to_json (\<lambda>_. ''AQID'') [(''blob'', AttrB [1, 2, 3]), (''meta'', AttrM [(''k'', AttrN ''5'')])] Native =
     JObject [(''blob'', JString ''AQID''), (''meta'', JObject [(''k'', JString ''5'')])]"
proof -
  have "wf_item [(''blob'', AttrB [1, 2, 3]), (''meta'', AttrM [(''k'', AttrN ''5'')])]"
    by (simp add: wf_item_def wf_attr_M btree_wf_def)
  from native_json_unwrapped [OF this, of "\<lambda>_. ''AQID''"] show ?thesis
    by (auto simp: item_to_json_def btree_collect_def)
qed

end
