(* ===== verification/Source_Aws.thy ===== *)
theory Source_Aws
  imports Shard_Graph Change_Record Worker_Traits
begin

text \<open>
  The live source (\<open>source-ddbstreams/src/aws.rs\<close>): paginated shard discovery, and
  \<open>get_records\<close> with its threaded iterators, its self-healing and its throttle retries.

  The SDK client, the clock and the sleep are parameters, operations on an environment \<open>'e\<close>;
  errors are their messages, which is all the code looks at. The mutable part of the source is the
  map of cursors, carried next to the environment. Pagination may not end, so discovery has an
  option type.
\<close>

section \<open>The SDK client\<close>

record SdkShard =
  ss_shard_id :: "string option"
  ss_parent_shard_id :: "string option"
  ss_sequence_number_range :: "string option option"

record StreamDescription =
  sd_shards :: "SdkShard list"
  sd_last_evaluated_shard_id :: "string option"

datatype ShardIteratorType = IterAfterSequenceNumber | IterLatest | IterTrimHorizon

record GetRecordsOutput =
  gr_records :: "SdkRecord list"
  gr_next_shard_iterator :: "string option"

record 'e StreamsClient =
  sc_describe_stream :: "string \<Rightarrow> ShardFilter option \<Rightarrow> string option \<Rightarrow> 'e \<Rightarrow> 'e \<times> (string + StreamDescription option)"
  sc_get_shard_iterator :: "string \<Rightarrow> string \<Rightarrow> ShardIteratorType \<Rightarrow> string option \<Rightarrow> 'e \<Rightarrow> 'e \<times> (string + string option)"
  sc_get_records :: "string \<Rightarrow> int option \<Rightarrow> 'e \<Rightarrow> 'e \<times> (string + GetRecordsOutput)"

section \<open>The source\<close>

record Cursor =
  cur_after :: "string option"
  cur_iterator :: string

type_synonym cursors = "string \<rightharpoonup> Cursor"
type_synonym 'e src_state = "'e \<times> cursors"

text \<open>
  \<open>src_now\<close> is the time since the epoch in milliseconds, absent when the clock is before it.
\<close>

record 'e DdbStreamsSource =
  src_client :: "'e StreamsClient"
  src_stream_arn :: string
  src_max_records :: "int option"
  src_codec :: payload_codec
  src_sleep :: "'e \<Rightarrow> u64 \<Rightarrow> 'e"
  src_now :: "'e \<Rightarrow> 'e \<times> int option"

definition clamp_max_records :: "int \<Rightarrow> int" where
  "clamp_max_records n = (if n < 1 then 1 else if n > 1000 then 1000 else n)"

definition streams_source_new ::
  "'e StreamsClient \<Rightarrow> string \<Rightarrow> payload_codec \<Rightarrow> ('e \<Rightarrow> u64 \<Rightarrow> 'e) \<Rightarrow> ('e \<Rightarrow> 'e \<times> int option) \<Rightarrow> 'e DdbStreamsSource \<times> cursors" where
  "streams_source_new client arn pc sleep now =
     (\<lparr>src_client = client, src_stream_arn = arn, src_max_records = None, src_codec = pc, src_sleep = sleep, src_now = now\<rparr>,
      Map.empty)"

definition with_max_records :: "'e DdbStreamsSource \<Rightarrow> int \<Rightarrow> 'e DdbStreamsSource" where
  "with_max_records src n = src\<lparr>src_max_records := Some (clamp_max_records n)\<rparr>"

section \<open>Discovery\<close>

definition shard_id_of :: "SdkShard \<Rightarrow> string" where
  "shard_id_of s = (case ss_shard_id s of None \<Rightarrow> [] | Some i \<Rightarrow> i)"

definition raw_shard :: "SdkShard \<Rightarrow> DdbShard option" where
  "raw_shard s =
     (if shard_id_of s = [] then None
      else Some \<lparr>ddb_shard_id = shard_id_of s, ddb_parent_shard_id = ss_parent_shard_id s,
        ddb_ending_sequence_number = Option.bind (ss_sequence_number_range s) id\<rparr>)"

definition child_meta :: "SdkShard \<Rightarrow> ShardMeta option" where
  "child_meta s =
     (if shard_id_of s = [] then None
      else Some \<lparr>meta_id = shard_id_of s,
        meta_parents = (case ss_parent_shard_id s of None \<Rightarrow> [] | Some p \<Rightarrow> [p])\<rparr>)"

text \<open>The loop both discovery functions have: \<open>conv\<close> keeps or skips a shard.\<close>

partial_function (option) page_loop ::
  "(SdkShard \<Rightarrow> 'a option) \<Rightarrow> (string option \<Rightarrow> 'e \<Rightarrow> 'e \<times> (string + StreamDescription option)) \<Rightarrow>
   'a list \<Rightarrow> string option \<Rightarrow> 'e \<Rightarrow> ('e \<times> (string + 'a list)) option" where
  "page_loop conv send raw start e =
     (case send start e of
        (e', Inl err) \<Rightarrow> Some (e', Inl err)
      | (e', Inr None) \<Rightarrow> Some (e', Inr raw)
      | (e', Inr (Some desc)) \<Rightarrow>
          (let raw' = raw @ List.map_filter conv (sd_shards desc) in
           case sd_last_evaluated_shard_id desc of
             Some i \<Rightarrow> page_loop conv send raw' (Some i) e'
           | None \<Rightarrow> Some (e', Inr raw')))"

definition describe_shards :: "'e DdbStreamsSource \<Rightarrow> 'e \<Rightarrow> ('e \<times> (WorkerError + ShardMeta list)) option" where
  "describe_shards src e =
     map_option (map_prod id (map_sum id (\<lambda>raw. build_shard_graph [close_open_parents raw])))
       (page_loop raw_shard (sc_describe_stream (src_client src) (src_stream_arn src) None) [] None e)"

definition describe_child_shards ::
  "'e DdbStreamsSource \<Rightarrow> string \<Rightarrow> 'e \<Rightarrow> ('e \<times> (WorkerError + ShardMeta list)) option" where
  "describe_child_shards src parent e =
     page_loop child_meta
       (sc_describe_stream (src_client src) (src_stream_arn src) (Some (child_shards_filter parent))) [] None e"

section \<open>Errors\<close>

definition contains :: "string \<Rightarrow> string \<Rightarrow> bool" where
  "contains s p = list_ex (\<lambda>i. starts_with p (drop i s)) [0..<Suc (length s)]"

lemma contains_code [code]:
  "contains [] p = starts_with p []"
  "contains (c # s) p = (starts_with p (c # s) \<or> contains s p)"
proof -
  have "(\<exists>i \<in> {0..<Suc (Suc (length s))}. starts_with p (drop i (c # s))) \<longleftrightarrow>
      starts_with p (c # s) \<or> (\<exists>i \<in> {0..<Suc (length s)}. starts_with p (drop i s))"
    by (simp only: atLeast0_lessThan_Suc_eq_insert_0 bex_simps) auto
  then show "contains (c # s) p = (starts_with p (c # s) \<or> contains s p)"
    by (simp only: contains_def list_ex_iff set_upt list.size(4) add_Suc_right add_0_right)
qed (simp add: contains_def)

definition is_recoverable :: "string \<Rightarrow> bool" where
  "is_recoverable msg \<longleftrightarrow> contains msg ''TrimmedDataAccessException'' \<or>
     contains msg ''ExpiredIteratorException'' \<or> contains msg ''ResourceNotFoundException''"

definition is_throttling :: "string \<Rightarrow> bool" where
  "is_throttling msg \<longleftrightarrow> contains msg ''ProvisionedThroughputExceededException'' \<or>
     contains msg ''ThrottlingException'' \<or> contains msg ''RequestLimitExceeded'' \<or>
     contains msg ''LimitExceededException''"

definition streams_throttled :: "string + 'r \<Rightarrow> bool" where
  "streams_throttled r = (case r of Inl msg \<Rightarrow> is_throttling msg | Inr _ \<Rightarrow> False)"

definition with_throttle_retry_streams ::
  "('e \<Rightarrow> u64 \<Rightarrow> 'e) \<Rightarrow> ('e \<Rightarrow> 'e \<times> (string + 'r)) \<Rightarrow> 'e \<Rightarrow> 'e \<times> (string + 'r)" where
  "with_throttle_retry_streams sleep op e = retry_from streams_throttled sleep op 4 100 e"

section \<open>Iterators and cursors\<close>

definition derive_iterator ::
  "'e DdbStreamsSource \<Rightarrow> string \<Rightarrow> string option \<Rightarrow> 'e \<Rightarrow> 'e \<times> (string + string option)" where
  "derive_iterator src shard after e =
     (let (iter_type, seq) =
        (case from_checkpoint after of
           After s \<Rightarrow> (IterAfterSequenceNumber, Some s)
         | Latest \<Rightarrow> (IterLatest, None)
         | TrimHorizon \<Rightarrow> (IterTrimHorizon, None))
      in sc_get_shard_iterator (src_client src) (src_stream_arn src) shard iter_type seq e)"

definition cursor_continues :: "string option \<Rightarrow> string option \<Rightarrow> bool" where
  "cursor_continues cursor_after requested \<longleftrightarrow> cursor_after = requested"

definition advanced_after :: "string option \<Rightarrow> string option \<Rightarrow> string option" where
  "advanced_after requested last_seq = (case last_seq of Some s \<Rightarrow> Some s | None \<Rightarrow> requested)"

definition cached_iterator :: "cursors \<Rightarrow> string \<Rightarrow> string option \<Rightarrow> string option" where
  "cached_iterator cs shard after =
     (case cs shard of
        Some c \<Rightarrow> if cursor_continues (cur_after c) after then Some (cur_iterator c) else None
      | None \<Rightarrow> None)"

definition store_cursor :: "cursors \<Rightarrow> string \<Rightarrow> string option \<Rightarrow> string option \<Rightarrow> cursors" where
  "store_cursor cs shard after it =
     (case it of
        Some i \<Rightarrow> cs(shard \<mapsto> \<lparr>cur_after = after, cur_iterator = i\<rparr>)
      | None \<Rightarrow> cs(shard := None))"

definition drop_cursor :: "cursors \<Rightarrow> string \<Rightarrow> cursors" where
  "drop_cursor cs shard = cs(shard := None)"

section \<open>Reading\<close>

definition shard_end_batch :: RecordBatch where
  "shard_end_batch = \<lparr>batch_records = [], batch_shard_end = True, batch_millis_behind_latest = None\<rparr>"

text \<open>
  The first part of \<open>get_records\<close>. An early return of the function is \<open>Inl\<close> of its result.
\<close>

definition obtain_iterator ::
  "'e DdbStreamsSource \<Rightarrow> string \<Rightarrow> string option \<Rightarrow> 'e src_state \<Rightarrow> 'e src_state \<times> ((WorkerError + RecordBatch) + string)" where
  "obtain_iterator src shard after = (\<lambda>(e, cs).
     case cached_iterator cs shard after of
       Some it \<Rightarrow> ((e, cs), Inr it)
     | None \<Rightarrow>
         (case derive_iterator src shard after e of
            (e', Inr (Some it)) \<Rightarrow> ((e', cs), Inr it)
          | (e', Inr None) \<Rightarrow> ((e', drop_cursor cs shard), Inl (Inr shard_end_batch))
          | (e', Inl err) \<Rightarrow>
              if is_recoverable err \<and> after \<noteq> None
              then (case derive_iterator src shard None e' of
                      (e'', Inl err') \<Rightarrow> ((e'', cs), Inl (Inl err'))
                    | (e'', Inr (Some it)) \<Rightarrow> ((e'', cs), Inr it)
                    | (e'', Inr None) \<Rightarrow> ((e'', cs), Inl (Inr shard_end_batch)))
              else ((e', cs), Inl (Inl err))))"

text \<open>The second part: the request, its retries, and one fresh iterator after a recoverable error.\<close>

definition fetch_page ::
  "'e DdbStreamsSource \<Rightarrow> string \<Rightarrow> string option \<Rightarrow> string \<Rightarrow> 'e src_state \<Rightarrow> 'e src_state \<times> ((WorkerError + RecordBatch) + GetRecordsOutput)" where
  "fetch_page src shard after it = (\<lambda>(e, cs).
     case with_throttle_retry_streams (src_sleep src) (sc_get_records (src_client src) it (src_max_records src)) e of
       (e', Inr resp) \<Rightarrow> ((e', cs), Inr resp)
     | (e', Inl err) \<Rightarrow>
         if is_recoverable err
         then (case derive_iterator src shard after e' of
                 (e'', Inl err') \<Rightarrow> ((e'', drop_cursor cs shard), Inl (Inl err'))
               | (e'', Inr None) \<Rightarrow> ((e'', drop_cursor cs shard), Inl (Inr shard_end_batch))
               | (e'', Inr (Some fresh)) \<Rightarrow>
                   (case sc_get_records (src_client src) fresh (src_max_records src) e'' of
                      (e3, Inl err') \<Rightarrow> ((e3, drop_cursor cs shard), Inl (Inl err'))
                    | (e3, Inr resp) \<Rightarrow> ((e3, drop_cursor cs shard), Inr resp)))
         else ((e', cs), Inl (Inl err)))"

definition seq_of :: "SdkStreamRecord \<Rightarrow> string" where
  "seq_of sr = (case ds_sequence_number sr of None \<Rightarrow> [] | Some s \<Rightarrow> s)"

fun collect_records :: "payload_codec \<Rightarrow> string \<Rightarrow> Record list \<Rightarrow> int option \<Rightarrow> SdkRecord list \<Rightarrow> Record list \<times> int option" where
  "collect_records pc shard records newest [] = (records, newest)"
| "collect_records pc shard records newest (r # rs) =
     (case sdk_dynamodb r of
        None \<Rightarrow> collect_records pc shard records newest rs
      | Some sr \<Rightarrow>
          if seq_of sr = [] then collect_records pc shard records newest rs
          else collect_records pc shard
            (records @ [\<lparr>rec_shard_id = shard, rec_seq = seq_of sr, rec_data = pc_encode pc (from_sdk r)\<rparr>])
            (case ds_approximate_creation_date_time sr of None \<Rightarrow> newest | Some t \<Rightarrow> Some (creation_ms t)) rs)"

definition batch_lag :: "'e DdbStreamsSource \<Rightarrow> int option \<Rightarrow> 'e \<Rightarrow> 'e \<times> int option" where
  "batch_lag src newest e =
     (case newest of
        None \<Rightarrow> (e, None)
      | Some created \<Rightarrow>
          (let (e', t) = src_now src e; now = (case t of None \<Rightarrow> created | Some ms \<Rightarrow> ms)
           in (e', Some (max (signed_take_bit 63 (now - created)) 0))))"

definition get_records ::
  "'e DdbStreamsSource \<Rightarrow> string \<Rightarrow> string option \<Rightarrow> 'e src_state \<Rightarrow> 'e src_state \<times> (WorkerError + RecordBatch)" where
  "get_records src shard after st =
     (case obtain_iterator src shard after st of
        (st1, Inl r) \<Rightarrow> (st1, r)
      | (st1, Inr it) \<Rightarrow>
          (case fetch_page src shard after it st1 of
             (st2, Inl r) \<Rightarrow> (st2, r)
           | ((e2, cs2), Inr resp) \<Rightarrow>
               (let (records, newest) = collect_records (src_codec src) shard [] None (gr_records resp);
                    next_it = gr_next_shard_iterator resp;
                    new_after = advanced_after after (if records = [] then None else Some (rec_seq (last records)));
                    cs3 = store_cursor cs2 shard new_after next_it;
                    (e3, lag) = batch_lag src newest e2
                in ((e3, cs3),
                    Inr \<lparr>batch_records = records, batch_shard_end = (next_it = None), batch_millis_behind_latest = lag\<rparr>))))"

section \<open>What the service promises\<close>

text \<open>
  A view of the stream: the records a shard ever had, in order; how many of the oldest are trimmed;
  whether the shard is closed; and the position an iterator stands for. The history of a shard
  only grows, and not any more once it is closed.
\<close>

record 'e stream_view =
  sv_log :: "'e \<Rightarrow> string \<Rightarrow> SdkRecord list"
  sv_horizon :: "'e \<Rightarrow> string \<Rightarrow> nat"
  sv_closed :: "'e \<Rightarrow> string \<Rightarrow> bool"
  sv_pos :: "string \<Rightarrow> string \<times> nat"

definition rseq :: "SdkRecord \<Rightarrow> string" where
  "rseq r = (case sdk_dynamodb r of None \<Rightarrow> [] | Some sr \<Rightarrow> seq_of sr)"

definition grows :: "'e stream_view \<Rightarrow> 'e \<Rightarrow> 'e \<Rightarrow> bool" where
  "grows V e e' \<longleftrightarrow> (\<forall>sh. sv_horizon V e sh \<le> sv_horizon V e' sh \<and>
     (\<exists>t. sv_log V e' sh = sv_log V e sh @ t \<and> (sv_closed V e sh \<longrightarrow> t = [] \<and> sv_closed V e' sh)))"

lemma grows_refl [simp]: "grows V e e"
  by (simp add: grows_def)

text \<open>
  Reading a shard from position \<open>n\<close> continues from the checkpoint \<open>after\<close> without a gap: every earlier
  record is trimmed, or lies at or before the checkpoint.
\<close>

definition no_gap :: "'e stream_view \<Rightarrow> 'e \<Rightarrow> string \<Rightarrow> string option \<Rightarrow> nat \<Rightarrow> bool" where
  "no_gap V e sh after n \<longleftrightarrow> n \<le> length (sv_log V e sh) \<and>
     (after \<noteq> Some SENTINEL_LATEST \<longrightarrow>
       (\<forall>i < n. i < sv_horizon V e sh \<or>
          (\<exists>j < length (sv_log V e sh). i \<le> j \<and> after = Some (rseq (sv_log V e sh ! j)))))"

definition cursors_ok :: "'e stream_view \<Rightarrow> 'e \<Rightarrow> cursors \<Rightarrow> bool" where
  "cursors_ok V e cs \<longleftrightarrow> (\<forall>sh c. cs sh = Some c \<longrightarrow>
     (\<exists>n. sv_pos V (cur_iterator c) = (sh, n) \<and> no_gap V e sh (cur_after c) n))"

definition core_record :: "payload_codec \<Rightarrow> string \<Rightarrow> SdkRecord \<Rightarrow> Record" where
  "core_record pc sh r = \<lparr>rec_shard_id = sh, rec_seq = rseq r, rec_data = pc_encode pc (from_sdk r)\<rparr>"

definition served :: "'e stream_view \<Rightarrow> 'e \<Rightarrow> string \<Rightarrow> nat \<Rightarrow> GetRecordsOutput \<Rightarrow> bool" where
  "served V e sh n resp \<longleftrightarrow>
     gr_records resp = take (length (gr_records resp)) (drop n (sv_log V e sh)) \<and>
     (case gr_next_shard_iterator resp of
        Some it \<Rightarrow> sv_pos V it = (sh, n + length (gr_records resp))
      | None \<Rightarrow> sv_closed V e sh \<and> length (sv_log V e sh) \<le> n + length (gr_records resp))"

lemma collect_records_numbered:
  "\<forall>r \<in> set rs. rseq r \<noteq> [] \<Longrightarrow> fst (collect_records pc sh acc newest rs) = acc @ map (core_record pc sh) rs"
  by (induction rs arbitrary: acc newest) (auto simp: rseq_def core_record_def split: option.splits)

locale streams_service =
  fixes src :: "'e DdbStreamsSource" and V :: "'e stream_view"
  assumes iterator_grows: "sc_get_shard_iterator (src_client src) (src_stream_arn src) sh ty q e = (e', res) \<Longrightarrow> grows V e e'"
    and iterator_present: "sc_get_shard_iterator (src_client src) (src_stream_arn src) sh ty q e = (e', Inr io) \<Longrightarrow> io \<noteq> None"
    and iterator_after: "sc_get_shard_iterator (src_client src) (src_stream_arn src) sh IterAfterSequenceNumber (Some s) e = (e', Inr (Some it)) \<Longrightarrow>
      \<exists>n < length (sv_log V e' sh). sv_pos V it = (sh, Suc n) \<and> rseq (sv_log V e' sh ! n) = s"
    and iterator_trim: "sc_get_shard_iterator (src_client src) (src_stream_arn src) sh IterTrimHorizon None e = (e', Inr (Some it)) \<Longrightarrow>
      \<exists>n \<le> length (sv_log V e' sh). sv_pos V it = (sh, n) \<and> n \<le> sv_horizon V e' sh"
    and iterator_latest: "sc_get_shard_iterator (src_client src) (src_stream_arn src) sh IterLatest None e = (e', Inr (Some it)) \<Longrightarrow>
      \<exists>n \<le> length (sv_log V e' sh). sv_pos V it = (sh, n)"
    and records_grows: "sc_get_records (src_client src) it lim e = (e', out) \<Longrightarrow> grows V e e'"
    and records_served: "sc_get_records (src_client src) it lim e = (e', Inr resp) \<Longrightarrow> sv_pos V it = (sh, n) \<Longrightarrow>
      served V e' sh n resp"
    and records_numbered: "r \<in> set (sv_log V e sh) \<Longrightarrow> rseq r \<noteq> []"
    and sleep_grows: "grows V e (src_sleep src e d)"
    and now_grows: "src_now src e = (e', t) \<Longrightarrow> grows V e e'"
begin

lemma growsD:
  assumes "grows V e e'"
  obtains t where "sv_log V e' sh = sv_log V e sh @ t" "sv_closed V e sh \<longrightarrow> t = [] \<and> sv_closed V e' sh"
    "sv_horizon V e sh \<le> sv_horizon V e' sh"
  using assms unfolding grows_def by blast

lemma grows_trans:
  assumes "grows V e e'" "grows V e' e''"
  shows "grows V e e''"
  unfolding grows_def
proof
  fix sh
  obtain t where t: "sv_log V e' sh = sv_log V e sh @ t" "sv_closed V e sh \<longrightarrow> t = [] \<and> sv_closed V e' sh"
    "sv_horizon V e sh \<le> sv_horizon V e' sh" using assms(1) by (rule growsD [where sh = sh])
  obtain t' where "sv_log V e'' sh = sv_log V e' sh @ t'" "sv_closed V e' sh \<longrightarrow> t' = [] \<and> sv_closed V e'' sh"
    "sv_horizon V e' sh \<le> sv_horizon V e'' sh" using assms(2) by (rule growsD [where sh = sh])
  with t show "sv_horizon V e sh \<le> sv_horizon V e'' sh \<and> (\<exists>t. sv_log V e'' sh = sv_log V e sh @ t \<and>
      (sv_closed V e sh \<longrightarrow> t = [] \<and> sv_closed V e'' sh))"
    by (intro conjI exI [of _ "t @ t'"]) auto
qed

lemma no_gap_mono:
  assumes "no_gap V e sh after n" "grows V e e'"
  shows "no_gap V e' sh after n"
proof -
  obtain t where t: "sv_log V e' sh = sv_log V e sh @ t" "sv_horizon V e sh \<le> sv_horizon V e' sh"
    using assms(2) by (rule growsD [where sh = sh])
  have "\<exists>j < length (sv_log V e' sh). i \<le> j \<and> after = Some (rseq (sv_log V e' sh ! j))"
    if "j < length (sv_log V e sh)" "i \<le> j" "after = Some (rseq (sv_log V e sh ! j))" for i j
    using that by (intro exI [of _ j]) (simp add: t nth_append)
  with assms(1) t(2) show ?thesis by (auto simp: no_gap_def t(1))
qed

lemma cursors_ok_mono: "cursors_ok V e cs \<Longrightarrow> grows V e e' \<Longrightarrow> cursors_ok V e' cs"
  unfolding cursors_ok_def by (meson no_gap_mono)

lemma cursors_ok_drop [simp]: "cursors_ok V e cs \<Longrightarrow> cursors_ok V e (drop_cursor cs sh)"
  by (simp add: cursors_ok_def drop_cursor_def)

lemma cursors_ok_cached:
  "cursors_ok V e cs \<Longrightarrow> cached_iterator cs sh after = Some it \<Longrightarrow> \<exists>n. sv_pos V it = (sh, n) \<and> no_gap V e sh after n"
  by (auto simp: cursors_ok_def cached_iterator_def cursor_continues_def split: option.splits if_splits)

lemma cursors_ok_store:
  "cursors_ok V e cs \<Longrightarrow> (\<And>i. it = Some i \<Longrightarrow> \<exists>n. sv_pos V i = (sh, n) \<and> no_gap V e sh after n) \<Longrightarrow>
   cursors_ok V e (store_cursor cs sh after it)"
  by (auto simp: cursors_ok_def store_cursor_def split: option.splits)

lemma derive_grows: "derive_iterator src sh after e = (e', r) \<Longrightarrow> grows V e e'"
  by (auto simp: derive_iterator_def split: StartPosition.splits dest: iterator_grows)

lemma derive_present: "derive_iterator src sh after e \<noteq> (e', Inr None)"
  by (auto simp: derive_iterator_def split: StartPosition.splits dest: iterator_present)

lemma derive_trim:
  assumes "derive_iterator src sh None e = (e', Inr (Some it))"
  shows "\<exists>n. sv_pos V it = (sh, n) \<and> no_gap V e' sh after n"
proof -
  obtain n where "n \<le> length (sv_log V e' sh)" "sv_pos V it = (sh, n)" "n \<le> sv_horizon V e' sh"
    using iterator_trim [of sh e e' it] assms by (auto simp: derive_iterator_def)
  then show ?thesis by (auto simp: no_gap_def)
qed

lemma derive_position:
  assumes "derive_iterator src sh after e = (e', Inr (Some it))"
  shows "\<exists>n. sv_pos V it = (sh, n) \<and> no_gap V e' sh after n"
proof (cases "from_checkpoint after")
  case TrimHorizon
  with assms derive_trim show ?thesis by simp
next
  case Latest
  with assms iterator_latest show ?thesis by (fastforce simp: derive_iterator_def no_gap_def)
next
  case (After s)
  then have "after = Some s" by (simp add: from_checkpoint_After)
  with After assms iterator_after [of sh s e e' it] show ?thesis
    by (fastforce simp: derive_iterator_def no_gap_def less_Suc_eq_le)
qed

lemma records_grows_fst: "grows V e (fst (sc_get_records (src_client src) it lim e))"
  using records_grows [OF prod.collapse [symmetric]] .

lemma retry_served:
  assumes "with_throttle_retry_streams (src_sleep src) (sc_get_records (src_client src) it lim) e = (e', r)"
  shows "\<exists>e0. grows V e e0 \<and> sc_get_records (src_client src) it lim e0 = (e', r)"
proof -
  have "\<exists>e0. grows V e e0 \<and>
      retry_from streams_throttled (src_sleep src) (sc_get_records (src_client src) it lim) 4 100 e =
      sc_get_records (src_client src) it lim e0"
    by (rule retry_from_inv) (auto intro: grows_trans [OF _ records_grows_fst] grows_trans [OF _ sleep_grows])
  with assms show ?thesis by (metis with_throttle_retry_streams_def)
qed

lemma obtain_iterator_spec:
  assumes cs: "cursors_ok V e cs" and o: "obtain_iterator src sh after (e, cs) = ((e1, cs1), r)"
  shows "cursors_ok V e1 cs1 \<and> (case r of
      Inr it \<Rightarrow> \<exists>n. sv_pos V it = (sh, n) \<and> no_gap V e1 sh after n
    | Inl res \<Rightarrow> isl res)"
proof (cases "cached_iterator cs sh after")
  case None
  obtain e' d where d: "derive_iterator src sh after e = (e', d)" by fastforce
  obtain e'' d' where d': "derive_iterator src sh None e' = (e'', d')" by fastforce
  have "cursors_ok V e' cs" "cursors_ok V e'' cs"
    using cursors_ok_mono [OF cs derive_grows, OF d] cursors_ok_mono [OF _ derive_grows, OF _ d'] by blast+
  then show ?thesis
    using o None d d' derive_position [of sh after e e'] derive_trim [of sh e' e'' _ after] derive_present
    by (auto simp: obtain_iterator_def split: option.splits sum.splits if_splits)
next
  case (Some it)
  with o cs cursors_ok_cached [OF cs Some] show ?thesis by (auto simp: obtain_iterator_def)
qed

lemma fetch_page_spec:
  assumes cs: "cursors_ok V e cs" and it: "sv_pos V it = (sh, n)" "no_gap V e sh after n"
    and f: "fetch_page src sh after it (e, cs) = ((e1, cs1), r)"
  shows "cursors_ok V e1 cs1 \<and> (case r of
      Inr resp \<Rightarrow> \<exists>n. no_gap V e1 sh after n \<and> served V e1 sh n resp
    | Inl res \<Rightarrow> isl res)"
proof -
  obtain e' d where d: "with_throttle_retry_streams (src_sleep src) (sc_get_records (src_client src) it (src_max_records src)) e = (e', d)"
    by fastforce
  from retry_served [OF this] obtain e0 where e0: "grows V e e0" "sc_get_records (src_client src) it (src_max_records src) e0 = (e', d)"
    by blast
  have g: "grows V e e'" using grows_trans [OF e0(1) records_grows [OF e0(2)]] .
  show ?thesis
  proof (cases d)
    case (Inr resp)
    with f d have r: "e1 = e'" "cs1 = cs" "r = Inr resp" by (auto simp: fetch_page_def)
    have "served V e' sh n resp" using records_served [OF _ it(1)] e0(2) Inr by simp
    with r show ?thesis using cursors_ok_mono [OF cs g] no_gap_mono [OF it(2) g] by auto
  next
    case (Inl err)
    obtain e'' i where i: "derive_iterator src sh after e' = (e'', i)" by fastforce
    have c: "cursors_ok V e' cs" "cursors_ok V e'' cs"
      using cursors_ok_mono [OF cs g] cursors_ok_mono [OF _ derive_grows, OF _ i] by blast+
    show ?thesis
    proof (cases "is_recoverable err \<and> (\<exists>fresh. i = Inr (Some fresh))")
      case True
      then obtain fresh where fr: "i = Inr (Some fresh)" by blast
      obtain e3 d3 where d3: "sc_get_records (src_client src) fresh (src_max_records src) e'' = (e3, d3)" by fastforce
      obtain m where m: "sv_pos V fresh = (sh, m)" "no_gap V e'' sh after m" using derive_position i fr by blast
      have "\<exists>n. no_gap V e3 sh after n \<and> served V e3 sh n resp" if "d3 = Inr resp" for resp
        using no_gap_mono [OF m(2) records_grows [OF d3]] records_served [OF _ m(1)] d3 that by blast
      moreover have "cursors_ok V e3 cs" using cursors_ok_mono [OF c(2) records_grows [OF d3]] .
      ultimately show ?thesis using True fr Inl i d d3 f by (auto simp: fetch_page_def split: sum.splits)
    next
      case False
      with Inl i d f c derive_present show ?thesis
        by (auto simp: fetch_page_def split: sum.splits option.splits if_splits)
    qed
  qed
qed

lemma obtain_iterator_grows: "obtain_iterator src sh after (e, cs) = ((e1, cs1), r) \<Longrightarrow> grows V e e1"
  by (auto simp: obtain_iterator_def split: option.splits prod.splits sum.splits if_splits
      dest!: derive_grows intro: grows_trans)

lemma retry_grows:
  "with_throttle_retry_streams (src_sleep src) (sc_get_records (src_client src) it lim) e = (e', r) \<Longrightarrow> grows V e e'"
  using retry_served records_grows grows_trans by blast

lemma fetch_page_grows: "fetch_page src sh after it (e, cs) = ((e1, cs1), r) \<Longrightarrow> grows V e e1"
  by (auto simp: fetch_page_def split: option.splits prod.splits sum.splits if_splits
      dest!: derive_grows retry_grows records_grows intro: grows_trans)

lemma batch_lag_grows: "batch_lag src newest e = (e', lag) \<Longrightarrow> grows V e e'"
  by (auto simp: batch_lag_def now_grows split: option.splits prod.splits)

lemma get_records_grows: "get_records src sh after (e, cs) = ((e', cs'), r) \<Longrightarrow> grows V e e'"
  by (auto simp: get_records_def Let_def split: prod.splits sum.splits
      dest!: obtain_iterator_grows fetch_page_grows batch_lag_grows intro: grows_trans)

lemma served_no_gap:
  assumes "no_gap V e sh after n" "served V e sh n resp"
  shows "no_gap V e sh (advanced_after after (if gr_records resp = [] then None else Some (rseq (last (gr_records resp)))))
    (n + length (gr_records resp))"
proof (cases "gr_records resp = []")
  case False
  let ?rs = "gr_records resp" and ?log = "sv_log V e sh"
  from False obtain k where k: "length ?rs = Suc k" by (cases ?rs) auto
  have g: "?rs = take (Suc k) (drop n ?log)" using assms(2) by (simp add: served_def k)
  with k have j: "n + k < length ?log" by (metis Suc_le_eq add.commute length_drop length_take less_diff_conv min.cobounded1)
  have "last ?rs = ?rs ! k" using False by (simp add: last_conv_nth k)
  also have "\<dots> = ?log ! (n + k)" by (subst g) (use j in simp)
  finally show ?thesis using False j by (auto simp: no_gap_def advanced_after_def k intro!: exI [of _ "n + k"])
qed (use assms in \<open>simp add: advanced_after_def\<close>)

lemma threaded:
  assumes "cursors_ok V e cs" and m: "no_gap V e sh after m" "served V e sh m resp" and gr: "grows V e e'"
  shows "cursors_ok V e' (store_cursor cs sh
      (advanced_after after (if gr_records resp = [] then None else Some (rseq (last (gr_records resp)))))
      (gr_next_shard_iterator resp)) \<and>
    no_gap V e' sh after m \<and>
    gr_records resp = take (length (gr_records resp)) (drop m (sv_log V e' sh)) \<and>
    (gr_next_shard_iterator resp = None \<longrightarrow> sv_closed V e' sh \<and> m + length (gr_records resp) = length (sv_log V e' sh))"
proof -
  let ?rs = "gr_records resp"
  have g: "?rs = take (length ?rs) (drop m (sv_log V e sh))" using m(2) by (simp add: served_def)
  then have k: "length ?rs \<le> length (sv_log V e sh) - m" by (metis length_drop length_take min.cobounded1)
  have "m \<le> length (sv_log V e sh)" using m(1) by (simp add: no_gap_def)
  with k have le: "m + length ?rs \<le> length (sv_log V e sh)" by linarith
  obtain t where t: "sv_log V e' sh = sv_log V e sh @ t" "sv_closed V e sh \<longrightarrow> t = [] \<and> sv_closed V e' sh"
    using gr by (rule growsD [where sh = sh])
  have g': "?rs = take (length ?rs) (drop m (sv_log V e' sh))" using g le by (simp add: t)
  have n: "sv_closed V e' sh \<and> m + length ?rs = length (sv_log V e' sh)" if "gr_next_shard_iterator resp = None"
    using that m(2) le t by (simp add: served_def)
  have "cursors_ok V e (store_cursor cs sh (advanced_after after (if ?rs = [] then None else Some (rseq (last ?rs))))
      (gr_next_shard_iterator resp))"
    using assms(1) served_no_gap [OF m] m(2) by (intro cursors_ok_store) (auto simp: served_def)
  with n g' no_gap_mono [OF m(1) gr] cursors_ok_mono [OF _ gr] show ?thesis by simp
qed

lemma get_records_spec:
  assumes "cursors_ok V e cs" and g: "get_records src sh after (e, cs) = ((e', cs'), r)"
  shows "cursors_ok V e' cs' \<and> (\<forall>b. r = Inr b \<longrightarrow>
    (\<exists>n. no_gap V e' sh after n \<and>
      batch_records b = map (core_record (src_codec src) sh) (take (length (batch_records b)) (drop n (sv_log V e' sh))) \<and>
      (batch_shard_end b \<longrightarrow> sv_closed V e' sh \<and> n + length (batch_records b) = length (sv_log V e' sh))))"
proof -
  obtain e1 cs1 o1 where 1: "obtain_iterator src sh after (e, cs) = ((e1, cs1), o1)" by (metis prod.exhaust)
  note s1 = obtain_iterator_spec [OF assms(1) 1]
  show ?thesis
  proof (cases o1)
    case (Inl res)
    with s1 1 g show ?thesis by (auto simp: get_records_def isl_def)
  next
    case (Inr it)
    with s1 obtain n where it: "sv_pos V it = (sh, n)" "no_gap V e1 sh after n" by auto
    obtain e2 cs2 o2 where 2: "fetch_page src sh after it (e1, cs1) = ((e2, cs2), o2)" by (metis prod.exhaust)
    note s2 = fetch_page_spec [OF conjunct1 [OF s1] it 2]
    show ?thesis
    proof (cases o2)
      case (Inl res)
      with s2 1 2 Inr g show ?thesis by (auto simp: get_records_def isl_def)
    next
      case (Inr resp)
      with s2 obtain m where m: "no_gap V e2 sh after m" "served V e2 sh m resp" by auto
      let ?rs = "gr_records resp"
      have "set ?rs \<subseteq> set (sv_log V e2 sh)" using m(2) by (metis served_def set_drop_subset set_take_subset subset_trans)
      then have "fst (collect_records (src_codec src) sh [] None ?rs) = map (core_record (src_codec src) sh) ?rs"
        using records_numbered by (subst collect_records_numbered) auto
      then obtain newest where c: "collect_records (src_codec src) sh [] None ?rs = (map (core_record (src_codec src) sh) ?rs, newest)"
        by (metis prod.collapse)
      obtain e3 lag where l: "batch_lag src newest e2 = (e3, lag)" by fastforce
      note gl = batch_lag_grows [OF l]
      let ?after = "advanced_after after (if ?rs = [] then None else Some (rseq (last ?rs)))"
      have res: "e' = e3" "cs' = store_cursor cs2 sh ?after (gr_next_shard_iterator resp)"
        "r = Inr \<lparr>batch_records = map (core_record (src_codec src) sh) ?rs, batch_shard_end = (gr_next_shard_iterator resp = None),
           batch_millis_behind_latest = lag\<rparr>"
        using g 1 2 \<open>o1 = Inr it\<close> Inr c l by (auto simp: get_records_def Let_def last_map core_record_def)
      from threaded [OF conjunct1 [OF s2] m gl] show ?thesis by (auto simp: res take_map)
    qed
  qed
qed

end

section \<open>A service\<close>

text \<open>
  A simulated service: sequence numbers are printed naturals, an iterator is its shard with its
  position in unary. Every request consumes an entry of the script: records that arrive before it
  is served, and the error it fails with, if any. It trims nothing.
\<close>

record ssim =
  ssim_log :: "string \<Rightarrow> nat list"
  ssim_closed :: bool
  ssim_script :: "((string \<times> nat list) \<times> string option) list"

definition ssim_record :: "nat \<Rightarrow> SdkRecord" where
  "ssim_record q =
     \<lparr>sdk_event_name = Some ''INSERT'', sdk_dynamodb = Some
        \<lparr>ds_sequence_number = Some (nat_to_string q), ds_size_bytes = None, ds_stream_view_type = None,
         ds_keys = None, ds_new_image = None, ds_old_image = None, ds_approximate_creation_date_time = None\<rparr>\<rparr>"

definition ssim_tick :: "ssim \<Rightarrow> ssim \<times> string option" where
  "ssim_tick e =
     (case ssim_script e of
        [] \<Rightarrow> (e, None)
      | ((sh, qs), err) # script \<Rightarrow>
          (e\<lparr>ssim_script := script,
             ssim_log := (if ssim_closed e then ssim_log e else (ssim_log e)(sh := ssim_log e sh @ qs))\<rparr>, err))"

definition ssim_token :: "string \<Rightarrow> nat \<Rightarrow> string" where
  "ssim_token sh n = sh @ CHR '':'' # replicate n CHR ''i''"

definition ssim_pos :: "string \<Rightarrow> string \<times> nat" where
  "ssim_pos it = (case rsplit_once CHR '':'' it of None \<Rightarrow> (it, 0) | Some (sh, n) \<Rightarrow> (sh, length n))"

fun index_of :: "'a \<Rightarrow> 'a list \<Rightarrow> nat option" where
  "index_of x [] = None"
| "index_of x (y # ys) = (if x = y then Some 0 else map_option Suc (index_of x ys))"

definition ssim_get_shard_iterator ::
  "string \<Rightarrow> string \<Rightarrow> ShardIteratorType \<Rightarrow> string option \<Rightarrow> ssim \<Rightarrow> ssim \<times> (string + string option)" where
  "ssim_get_shard_iterator arn sh ty q e =
     (case ssim_tick e of
        (e', Some err) \<Rightarrow> (e', Inl err)
      | (e', None) \<Rightarrow>
          (e', case ty of
             IterTrimHorizon \<Rightarrow> Inr (Some (ssim_token sh 0))
           | IterLatest \<Rightarrow> Inr (Some (ssim_token sh (length (ssim_log e' sh))))
           | IterAfterSequenceNumber \<Rightarrow>
               (case index_of (case q of Some s \<Rightarrow> s | None \<Rightarrow> []) (map nat_to_string (ssim_log e' sh)) of
                  Some n \<Rightarrow> Inr (Some (ssim_token sh (Suc n)))
                | None \<Rightarrow> Inl ''ValidationException'')))"

definition ssim_get_records :: "string \<Rightarrow> int option \<Rightarrow> ssim \<Rightarrow> ssim \<times> (string + GetRecordsOutput)" where
  "ssim_get_records it lim e =
     (case ssim_tick e of
        (e', Some err) \<Rightarrow> (e', Inl err)
      | (e', None) \<Rightarrow>
          (let (sh, n) = ssim_pos it;
               rest = drop n (ssim_log e' sh);
               qs = (case lim of None \<Rightarrow> rest | Some l \<Rightarrow> take (nat l) rest)
           in (e', Inr \<lparr>gr_records = map ssim_record qs,
                 gr_next_shard_iterator =
                   (if ssim_closed e' \<and> length (ssim_log e' sh) \<le> n + length qs then None
                    else Some (ssim_token sh (n + length qs)))\<rparr>)))"

definition ssim_client :: "ssim StreamsClient" where
  "ssim_client =
     \<lparr>sc_describe_stream = (\<lambda>arn f start e. (e, Inr None)),
      sc_get_shard_iterator = ssim_get_shard_iterator, sc_get_records = ssim_get_records\<rparr>"

text \<open>The payload of such a record is its sequence number, byte by byte.\<close>

definition ssim_codec :: payload_codec where
  "ssim_codec =
     \<lparr>pc_encode = (\<lambda>r. case sr_sequence_number r of None \<Rightarrow> [] | Some s \<Rightarrow> map of_char s),
      pc_decode = (\<lambda>b. Inr (stream_record_default\<lparr>sr_event_name := Some ''INSERT'',
        sr_sequence_number := Some (map (\<lambda>w. char_of (unat w)) b)\<rparr>))\<rparr>"

lemma char_of_byte [simp]: "char_of (unat (of_char c :: u8)) = c"
proof -
  have e: "(of_char c :: u8) = of_nat (of_char c)" by (cases c) simp
  show ?thesis unfolding e by (simp add: unat_of_nat)
qed

lemma ssim_codec_roundtrip: "pc_decode ssim_codec (pc_encode ssim_codec (from_sdk (ssim_record q))) = Inr (from_sdk (ssim_record q))"
  by (simp add: ssim_codec_def from_sdk_def ssim_record_def Let_def non_empty_image_def stream_record_default_def comp_def)

definition ssim_source :: "ssim DdbStreamsSource" where
  "ssim_source = fst (streams_source_new ssim_client ''arn'' ssim_codec (\<lambda>e d. e) (\<lambda>e. (e, None)))"

definition ssim_view :: "ssim stream_view" where
  "ssim_view =
     \<lparr>sv_log = (\<lambda>e sh. map ssim_record (ssim_log e sh)), sv_horizon = (\<lambda>e sh. 0),
      sv_closed = (\<lambda>e sh. ssim_closed e), sv_pos = ssim_pos\<rparr>"

lemma ssim_pos_token [simp]: "ssim_pos (ssim_token sh n) = (sh, n)"
  by (simp add: ssim_pos_def ssim_token_def rsplit_once_append)

lemma ssim_tick_grows: "ssim_tick e = (e', err) \<Longrightarrow> grows ssim_view e e'"
  by (auto simp: ssim_tick_def grows_def ssim_view_def split: list.splits)

lemma rseq_ssim_record [simp]: "rseq (ssim_record q) = nat_to_string q"
  by (simp add: rseq_def ssim_record_def seq_of_def)

lemma index_of_Some: "index_of x xs = Some n \<Longrightarrow> n < length xs \<and> xs ! n = x"
  by (induction xs arbitrary: n) (auto split: if_splits)

lemmas ssim_defs = ssim_source_def streams_source_new_def ssim_client_def

interpretation ssim: streams_service ssim_source ssim_view
proof unfold_locales
  fix e e' :: ssim and it sh s :: string and lim n resp
  show "\<exists>n < length (sv_log ssim_view e' sh). sv_pos ssim_view it = (sh, Suc n) \<and> rseq (sv_log ssim_view e' sh ! n) = s"
    if "sc_get_shard_iterator (src_client ssim_source) (src_stream_arn ssim_source) sh IterAfterSequenceNumber (Some s) e = (e', Inr (Some it))"
    using that by (auto simp: ssim_defs ssim_get_shard_iterator_def ssim_view_def dest!: index_of_Some split: prod.splits option.splits)
  show "served ssim_view e' sh n resp"
    if "sc_get_records (src_client ssim_source) it lim e = (e', Inr resp)" "sv_pos ssim_view it = (sh, n)"
    using that by (auto simp: ssim_defs ssim_get_records_def ssim_view_def served_def Let_def take_map drop_map min_def
        split: prod.splits option.splits if_splits)
qed (auto simp: ssim_defs ssim_get_shard_iterator_def ssim_get_records_def ssim_view_def nat_to_string_nonempty Let_def
    split: prod.splits option.splits ShardIteratorType.splits dest!: ssim_tick_grows)

section \<open>Traced requests\<close>

datatype src_call = CallIterator string ShardIteratorType "string option" | CallRecords string "int option"

definition traced_streams :: "'e DdbStreamsSource \<Rightarrow> ('e \<times> src_call list) DdbStreamsSource" where
  "traced_streams src =
     (let c = src_client src in
      \<lparr>src_client =
         \<lparr>sc_describe_stream = (\<lambda>arn f start (e, l). let (e', r) = sc_describe_stream c arn f start e in ((e', l), r)),
          sc_get_shard_iterator = (\<lambda>arn sh ty q (e, l).
            let (e', r) = sc_get_shard_iterator c arn sh ty q e in ((e', l @ [CallIterator sh ty q]), r)),
          sc_get_records = (\<lambda>it lim (e, l). let (e', r) = sc_get_records c it lim e in ((e', l @ [CallRecords it lim]), r))\<rparr>,
       src_stream_arn = src_stream_arn src, src_max_records = src_max_records src, src_codec = src_codec src,
       src_sleep = (\<lambda>(e, l) d. (src_sleep src e d, l)),
       src_now = (\<lambda>(e, l). let (e', t) = src_now src e in ((e', l), t))\<rparr>)"

text \<open>
  The requests of one read: \<open>i\<close> bounds the iterator requests, \<open>g\<close> the record requests; iterators are
  asked for at the checkpoint or the trim horizon, and records with the limit of the source.
\<close>

definition start_requests :: "string \<Rightarrow> string option \<Rightarrow> src_call set" where
  "start_requests sh after =
     {CallIterator sh IterTrimHorizon None,
      (case from_checkpoint after of
         After s \<Rightarrow> CallIterator sh IterAfterSequenceNumber (Some s)
       | Latest \<Rightarrow> CallIterator sh IterLatest None
       | TrimHorizon \<Rightarrow> CallIterator sh IterTrimHorizon None)}"

definition requests_ok :: "string \<Rightarrow> string option \<Rightarrow> int option \<Rightarrow> nat \<Rightarrow> nat \<Rightarrow> src_call list \<Rightarrow> bool" where
  "requests_ok sh after lim i g calls \<longleftrightarrow>
     set calls \<subseteq> start_requests sh after \<union> range (\<lambda>it. CallRecords it lim) \<and>
     length (filter (\<lambda>c. case c of CallIterator _ _ _ \<Rightarrow> True | _ \<Rightarrow> False) calls) \<le> i \<and>
     length (filter (\<lambda>c. case c of CallRecords _ _ \<Rightarrow> True | _ \<Rightarrow> False) calls) \<le> g"

definition logged :: "string \<Rightarrow> string option \<Rightarrow> int option \<Rightarrow> nat \<Rightarrow> nat \<Rightarrow> src_call list \<Rightarrow> src_call list \<Rightarrow> bool" where
  "logged sh after lim i g l l' \<longleftrightarrow> (\<exists>calls. l' = l @ calls \<and> requests_ok sh after lim i g calls)"

lemma logged_refl [simp]: "logged sh after lim i g l l"
  by (simp add: logged_def requests_ok_def)

lemma logged_trans: "logged sh after lim i g l l' \<Longrightarrow> logged sh after lim i' g' l' l'' \<Longrightarrow> logged sh after lim (i + i') (g + g') l l''"
  by (fastforce simp: logged_def requests_ok_def)

lemma logged_mono: "logged sh after lim i g l l' \<Longrightarrow> i \<le> i' \<Longrightarrow> g \<le> g' \<Longrightarrow> logged sh after lim i' g' l l'"
  by (fastforce simp: logged_def requests_ok_def)

lemma derive_logged:
  "derive_iterator (traced_streams src) sh after (e, l) = ((e', l'), r) \<Longrightarrow> logged sh after lim 1 0 l l'"
  by (auto simp: derive_iterator_def traced_streams_def Let_def logged_def requests_ok_def start_requests_def
      split: StartPosition.splits prod.splits)

lemma derive_trim_logged:
  "derive_iterator (traced_streams src) sh None (e, l) = ((e', l'), r) \<Longrightarrow> logged sh after lim 1 0 l l'"
  by (auto simp: derive_iterator_def traced_streams_def Let_def logged_def requests_ok_def start_requests_def split: prod.splits)

lemma records_logged:
  "sc_get_records (src_client (traced_streams src)) it lim (e, l) = ((e', l'), r) \<Longrightarrow> logged sh after lim 0 1 l l'"
  by (auto simp: traced_streams_def Let_def logged_def requests_ok_def split: prod.splits)

lemma retry_logged:
  "retry_from P (src_sleep (traced_streams src)) (sc_get_records (src_client (traced_streams src)) it lim) n d (e, l) = ((e', l'), r) \<Longrightarrow>
   logged sh after lim 0 (Suc n) l l'"
proof (induction n arbitrary: d e l)
  case 0
  then show ?case using records_logged [of src it lim e l e' l' r sh after] by simp
next
  case (Suc n)
  obtain e1 l1 r1 where 1: "sc_get_records (src_client (traced_streams src)) it lim (e, l) = ((e1, l1), r1)" by (metis prod.exhaust)
  have s: "src_sleep (traced_streams src) (e1, l1) d = (src_sleep src e1 d, l1)" by (simp add: traced_streams_def Let_def)
  note l1 = records_logged [OF 1, of sh after]
  show ?case
  proof (cases "P r1")
    case True
    with Suc.prems 1 s have "logged sh after lim 0 (Suc n) l1 l'" by (intro Suc.IH) simp
    from logged_trans [OF l1 this] show ?thesis by simp
  next
    case False
    with Suc.prems 1 logged_mono [OF l1] show ?thesis by simp
  qed
qed

lemma obtain_logged:
  assumes "obtain_iterator (traced_streams src) sh after ((e, l), cs) = (((e', l'), cs'), r)"
  shows "logged sh after lim 2 0 l l'"
proof (cases "cached_iterator cs sh after")
  case None
  obtain e1 l1 d where d: "derive_iterator (traced_streams src) sh after (e, l) = ((e1, l1), d)" by (metis prod.exhaust)
  obtain e2 l2 d' where d': "derive_iterator (traced_streams src) sh None (e1, l1) = ((e2, l2), d')" by (metis prod.exhaust)
  have "logged sh after lim 1 0 l l1" using derive_logged [OF d] .
  moreover from logged_trans [OF this derive_trim_logged [OF d']] have "logged sh after lim 2 0 l l2" by (simp add: numeral_2_eq_2)
  ultimately show ?thesis using assms None d d' logged_mono [of sh after lim 1 0 l l1 2 0]
    by (auto simp: obtain_iterator_def split: sum.splits option.splits if_splits)
qed (use assms in \<open>auto simp: obtain_iterator_def\<close>)

lemma fetch_logged:
  assumes "fetch_page (traced_streams src) sh after it ((e, l), cs) = (((e', l'), cs'), r)"
  shows "logged sh after (src_max_records src) 1 6 l l'"
proof -
  let ?lim = "src_max_records src" and ?t = "traced_streams src"
  have m [simp]: "src_max_records ?t = ?lim" by (simp add: traced_streams_def Let_def)
  obtain e1 l1 r1 where 1: "with_throttle_retry_streams (src_sleep ?t) (sc_get_records (src_client ?t) it ?lim) (e, l) = ((e1, l1), r1)"
    by (metis prod.exhaust)
  obtain e2 l2 d where 2: "derive_iterator ?t sh after (e1, l1) = ((e2, l2), d)" by (metis prod.exhaust)
  have "logged sh after ?lim 0 (Suc 4) l l1" using 1 unfolding with_throttle_retry_streams_def by (rule retry_logged)
  then have a: "logged sh after ?lim 0 5 l l1" by simp
  have b: "logged sh after ?lim 1 5 l l2" using logged_trans [OF a derive_logged [OF 2]] by simp
  have c: "logged sh after ?lim 1 6 l l3" if "sc_get_records (src_client ?t) it' ?lim (e2, l2) = ((e3, l3), r3)" for it' e3 l3 r3
    using logged_trans [OF b records_logged [OF that]] by simp
  show ?thesis
    using assms 1 2 logged_mono [OF a, of 1 6] logged_mono [OF b, of 1 6]
    by (auto simp: fetch_page_def split: sum.splits option.splits if_splits prod.splits dest: c)
qed

lemma get_records_logged:
  assumes g: "get_records (traced_streams src) sh after ((e, l), cs) = (((e', l'), cs'), r)"
  shows "logged sh after (src_max_records src) 3 6 l l'"
proof -
  let ?t = "traced_streams src"
  obtain e1 l1 cs1 o1 where 1: "obtain_iterator ?t sh after ((e, l), cs) = (((e1, l1), cs1), o1)" by (metis prod.exhaust)
  note a = obtain_logged [OF 1, of "src_max_records src"]
  show ?thesis
  proof (cases o1)
    case (Inl res)
    with g 1 logged_mono [OF a, of 3 6] show ?thesis by (simp add: get_records_def)
  next
    case (Inr it)
    obtain e2 l2 cs2 o2 where 2: "fetch_page ?t sh after it ((e1, l1), cs1) = (((e2, l2), cs2), o2)" by (metis prod.exhaust)
    have "snd (fst (batch_lag ?t newest (e2, l2))) = l2" for newest
      by (simp add: batch_lag_def traced_streams_def Let_def split: option.splits prod.splits)
    then have "l' = l2" using g 1 2 Inr by (auto simp: get_records_def Let_def split: sum.splits prod.splits) (metis fst_conv snd_conv)+
    with logged_trans [OF a fetch_logged [OF 2]] show ?thesis by simp
  qed
qed

section \<open>Pages\<close>

text \<open>
  The pages a discovery receives, each request naming the last shard of the page before; the
  outcome is the error it ends with, if any.
\<close>

inductive serves :: "(string option \<Rightarrow> 'e \<Rightarrow> 'e \<times> (string + StreamDescription option)) \<Rightarrow> string option \<Rightarrow>
    StreamDescription list \<Rightarrow> 'e \<Rightarrow> 'e \<Rightarrow> string option \<Rightarrow> bool" for send where
  serves_error: "send start e = (e', Inl err) \<Longrightarrow> serves send start [] e e' (Some err)"
| serves_none: "send start e = (e', Inr None) \<Longrightarrow> serves send start [] e e' None"
| serves_last: "send start e = (e', Inr (Some d)) \<Longrightarrow> sd_last_evaluated_shard_id d = None \<Longrightarrow> serves send start [d] e e' None"
| serves_more: "send start e = (e1, Inr (Some d)) \<Longrightarrow> sd_last_evaluated_shard_id d = Some i \<Longrightarrow>
    serves send (Some i) ds e1 e' res \<Longrightarrow> serves send start (d # ds) e e' res"

definition page_result :: "string option \<Rightarrow> 'a \<Rightarrow> string + 'a" where
  "page_result res x = (case res of Some err \<Rightarrow> Inl err | None \<Rightarrow> Inr x)"

lemma map_filter_append: "List.map_filter f (xs @ ys) = List.map_filter f xs @ List.map_filter f ys"
  by (simp add: List.map_filter_def)

lemma page_loop_serves:
  "serves send start pages e e' res \<Longrightarrow>
   page_loop conv send raw start e = Some (e', page_result res (raw @ List.map_filter conv (concat (map sd_shards pages))))"
  by (induction arbitrary: raw rule: serves.induct)
    (subst page_loop.simps; simp add: page_result_def map_filter_append List.map_filter_simps Let_def split: option.splits)+

section \<open>Properties\<close>

text \<open>
  C7 (safety). Threaded iterators lose no record. Against a service whose iterators stand for
  positions in the history of a shard, and with a map of cursors built by earlier reads, every
  batch \<open>get_records\<close> returns is a run of consecutive records of the shard that continues from the
  checkpoint it was asked for: each record before the run is trimmed, or is the checkpoint's record
  or an earlier one, whether the iterator was cached, derived, or re-derived after an error.
  Each record keeps its sequence number and its encoded change; a batch that reports the end of
  the shard reaches the end of its closed history. The cursors stay right for the next read. (For a
  checkpoint at the tip no such claim is made.)
\<close>

theorem source_skips_nothing:
  assumes "streams_service src V" and "cursors_ok V e cs" and "get_records src sh after (e, cs) = ((e', cs'), r)"
  shows "cursors_ok V e' cs' \<and> (\<forall>b. r = Inr b \<longrightarrow>
    (\<exists>n. no_gap V e' sh after n \<and>
      batch_records b = map (core_record (src_codec src) sh) (take (length (batch_records b)) (drop n (sv_log V e' sh))) \<and>
      (batch_shard_end b \<longrightarrow> sv_closed V e' sh \<and> n + length (batch_records b) = length (sv_log V e' sh))))"
  using streams_service.get_records_spec [OF assms] .

text \<open>A shard with an expired iterator behind a checkpoint, and one read at the tip.\<close>

definition ssim_expired :: ssim where
  "ssim_expired = \<lparr>ssim_log = (\<lambda>_. [5, 6]), ssim_closed = False,
     ssim_script = [((''s'', [7]), Some ''ExpiredIteratorException'')]\<rparr>"

theorem source_skips_nothing_witness:
  "\<exists>e' cs' b n. get_records ssim_source ''s'' (Some ''5'')
      (ssim_expired, [''s'' \<mapsto> \<lparr>cur_after = Some ''5'', cur_iterator = ssim_token ''s'' 1\<rparr>]) = ((e', cs'), Inr b) \<and>
    map rec_seq (batch_records b) = [''6'', ''7''] \<and> cursors_ok ssim_view e' cs' \<and>
    no_gap ssim_view e' ''s'' (Some ''5'') n \<and>
    batch_records b = map (core_record ssim_codec ''s'') (take 2 (drop n (sv_log ssim_view e' ''s'')))"
proof -
  let ?cs = "[''s'' \<mapsto> \<lparr>cur_after = Some ''5'', cur_iterator = ssim_token ''s'' 1\<rparr>]"
  have p: "nat_to_string 5 = ''5''" by code_simp
  have c: "cursors_ok ssim_view ssim_expired ?cs"
    by (auto simp: cursors_ok_def no_gap_def ssim_view_def ssim_expired_def p intro!: exI [of _ 0])
  obtain e' cs' r where g: "get_records ssim_source ''s'' (Some ''5'') (ssim_expired, ?cs) = ((e', cs'), r)" by (metis prod.exhaust)
  have v: "(case snd (get_records ssim_source ''s'' (Some ''5'') (ssim_expired, ?cs)) of
      Inr b \<Rightarrow> map rec_seq (batch_records b) = [''6'', ''7''] | Inl _ \<Rightarrow> False)" by code_simp
  with g obtain b where b: "r = Inr b" "map rec_seq (batch_records b) = [''6'', ''7'']" by (auto split: sum.splits)
  have "length (map rec_seq (batch_records b)) = 2" unfolding b(2) by simp
  then have "length (batch_records b) = 2" by simp
  with source_skips_nothing [OF ssim.streams_service_axioms c g] b g show ?thesis
    by (auto simp: ssim_source_def streams_source_new_def)
qed

text \<open>
  At the tip there is a gap: a consumer that starts at \<open>LATEST\<close> and has not seen a record yet polls
  an open shard; a record arrives, and the threaded iterator expires before the next poll. The
  source derives a new iterator at the new tip, and no later poll returns the record.
\<close>

lemma latest_gap:
  "let poll = get_records ssim_source ''s'' (Some SENTINEL_LATEST);
       (s1, r1) = poll (\<lparr>ssim_log = (\<lambda>_. [5]), ssim_closed = False,
         ssim_script = [(([], []), None), (([], []), None), ((''s'', [6]), Some ''ExpiredIteratorException'')]\<rparr>, Map.empty);
       (s2, r2) = poll s1;
       (s3, r3) = poll s2
   in \<forall>r \<in> {r1, r2, r3}. (case r of Inr b \<Rightarrow> batch_records b = [] \<and> \<not> batch_shard_end b | Inl _ \<Rightarrow> False) \<and>
      ssim_log (fst s3) ''s'' = [5, 6]"
  by code_simp

text \<open>
  C34 (bounds). One read makes a bounded number of requests: at most three for an iterator, each at
  the requested checkpoint or at the trim horizon, and at most six for records. Every request for
  records carries the limit of the source, which lies in the range the service accepts.
\<close>

theorem get_records_requests_bounded:
  assumes "get_records (traced_streams (with_max_records src n)) sh after ((e, l), cs) = (((e', l'), cs'), r)"
  shows "\<exists>calls m. l' = l @ calls \<and> requests_ok sh after (Some m) 3 6 calls \<and> 1 \<le> m \<and> m \<le> 1000 \<and>
    (1 \<le> n \<and> n \<le> 1000 \<longrightarrow> m = n)"
proof -
  have "logged sh after (Some (clamp_max_records n)) 3 6 l l'"
    using get_records_logged [OF assms] by (simp add: with_max_records_def)
  then show ?thesis by (auto simp: logged_def clamp_max_records_def intro!: exI [of _ "clamp_max_records n"])
qed

theorem get_records_requests_bounded_witness:
  "\<exists>e' l' cs' r m. get_records (traced_streams (with_max_records ssim_source 5000)) ''s'' (Some ''5'')
      ((ssim_expired, []), Map.empty) = (((e', l'), cs'), r) \<and>
    requests_ok ''s'' (Some ''5'') (Some m) 3 6 l' \<and> 1 \<le> m \<and> m \<le> 1000"
proof -
  obtain e' l' cs' r where g: "get_records (traced_streams (with_max_records ssim_source 5000)) ''s'' (Some ''5'')
      ((ssim_expired, []), Map.empty) = (((e', l'), cs'), r)" by (metis prod.exhaust)
  from get_records_requests_bounded [OF g] show ?thesis using g by auto
qed

text \<open>
  C33 (equivalence). Discovery does not depend on how the service cuts the shards into pages: it
  returns, after the last page, the graph of the closed parents of all shards of all pages, as
  one page would give it; a page that fails gives its error and no partial graph. The same holds
  for the children of a shard, whose parent links are kept as they are.
\<close>

theorem describe_shards_pages:
  assumes "serves (sc_describe_stream (src_client src) (src_stream_arn src) None) None pages e e' res"
    and "serves (sc_describe_stream (src_client src) (src_stream_arn src) (Some (child_shards_filter p))) None pages' e e'' res'"
  shows "describe_shards src e =
      Some (e', page_result res (build_shard_graph [close_open_parents (List.map_filter raw_shard (concat (map sd_shards pages)))])) \<and>
    describe_child_shards src p e = Some (e'', page_result res' (List.map_filter child_meta (concat (map sd_shards pages'))))"
  using page_loop_serves [OF assms(1), of raw_shard "[]"] page_loop_serves [OF assms(2), of child_meta "[]"]
  by (simp add: describe_shards_def describe_child_shards_def page_result_def split: option.splits)

text \<open>A service with two pages of three shards, one of them nameless.\<close>

definition paged_shard :: "string option \<Rightarrow> string option \<Rightarrow> SdkShard" where
  "paged_shard i p = \<lparr>ss_shard_id = i, ss_parent_shard_id = p, ss_sequence_number_range = Some None\<rparr>"

definition paged_send :: "string option \<Rightarrow> unit \<Rightarrow> unit \<times> (string + StreamDescription option)" where
  "paged_send start e =
     ((), Inr (Some (if start = None
        then \<lparr>sd_shards = [paged_shard (Some ''a'') None, paged_shard None None], sd_last_evaluated_shard_id = Some ''a''\<rparr>
        else \<lparr>sd_shards = [paged_shard (Some ''b'') (Some ''a'')], sd_last_evaluated_shard_id = None\<rparr>)))"

definition paged_source :: "unit DdbStreamsSource" where
  "paged_source = fst (streams_source_new
     \<lparr>sc_describe_stream = (\<lambda>arn f. paged_send), sc_get_shard_iterator = (\<lambda>arn sh ty q e. (e, Inl [])),
      sc_get_records = (\<lambda>it lim e. (e, Inl []))\<rparr> ''arn'' ssim_codec (\<lambda>e d. e) (\<lambda>e. (e, None)))"

theorem describe_shards_pages_witness:
  "describe_shards paged_source () =
     Some ((), Inr [\<lparr>meta_id = ''a'', meta_parents = []\<rparr>, \<lparr>meta_id = ''b'', meta_parents = [''a'']\<rparr>])"
proof -
  let ?p = "[\<lparr>sd_shards = [paged_shard (Some ''a'') None, paged_shard None None], sd_last_evaluated_shard_id = Some ''a''\<rparr>,
    \<lparr>sd_shards = [paged_shard (Some ''b'') (Some ''a'')], sd_last_evaluated_shard_id = None\<rparr>]"
  have "serves paged_send None ?p () () None"
    by (rule serves_more [of _ _ _ "()"]) (auto simp: paged_send_def intro!: serves_last)
  then have s: "serves (sc_describe_stream (src_client paged_source) (src_stream_arn paged_source) f) None ?p () () None" for f
    by (simp add: paged_source_def streams_source_new_def)
  from describe_shards_pages [OF s s, of "''a''"] show ?thesis
    by (simp add: page_result_def List.map_filter_simps raw_shard_def shard_id_of_def paged_shard_def build_shard_graph_def
        close_open_parents_def parents_of_def Let_def)
qed

end
