(* ===== verification/Sidecar_Ipc.thy ===== *)
theory Sidecar_Ipc
  imports Change_Record Worker_Traits
begin

text \<open>
  The wire protocol (\<open>protocol/src/lib.rs\<close>) and the sidecar's end of it
  (\<open>sidecar/src/ipc.rs\<close>). The JSON text of a message is a parameter (\<open>serde_json\<close>); framing
  and parsing of lines are modelled.

  The sidecar's connection is shared by the shard tasks and the reader task, so it is a state
  machine: an event is one atomic section of one of them (a critical section under a lock, or
  the resumption of a task that waits), and a run is any interleaving of events. A one-shot channel
  belongs to one \<open>deliver_batch\<close> call and is open until a value is sent or its sender is dropped.
\<close>

section \<open>Messages and framing\<close>

datatype ServerMessage =
    Records ShardId string "StreamRecord list"
  | ShardComplete ShardId
  | ShutdownRequested ShardId
  | LeaseLost ShardId
  | Shutdown string

datatype ClientMessage = Ready | CheckpointAck ShardId string | Stop

text \<open>\<open>serde_json::to_string\<close> and \<open>from_str\<close> at the two message types.\<close>

record wire =
  w_server_json :: "ServerMessage \<Rightarrow> string"
  w_server_of_json :: "string \<Rightarrow> string + ServerMessage"
  w_client_json :: "ClientMessage \<Rightarrow> string"
  w_client_of_json :: "string \<Rightarrow> string + ClientMessage"

abbreviation LF :: char where "LF \<equiv> CHR 0x0A"
abbreviation CR :: char where "CR \<equiv> CHR 0x0D"

text \<open>\<open>trim_end_matches\<close> with both line end characters.\<close>

definition trim_line_end :: "string \<Rightarrow> string" where
  "trim_line_end s = rev (dropWhile (\<lambda>c. c = LF \<or> c = CR) (rev s))"

definition server_to_line :: "wire \<Rightarrow> ServerMessage \<Rightarrow> string" where
  "server_to_line W m = w_server_json W m @ [LF]"

definition server_parse :: "wire \<Rightarrow> string \<Rightarrow> string + ServerMessage" where
  "server_parse W line = w_server_of_json W (trim_line_end line)"

definition client_to_line :: "wire \<Rightarrow> ClientMessage \<Rightarrow> string" where
  "client_to_line W m = w_client_json W m @ [LF]"

definition client_parse :: "wire \<Rightarrow> string \<Rightarrow> string + ClientMessage" where
  "client_parse W line = w_client_of_json W (trim_line_end line)"

text \<open>
  \<open>AsyncBufReadExt::lines\<close>: the text up to a line feed, without it and a carriage return before
  it; a last line may lack the line feed.
\<close>

function read_lines :: "string \<Rightarrow> string list" where
  "read_lines s =
     (if s = [] then []
      else let l = takeWhile (\<lambda>c. c \<noteq> LF) s in
        if length l = length s then [l]
        else (if l \<noteq> [] \<and> last l = CR then butlast l else l) # read_lines (drop (Suc (length l)) s))"
  by auto
termination
  by (relation "measure length") auto

declare read_lines.simps [simp del]

section \<open>The connection\<close>

datatype rx_state = RxOpen | RxValue string | RxDropped

datatype call_phase = Registered | Awaiting | Returned "string option"

record deliver_call =
  dc_shard :: ShardId
  dc_last_seq :: string
  dc_records :: "StreamRecord list"
  dc_phase :: call_phase
  dc_rx :: rx_state

text \<open>\<open>ipc_pending\<close> names the call whose sender is registered; \<open>ipc_reading\<close> is the reader task.\<close>

record Ipc =
  ipc_out :: "ServerMessage list"
  ipc_pending :: "ShardId \<rightharpoonup> nat"
  ipc_stopped :: bool
  ipc_reading :: bool
  ipc_calls :: "deliver_call list"

definition ipc_new :: Ipc where
  "ipc_new = \<lparr>ipc_out = [], ipc_pending = Map.empty, ipc_stopped = False, ipc_reading = True, ipc_calls = []\<rparr>"

definition set_rx :: "nat \<Rightarrow> rx_state \<Rightarrow> Ipc \<Rightarrow> Ipc" where
  "set_rx i v p = p\<lparr>ipc_calls := (ipc_calls p)[i := (ipc_calls p ! i)\<lparr>dc_rx := v\<rparr>]\<rparr>"

definition set_phase :: "nat \<Rightarrow> call_phase \<Rightarrow> Ipc \<Rightarrow> Ipc" where
  "set_phase i v p = p\<lparr>ipc_calls := (ipc_calls p)[i := (ipc_calls p ! i)\<lparr>dc_phase := v\<rparr>]\<rparr>"

definition signal_stop :: "Ipc \<Rightarrow> Ipc" where
  "signal_stop p = p\<lparr>ipc_stopped := True\<rparr>"

definition request_stop :: "Ipc \<Rightarrow> Ipc" where
  "request_stop p = signal_stop p"

definition is_stopped :: "Ipc \<Rightarrow> bool" where
  "is_stopped p = ipc_stopped p"

text \<open>\<open>send\<close>: the write succeeds or fails; a message that could not be written is not seen.\<close>

definition ipc_send :: "ServerMessage \<Rightarrow> bool \<Rightarrow> Ipc \<Rightarrow> Ipc" where
  "ipc_send m ok p = (if ok then p\<lparr>ipc_out := ipc_out p @ [m]\<rparr> else p)"

text \<open>\<open>pending.remove(shard)\<close> with the fate of the removed sender: a value is sent, or it is dropped.\<close>

definition take_sender :: "ShardId \<Rightarrow> rx_state \<Rightarrow> Ipc \<Rightarrow> Ipc" where
  "take_sender sh v p =
     (case ipc_pending p sh of
        None \<Rightarrow> p
      | Some i \<Rightarrow> (set_rx i v p)\<lparr>ipc_pending := (ipc_pending p)(sh := None)\<rparr>)"

text \<open>The first section of \<open>deliver_batch\<close>: a new channel, its sender registered in place of another.\<close>

definition register_call :: "ShardId \<Rightarrow> string \<Rightarrow> StreamRecord list \<Rightarrow> Ipc \<Rightarrow> Ipc" where
  "register_call sh last_seq records p =
     (let p' = take_sender sh RxDropped p in
      p'\<lparr>ipc_calls := ipc_calls p' @
           [\<lparr>dc_shard = sh, dc_last_seq = last_seq, dc_records = records, dc_phase = Registered, dc_rx = RxOpen\<rparr>],
         ipc_pending := (ipc_pending p')(sh \<mapsto> length (ipc_calls p'))\<rparr>)"

text \<open>The second: write the batch; on failure remove the waiter and give up.\<close>

definition write_batch :: "nat \<Rightarrow> bool \<Rightarrow> Ipc \<Rightarrow> Ipc" where
  "write_batch i ok p =
     (let c = ipc_calls p ! i in
      if i < length (ipc_calls p) \<and> dc_phase c = Registered
      then if ok then set_phase i Awaiting (ipc_send (Records (dc_shard c) (dc_last_seq c) (dc_records c)) True p)
           else set_phase i (Returned None) (take_sender (dc_shard c) RxDropped p)
      else p)"

text \<open>The third: \<open>rx.await.ok()\<close>, which waits while the channel is open.\<close>

definition resume_call :: "nat \<Rightarrow> Ipc \<Rightarrow> Ipc" where
  "resume_call i p =
     (let c = ipc_calls p ! i in
      if i < length (ipc_calls p) \<and> dc_phase c = Awaiting
      then (case dc_rx c of
              RxOpen \<Rightarrow> p
            | RxValue s \<Rightarrow> set_phase i (Returned (Some s)) p
            | RxDropped \<Rightarrow> set_phase i (Returned None) p)
      else p)"

text \<open>One turn of the reader task on a line, and at the end of the stream.\<close>

definition reader_line :: "wire \<Rightarrow> string \<Rightarrow> Ipc \<Rightarrow> Ipc" where
  "reader_line W line p =
     (if \<not> ipc_reading p then p
      else if trim line = [] then p
      else case client_parse W line of
        Inr (CheckpointAck sh q) \<Rightarrow> take_sender sh (RxValue q) p
      | Inr Ready \<Rightarrow> p
      | Inr Stop \<Rightarrow> (signal_stop p)\<lparr>ipc_reading := False\<rparr>
      | Inl _ \<Rightarrow> p)"

definition reader_eof :: "Ipc \<Rightarrow> Ipc" where
  "reader_eof p = (if ipc_reading p then (signal_stop p)\<lparr>ipc_reading := False\<rparr> else p)"

datatype ipc_event =
    EvDeliverCall ShardId string "StreamRecord list"
  | EvWrite nat bool
  | EvResume nat
  | EvNotify ServerMessage bool
  | EvLine string
  | EvEof
  | EvRequestStop

fun ipc_step :: "wire \<Rightarrow> ipc_event \<Rightarrow> Ipc \<Rightarrow> Ipc" where
  "ipc_step W (EvDeliverCall sh q rs) p = register_call sh q rs p"
| "ipc_step W (EvWrite i ok) p = write_batch i ok p"
| "ipc_step W (EvResume i) p = resume_call i p"
| "ipc_step W (EvNotify m ok) p = ipc_send m ok p"
| "ipc_step W (EvLine l) p = reader_line W l p"
| "ipc_step W EvEof p = reader_eof p"
| "ipc_step W EvRequestStop p = request_stop p"

definition ipc_run :: "wire \<Rightarrow> ipc_event list \<Rightarrow> Ipc \<Rightarrow> Ipc" where
  "ipc_run W evs p = fold (ipc_step W) evs p"

section \<open>The consumer\<close>

text \<open>
  What \<open>IpcConsumer\<close> asks of the connection: nothing for an empty batch, otherwise a call with the
  last sequence number and the payloads that decode; and the two notifications.
\<close>

definition consumer_call :: "payload_codec \<Rightarrow> ShardId \<Rightarrow> Record list \<Rightarrow> ipc_event option" where
  "consumer_call pc sh records =
     (if records = [] then None
      else Some (EvDeliverCall sh (rec_seq (last records))
        (List.map_filter (\<lambda>r. case pc_decode pc (rec_data r) of Inr sr \<Rightarrow> Some sr | Inl _ \<Rightarrow> None) records)))"

definition consumer_shard_ended :: "ShardId \<Rightarrow> bool \<Rightarrow> ipc_event" where
  "consumer_shard_ended sh ok = EvNotify (ShardComplete sh) ok"

definition consumer_lease_lost :: "ShardId \<Rightarrow> bool \<Rightarrow> ipc_event" where
  "consumer_lease_lost sh ok = EvNotify (LeaseLost sh) ok"

definition ipc_shutdown :: "string \<Rightarrow> bool \<Rightarrow> ipc_event" where
  "ipc_shutdown reason ok = EvNotify (Shutdown reason) ok"

definition ipc_shutdown_requested :: "ShardId \<Rightarrow> bool \<Rightarrow> ipc_event" where
  "ipc_shutdown_requested sh ok = EvNotify (ShutdownRequested sh) ok"

section \<open>Lemmas on framing\<close>

text \<open>A message whose JSON parses back to it and contains no line end.\<close>

definition framable :: "('m \<Rightarrow> string) \<Rightarrow> (string \<Rightarrow> string + 'm) \<Rightarrow> 'm \<Rightarrow> bool" where
  "framable json of_json m \<longleftrightarrow> of_json (json m) = Inr m \<and> LF \<notin> set (json m) \<and> CR \<notin> set (json m)"

lemma read_lines_Nil [simp]: "read_lines [] = []"
  by (simp add: read_lines.simps)

lemma read_lines_append:
  assumes "LF \<notin> set l" "CR \<notin> set l"
  shows "read_lines (l @ LF # s) = l # read_lines s"
proof -
  have t: "takeWhile (\<lambda>c. c \<noteq> LF) (l @ LF # s) = l"
    using assms(1) by (subst takeWhile_append2) auto
  have "l \<noteq> [] \<Longrightarrow> last l \<noteq> CR" using assms(2) by (metis last_in_set)
  then show ?thesis by (subst read_lines.simps) (auto simp: t Let_def)
qed

lemma trim_line_end_id: "LF \<notin> set s \<Longrightarrow> CR \<notin> set s \<Longrightarrow> trim_line_end s = s"
  by (cases s rule: rev_cases) (auto simp: trim_line_end_def)

lemma trim_line_end_line: "LF \<notin> set s \<Longrightarrow> CR \<notin> set s \<Longrightarrow> trim_line_end (s @ [LF]) = s"
  using trim_line_end_id [of s] by (simp add: trim_line_end_def)

lemma framed_lines:
  "\<forall>m \<in> set ms. framable json of_json m \<Longrightarrow>
   map (\<lambda>l. of_json (trim_line_end l)) (read_lines (concat (map (\<lambda>m. json m @ [LF]) ms))) = map Inr ms"
  by (induction ms) (auto simp: framable_def read_lines_append trim_line_end_id)

section \<open>Lemmas on the connection\<close>

text \<open>
  The invariant of the connection, with \<open>A\<close> the acknowledgements read so far for a call: exactly
  the calls with an open channel are pending, at most one per shard; a value in a channel was
  read for it; a call that waits, or has returned a sequence number, has its batch written.
\<close>

definition call_ok :: "(nat \<Rightarrow> ShardId \<Rightarrow> string \<Rightarrow> bool) \<Rightarrow> (ShardId \<rightharpoonup> nat) \<Rightarrow> ServerMessage list \<Rightarrow> nat \<Rightarrow> deliver_call \<Rightarrow> bool" where
  "call_ok A pending out i c \<longleftrightarrow>
     (dc_rx c = RxOpen \<longrightarrow> pending (dc_shard c) = Some i) \<and>
     (\<forall>s. dc_rx c = RxValue s \<longrightarrow> A i (dc_shard c) s) \<and>
     (\<forall>s. dc_phase c = Returned (Some s) \<longrightarrow> dc_rx c = RxValue s) \<and>
     (dc_phase c = Awaiting \<or> (\<exists>s. dc_phase c = Returned (Some s)) \<longrightarrow>
        Records (dc_shard c) (dc_last_seq c) (dc_records c) \<in> set out)"

definition ipc_inv :: "(nat \<Rightarrow> ShardId \<Rightarrow> string \<Rightarrow> bool) \<Rightarrow> Ipc \<Rightarrow> bool" where
  "ipc_inv A p \<longleftrightarrow>
     (\<forall>i < length (ipc_calls p). call_ok A (ipc_pending p) (ipc_out p) i (ipc_calls p ! i)) \<and>
     (\<forall>sh i. ipc_pending p sh = Some i \<longrightarrow>
        i < length (ipc_calls p) \<and> dc_shard (ipc_calls p ! i) = sh \<and> dc_rx (ipc_calls p ! i) = RxOpen)"

lemma nth_update: "j < length xs \<Longrightarrow> xs[i := x] ! j = (if j = i then x else xs ! j)"
  by (auto simp: nth_list_update)

lemma ipc_inv_new: "ipc_inv A ipc_new"
  by (simp add: ipc_inv_def ipc_new_def)

lemma ipc_inv_mono: "ipc_inv A p \<Longrightarrow> (\<And>i sh s. A i sh s \<Longrightarrow> B i sh s) \<Longrightarrow> ipc_inv B p"
  by (auto simp: ipc_inv_def call_ok_def)

lemma ipc_invI:
  assumes "\<And>i. i < length (ipc_calls p) \<Longrightarrow> call_ok A (ipc_pending p) (ipc_out p) i (ipc_calls p ! i)"
    and "\<And>sh i. ipc_pending p sh = Some i \<Longrightarrow>
      i < length (ipc_calls p) \<and> dc_shard (ipc_calls p ! i) = sh \<and> dc_rx (ipc_calls p ! i) = RxOpen"
  shows "ipc_inv A p"
  using assms by (simp add: ipc_inv_def)

lemma ipc_inv_call: "ipc_inv A p \<Longrightarrow> i < length (ipc_calls p) \<Longrightarrow> call_ok A (ipc_pending p) (ipc_out p) i (ipc_calls p ! i)"
  by (simp add: ipc_inv_def)

lemma ipc_inv_pending:
  "ipc_inv A p \<Longrightarrow> ipc_pending p sh = Some i \<Longrightarrow>
   i < length (ipc_calls p) \<and> dc_shard (ipc_calls p ! i) = sh \<and> dc_rx (ipc_calls p ! i) = RxOpen"
  by (simp add: ipc_inv_def)

lemma take_sender_inv:
  assumes "ipc_inv A p" and "v \<noteq> RxOpen" and "\<And>i s. ipc_pending p sh = Some i \<Longrightarrow> v = RxValue s \<Longrightarrow> A i sh s"
  shows "ipc_inv A (take_sender sh v p)"
proof (cases "ipc_pending p sh")
  case (Some i)
  note pd = ipc_inv_pending [OF assms(1) Some]
  let ?p = "take_sender sh v p"
  have c: "ipc_calls ?p ! j = (if j = i then (ipc_calls p ! i)\<lparr>dc_rx := v\<rparr> else ipc_calls p ! j)"
    if "j < length (ipc_calls p)" for j
    using that pd by (simp add: take_sender_def set_rx_def Some nth_list_update)
  have e: "length (ipc_calls ?p) = length (ipc_calls p)" "ipc_pending ?p = (ipc_pending p)(sh := None)" "ipc_out ?p = ipc_out p"
    by (simp_all add: take_sender_def set_rx_def Some)
  show ?thesis
  proof (rule ipc_invI)
    fix j assume "j < length (ipc_calls ?p)"
    then have j: "j < length (ipc_calls p)" by (simp add: e)
    show "call_ok A (ipc_pending ?p) (ipc_out ?p) j (ipc_calls ?p ! j)"
      using ipc_inv_call [OF assms(1) j] assms(2,3) pd Some unfolding c [OF j] e by (auto simp: call_ok_def)
  next
    fix sh' j assume "ipc_pending ?p sh' = Some j"
    then have "sh' \<noteq> sh" "ipc_pending p sh' = Some j" by (auto simp: e split: if_splits)
    with ipc_inv_pending [OF assms(1) this(2)] pd
    show "j < length (ipc_calls ?p) \<and> dc_shard (ipc_calls ?p ! j) = sh' \<and> dc_rx (ipc_calls ?p ! j) = RxOpen"
      by (auto simp: e c)
  qed
qed (use assms in \<open>simp add: take_sender_def\<close>)

lemma set_phase_inv:
  assumes "ipc_inv A p" and "\<And>s. v = Returned (Some s) \<Longrightarrow> dc_rx (ipc_calls p ! i) = RxValue s"
    and "v = Awaiting \<or> (\<exists>s. v = Returned (Some s)) \<Longrightarrow>
      Records (dc_shard (ipc_calls p ! i)) (dc_last_seq (ipc_calls p ! i)) (dc_records (ipc_calls p ! i)) \<in> set (ipc_out p)"
  shows "ipc_inv A (set_phase i v p)"
proof -
  have "call_ok A (ipc_pending p) (ipc_out p) j ((ipc_calls p)[i := (ipc_calls p ! i)\<lparr>dc_phase := v\<rparr>] ! j)"
    if "j < length (ipc_calls p)" for j
    using assms that by (auto simp: ipc_inv_def call_ok_def nth_update)
  with assms(1) show ?thesis by (auto simp: ipc_inv_def set_phase_def nth_update)
qed

lemma send_inv: "ipc_inv A p \<Longrightarrow> ipc_inv A (ipc_send m ok p)"
  by (auto simp: ipc_inv_def ipc_send_def call_ok_def)

lemma take_sender_same [simp]:
  "length (ipc_calls (take_sender sh v p)) = length (ipc_calls p)"
  "ipc_out (take_sender sh v p) = ipc_out p"
  "ipc_pending (take_sender sh v p) sh = None"
  by (auto simp: take_sender_def set_rx_def split: option.splits)

lemma register_inv: "ipc_inv A p \<Longrightarrow> ipc_inv A (register_call sh q rs p)"
proof -
  let ?p = "take_sender sh RxDropped p"
  assume "ipc_inv A p"
  then have i: "ipc_inv A ?p" by (rule take_sender_inv) simp_all
  let ?q = "register_call sh q rs p"
  have e: "ipc_pending ?q = (ipc_pending ?p)(sh \<mapsto> length (ipc_calls p))" "ipc_out ?q = ipc_out ?p"
    "ipc_calls ?q = ipc_calls ?p @ [\<lparr>dc_shard = sh, dc_last_seq = q, dc_records = rs, dc_phase = Registered, dc_rx = RxOpen\<rparr>]"
    by (simp_all add: register_call_def Let_def)
  show ?thesis
  proof (rule ipc_invI)
    fix j assume j: "j < length (ipc_calls ?q)"
    show "call_ok A (ipc_pending ?q) (ipc_out ?q) j (ipc_calls ?q ! j)"
    proof (cases "j < length (ipc_calls p)")
      case True
      then show ?thesis using ipc_inv_call [OF i, of j] take_sender_same(3) [of sh RxDropped p]
        by (auto simp: e nth_append call_ok_def)
    next
      case False
      with j show ?thesis by (simp add: e nth_append call_ok_def)
    qed
  next
    fix sh' j assume "ipc_pending ?q sh' = Some j"
    then show "j < length (ipc_calls ?q) \<and> dc_shard (ipc_calls ?q ! j) = sh' \<and> dc_rx (ipc_calls ?q ! j) = RxOpen"
      using ipc_inv_pending [OF i, of sh' j] by (auto simp: e nth_append split: if_splits)
  qed
qed

text \<open>\<open>acked\<close>: a line of the run acknowledges \<open>s\<close> for the shard while the call is its pending one.\<close>

definition acked :: "wire \<Rightarrow> ipc_event list \<Rightarrow> nat \<Rightarrow> ShardId \<Rightarrow> string \<Rightarrow> bool" where
  "acked W evs i sh s \<longleftrightarrow> (\<exists>xs line ys. evs = xs @ EvLine line # ys \<and> client_parse W line = Inr (CheckpointAck sh s) \<and>
     ipc_reading (ipc_run W xs ipc_new) \<and> ipc_pending (ipc_run W xs ipc_new) sh = Some i)"

lemma acked_append: "acked W evs i sh s \<Longrightarrow> acked W (evs @ ev) i sh s"
  by (fastforce simp: acked_def)

lemma write_batch_inv: "ipc_inv A p \<Longrightarrow> ipc_inv A (write_batch i ok p)"
  by (auto simp: write_batch_def Let_def ipc_send_def [of _ True] intro!: set_phase_inv take_sender_inv
      send_inv [of A p _ True, unfolded ipc_send_def, simplified])

lemma resume_call_inv:
  assumes "ipc_inv A p"
  shows "ipc_inv A (resume_call i p)"
proof (cases "i < length (ipc_calls p) \<and> dc_phase (ipc_calls p ! i) = Awaiting")
  case True
  with ipc_inv_call [OF assms, of i]
  have "Records (dc_shard (ipc_calls p ! i)) (dc_last_seq (ipc_calls p ! i)) (dc_records (ipc_calls p ! i)) \<in> set (ipc_out p)"
    by (simp add: call_ok_def)
  with True assms show ?thesis by (auto simp: resume_call_def Let_def intro!: set_phase_inv split: rx_state.splits)
next
  case False
  with assms show ?thesis by (simp only: resume_call_def Let_def if_False)
qed

lemma signal_stop_inv: "ipc_inv A p \<Longrightarrow> ipc_inv A (signal_stop p)" "ipc_inv A p \<Longrightarrow> ipc_inv A ((signal_stop p)\<lparr>ipc_reading := False\<rparr>)"
  by (simp_all add: ipc_inv_def signal_stop_def)

lemma ipc_step_inv:
  assumes "ipc_inv A p" and "\<And>line sh s i. ev = EvLine line \<Longrightarrow> client_parse W line = Inr (CheckpointAck sh s) \<Longrightarrow>
      ipc_reading p \<Longrightarrow> ipc_pending p sh = Some i \<Longrightarrow> A i sh s"
  shows "ipc_inv A (ipc_step W ev p)"
proof (cases ev)
  case (EvLine line)
  with assms show ?thesis
    by (auto simp: reader_line_def intro!: take_sender_inv signal_stop_inv split: sum.splits ClientMessage.splits)
qed (use assms in \<open>simp_all add: register_inv write_batch_inv resume_call_inv send_inv reader_eof_def request_stop_def signal_stop_inv\<close>)

lemma ipc_run_simps [simp]: "ipc_run W [] p = p" "ipc_run W (ev # evs) p = ipc_run W evs (ipc_step W ev p)"
  by (simp_all add: ipc_run_def)

lemma ipc_run_append [simp]: "ipc_run W (evs @ evs') p = ipc_run W evs' (ipc_run W evs p)"
  by (simp add: ipc_run_def)

lemma ipc_run_inv: "ipc_inv (acked W evs) (ipc_run W evs ipc_new)"
proof (induction evs rule: rev_induct)
  case Nil
  then show ?case by (simp add: ipc_inv_new)
next
  case (snoc ev evs)
  have "ipc_inv (acked W (evs @ [ev])) (ipc_run W evs ipc_new)"
    using snoc.IH by (rule ipc_inv_mono) (rule acked_append)
  then have "ipc_inv (acked W (evs @ [ev])) (ipc_step W ev (ipc_run W evs ipc_new))"
    by (rule ipc_step_inv) (unfold acked_def, blast)
  then show ?case by simp
qed

text \<open>A call that waits while the client is gone, and no other call of its shard under way.\<close>

definition stranded :: "nat \<Rightarrow> ShardId \<Rightarrow> Ipc \<Rightarrow> bool" where
  "stranded i sh p \<longleftrightarrow> \<not> ipc_reading p \<and> i < length (ipc_calls p) \<and> dc_shard (ipc_calls p ! i) = sh \<and>
     dc_phase (ipc_calls p ! i) = Awaiting \<and> dc_rx (ipc_calls p ! i) = RxOpen \<and>
     (\<forall>j < length (ipc_calls p). dc_shard (ipc_calls p ! j) = sh \<longrightarrow> dc_phase (ipc_calls p ! j) \<noteq> Registered)"

lemma take_sender_fields [simp]:
  "j < length (ipc_calls p) \<Longrightarrow> dc_shard (ipc_calls (take_sender sh v p) ! j) = dc_shard (ipc_calls p ! j)"
  "j < length (ipc_calls p) \<Longrightarrow> dc_phase (ipc_calls (take_sender sh v p) ! j) = dc_phase (ipc_calls p ! j)"
  "ipc_reading (take_sender sh v p) = ipc_reading p"
  by (auto simp: take_sender_def set_rx_def nth_update split: option.splits)

lemma take_sender_other:
  "ipc_inv A p \<Longrightarrow> dc_shard (ipc_calls p ! j) \<noteq> sh \<Longrightarrow> ipc_calls (take_sender sh v p) ! j = ipc_calls p ! j"
  using ipc_inv_pending [of A p sh] by (cases "ipc_pending p sh"; cases "ipc_pending p sh = Some j") (auto simp: take_sender_def set_rx_def)

lemma set_phase_fields [simp]:
  "length (ipc_calls (set_phase i v p)) = length (ipc_calls p)"
  "ipc_reading (set_phase i v p) = ipc_reading p"
  "j < length (ipc_calls p) \<Longrightarrow> dc_shard (ipc_calls (set_phase i v p) ! j) = dc_shard (ipc_calls p ! j)"
  "j < length (ipc_calls p) \<Longrightarrow> dc_rx (ipc_calls (set_phase i v p) ! j) = dc_rx (ipc_calls p ! j)"
  "j < length (ipc_calls p) \<Longrightarrow> dc_phase (ipc_calls (set_phase i v p) ! j) = (if j = i then v else dc_phase (ipc_calls p ! j))"
  by (auto simp: set_phase_def nth_update)

lemma ipc_send_fields [simp]:
  "ipc_calls (ipc_send m ok p) = ipc_calls p" "ipc_reading (ipc_send m ok p) = ipc_reading p" "ipc_pending (ipc_send m ok p) = ipc_pending p"
  by (simp_all add: ipc_send_def)

lemma stranded_step:
  assumes inv: "ipc_inv A p" and st: "stranded i sh p" and ev: "\<And>q rs. ev \<noteq> EvDeliverCall sh q rs"
  shows "stranded i sh (ipc_step W ev p)"
proof (cases ev)
  case (EvDeliverCall sh' q rs)
  with ev have "sh' \<noteq> sh" by blast
  with EvDeliverCall st take_sender_other [OF inv, of i sh' RxDropped] show ?thesis
    by (auto simp: stranded_def register_call_def Let_def nth_append less_Suc_eq)
next
  case (EvWrite j ok)
  show ?thesis
  proof (cases "j < length (ipc_calls p) \<and> dc_phase (ipc_calls p ! j) = Registered")
    case True
    with st have "dc_shard (ipc_calls p ! j) \<noteq> sh" by (auto simp: stranded_def)
    with EvWrite True st take_sender_other [OF inv, of i "dc_shard (ipc_calls p ! j)" RxDropped] show ?thesis
      by (auto simp: stranded_def write_batch_def Let_def)
  next
    case False
    with EvWrite st show ?thesis by (simp only: ipc_step.simps write_batch_def Let_def if_False)
  qed
next
  case (EvResume j)
  with st show ?thesis by (auto simp: stranded_def resume_call_def Let_def split: rx_state.splits)
next
  case (EvNotify m ok)
  with st show ?thesis by (simp add: stranded_def)
qed (use st in \<open>simp_all add: stranded_def reader_line_def reader_eof_def request_stop_def signal_stop_def\<close>)

text \<open>
  A batch that is not acknowledged when the client goes away is waited for forever: no event of
  the connection, neither the end of the input nor a stop, makes the call return.
\<close>

lemma client_gone_strands_call:
  assumes "ipc_inv A p" and "stranded i sh p" and "\<And>q rs. EvDeliverCall sh q rs \<notin> set evs"
  shows "dc_phase (ipc_calls (ipc_run W evs p) ! i) = Awaiting"
proof -
  have "stranded i sh (ipc_run W evs p)" using assms
  proof (induction evs arbitrary: p A)
    case (Cons ev evs)
    then have "stranded i sh (ipc_step W ev p)" by (intro stranded_step) auto
    moreover have "ipc_inv (\<lambda>_ _ _. True) (ipc_step W ev p)"
      by (rule ipc_step_inv [OF ipc_inv_mono [OF Cons.prems(1)]]) simp_all
    ultimately show ?case using Cons.IH Cons.prems(3) by simp
  qed simp
  then show ?thesis by (simp add: stranded_def)
qed

lemma client_gone_example:
  "stranded 0 ''s'' (ipc_run W [EvDeliverCall ''s'' ''9'' [], EvWrite 0 True, EvEof] ipc_new)"
  by (simp add: stranded_def ipc_new_def register_call_def take_sender_def write_batch_def set_phase_def ipc_send_def
      reader_eof_def signal_stop_def Let_def)

section \<open>Properties\<close>

text \<open>A codec of four messages, as an instance of the parameter.\<close>

definition demo_wire :: wire where
  "demo_wire =
     \<lparr>w_server_json = (\<lambda>m. if m = ShardComplete ''s'' then ''complete'' else ''shutdown''),
      w_server_of_json = (\<lambda>t. if t = ''complete'' then Inr (ShardComplete ''s'') else if t = ''shutdown'' then Inr (Shutdown ''bye'') else Inl ''bad''),
      w_client_json = (\<lambda>m. if m = Stop then ''stop'' else ''ack''),
      w_client_of_json = (\<lambda>t. if t = ''stop'' then Inr Stop else if t = ''ack'' then Inr (CheckpointAck ''s'' ''9'') else Inl ''bad'')\<rparr>"



text \<open>
  C20 (safety). Acknowledgements gate delivery. In every interleaving of the shard tasks, the
  reader and stop requests: when a delivery returns a sequence number, its batch was written to
  the client, and the client sent a line acknowledging that sequence number for that shard, read
  while this very delivery was the pending one of its shard. As a shard has one pending delivery,
  one line answers at most one delivery.
\<close>

theorem ipc_ack_gated:
  assumes "p = ipc_run W evs ipc_new" and "i < length (ipc_calls p)" and "dc_phase (ipc_calls p ! i) = Returned (Some s)"
  shows "Records (dc_shard (ipc_calls p ! i)) (dc_last_seq (ipc_calls p ! i)) (dc_records (ipc_calls p ! i)) \<in> set (ipc_out p) \<and>
    (\<exists>xs line ys. evs = xs @ EvLine line # ys \<and> client_parse W line = Inr (CheckpointAck (dc_shard (ipc_calls p ! i)) s) \<and>
      ipc_reading (ipc_run W xs ipc_new) \<and> ipc_pending (ipc_run W xs ipc_new) (dc_shard (ipc_calls p ! i)) = Some i)"
  using ipc_inv_call [OF ipc_run_inv, of i W evs] assms unfolding call_ok_def acked_def by blast

lemmas ipc_eval = ipc_new_def register_call_def take_sender_def write_batch_def resume_call_def set_phase_def set_rx_def
  ipc_send_def reader_line_def client_parse_def trim_line_end_def demo_wire_def trim_def is_space_def Let_def

theorem ipc_ack_gated_witness:
  "\<exists>p. p = ipc_run demo_wire [EvDeliverCall ''s'' ''9'' [], EvWrite 0 True, EvLine ''ack'', EvResume 0] ipc_new \<and>
     Records ''s'' ''9'' [] \<in> set (ipc_out p) \<and>
     (\<exists>xs line ys. [EvDeliverCall ''s'' ''9'' [], EvWrite 0 True, EvLine ''ack'', EvResume 0] = xs @ EvLine line # ys \<and>
        client_parse demo_wire line = Inr (CheckpointAck ''s'' ''9''))"
proof -
  let ?evs = "[EvDeliverCall ''s'' ''9'' [], EvWrite 0 True, EvLine ''ack'', EvResume 0]"
  let ?p = "ipc_run demo_wire ?evs ipc_new"
  have c: "ipc_calls ?p = [\<lparr>dc_shard = ''s'', dc_last_seq = ''9'', dc_records = [], dc_phase = Returned (Some ''9''), dc_rx = RxValue ''9''\<rparr>]"
    by (simp add: ipc_eval)
  have "0 < length (ipc_calls ?p)" "dc_phase (ipc_calls ?p ! 0) = Returned (Some ''9'')" by (simp_all only: c) simp_all
  from ipc_ack_gated [OF refl this] show ?thesis unfolding c by (intro exI [of _ ?p] conjI) auto
qed

text \<open>
  C23 (liveness). A delivery returns as soon as its outcome is known: in every reachable state of
  the connection, a delivery that waits with its channel open returns the sequence number of the
  next acknowledgement the reader reads for its shard; one whose batch cannot be written returns
  without a sequence number at once; and a second delivery for the shard makes an earlier one
  that waits return without one.
\<close>

theorem ipc_delivery_returns:
  assumes p: "p = ipc_run W evs ipc_new" and i: "i < length (ipc_calls p)"
  shows "(dc_phase (ipc_calls p ! i) = Awaiting \<and> dc_rx (ipc_calls p ! i) = RxOpen \<and> ipc_reading p \<and> trim line \<noteq> [] \<and>
      client_parse W line = Inr (CheckpointAck (dc_shard (ipc_calls p ! i)) s) \<longrightarrow>
        dc_phase (ipc_calls (ipc_run W [EvLine line, EvResume i] p) ! i) = Returned (Some s)) \<and>
    (dc_phase (ipc_calls p ! i) = Registered \<longrightarrow> dc_phase (ipc_calls (ipc_step W (EvWrite i False) p) ! i) = Returned None) \<and>
    (dc_phase (ipc_calls p ! i) = Awaiting \<and> dc_rx (ipc_calls p ! i) = RxOpen \<longrightarrow>
        dc_phase (ipc_calls (ipc_run W [EvDeliverCall (dc_shard (ipc_calls p ! i)) q rs, EvResume i] p) ! i) = Returned None)"
proof -
  have pend: "ipc_pending p (dc_shard (ipc_calls p ! i)) = Some i" if "dc_rx (ipc_calls p ! i) = RxOpen"
    using ipc_inv_call [OF ipc_run_inv, of i W evs] that i by (simp add: p call_ok_def)
  then show ?thesis using i
    by (intro conjI)
      (simp_all add: reader_line_def register_call_def take_sender_def set_rx_def resume_call_def set_phase_def write_batch_def
        nth_append Let_def split: option.splits)
qed

theorem ipc_delivery_returns_witness:
  "dc_phase (ipc_calls (ipc_run demo_wire [EvLine ''ack'', EvResume 0]
     (ipc_run demo_wire [EvDeliverCall ''s'' ''9'' [], EvWrite 0 True] ipc_new)) ! 0) = Returned (Some ''9'')"
proof -
  let ?p = "ipc_run demo_wire [EvDeliverCall ''s'' ''9'' [], EvWrite 0 True] ipc_new"
  have c: "ipc_calls ?p = [\<lparr>dc_shard = ''s'', dc_last_seq = ''9'', dc_records = [], dc_phase = Awaiting, dc_rx = RxOpen\<rparr>]" "ipc_reading ?p"
    by (simp_all add: ipc_eval)
  have t: "trim ''ack'' \<noteq> []" "client_parse demo_wire ''ack'' = Inr (CheckpointAck ''s'' ''9'')"
    by (simp_all add: ipc_eval)
  have "0 < length (ipc_calls ?p)" by (simp only: c) simp
  from ipc_delivery_returns [OF refl this, of "''ack''" "''9''"] c t show ?thesis by simp
qed

end
