(* ===== verification/Sidecar.thy ===== *)
theory Sidecar
  imports Fleet Lease_Store Sidecar_Ipc
begin

text \<open>
  The sidecar process (\<open>sidecar/src/main.rs\<close>): its configuration from the environment
  variables, the coordination loop, and the graceful handoff of its leases. The environment
  variables are a map, the process id a number; the state of the fleet travels with the
  environment of its operations. Logging to the standard error stream is left out.
\<close>

section \<open>Configuration\<close>

record Config =
  cfg_stream_arn :: string
  cfg_lease_table :: string
  cfg_owner :: string
  cfg_max_leases :: nat
  cfg_lease_duration_ms :: u64
  cfg_poll_interval_ms :: u64
  cfg_cycle_interval_ms :: u64
  cfg_initial_position :: InitialPosition
  cfg_graceful_shutdown_timeout_ms :: u64
  cfg_max_records :: "int option"
  cfg_max_processing_concurrency :: "nat option"
  cfg_checkpoint_interval_ms :: "u64 option"
  cfg_lease_table_config :: LeaseTableConfig

type_synonym env_vars = "string \<rightharpoonup> string"

definition ascii_lower_char :: "char \<Rightarrow> char" where
  "ascii_lower_char c =
     (if CHR ''A'' \<le> c \<and> c \<le> CHR ''Z'' then char_of (of_char c + 32 :: nat) else c)"

definition to_ascii_lowercase :: "string \<Rightarrow> string" where
  "to_ascii_lowercase = map ascii_lower_char"

text \<open>\<open>str::parse::<i32>\<close>: an optional sign, at least one digit, no overflow.\<close>

definition parse_i32 :: "string \<Rightarrow> int option" where
  "parse_i32 s =
     (let neg = (s \<noteq> [] \<and> hd s = CHR ''-'');
          ds = (if s \<noteq> [] \<and> (hd s = CHR ''-'' \<or> hd s = CHR ''+'') then tl s else s)
      in case parse_nat ds of
           None \<Rightarrow> None
         | Some n \<Rightarrow>
             (let i = (if neg then - int n else int n) in
              if - (2 ^ 31) \<le> i \<and> i < 2 ^ 31 then Some i else None))"

definition req :: "env_vars \<Rightarrow> string \<Rightarrow> string + string" where
  "req env k = (case env k of Some v \<Rightarrow> Inr v | None \<Rightarrow> Inl (''missing required env var '' @ k))"

definition opt_u64 :: "env_vars \<Rightarrow> string \<Rightarrow> u64 \<Rightarrow> u64" where
  "opt_u64 env k d = (case Option.bind (env k) parse_u64 of Some n \<Rightarrow> n | None \<Rightarrow> d)"

definition config_owner :: "env_vars \<Rightarrow> nat \<Rightarrow> string" where
  "config_owner env pid =
     (case env ''DDB_STREAMS_CONSUMER_OWNER'' of
        Some v \<Rightarrow> v
      | None \<Rightarrow> (case env ''HOSTNAME'' of Some h \<Rightarrow> h | None \<Rightarrow> ''host'') @ '':'' @ nat_to_string pid)"

definition config_initial_position :: "env_vars \<Rightarrow> string + InitialPosition" where
  "config_initial_position env =
     (case env ''DDB_STREAMS_CONSUMER_INITIAL_POSITION'' of
        Some v \<Rightarrow>
          (case parse_initial_position v of
             Some p \<Rightarrow> Inr p
           | None \<Rightarrow> Inl (''invalid DDB_STREAMS_CONSUMER_INITIAL_POSITION: '' @ v))
      | None \<Rightarrow> Inr initial_position_default)"

definition at_least_one :: "u64 option \<Rightarrow> u64 option" where
  "at_least_one n = (case n of Some k \<Rightarrow> if k \<ge> 1 then Some k else None | None \<Rightarrow> None)"

definition config_table :: "env_vars \<Rightarrow> LeaseTableConfig" where
  "config_table env =
     \<lparr>billing =
        (if to_ascii_uppercase (case env ''DDB_STREAMS_CONSUMER_LEASE_BILLING_MODE'' of Some v \<Rightarrow> v | None \<Rightarrow> []) = ''PROVISIONED''
         then Provisioned (opt_u64 env ''DDB_STREAMS_CONSUMER_LEASE_READ_CAPACITY'' 5)
           (opt_u64 env ''DDB_STREAMS_CONSUMER_LEASE_WRITE_CAPACITY'' 5)
         else PayPerRequest),
      pitr =
        (case env ''DDB_STREAMS_CONSUMER_LEASE_PITR'' of
           Some v \<Rightarrow> to_ascii_lowercase (trim v) \<in> {''1'', ''true'', ''yes'', ''on''}
         | None \<Rightarrow> False)\<rparr>"

definition config_from_env :: "env_vars \<Rightarrow> nat \<Rightarrow> string + Config" where
  "config_from_env env pid =
     (case config_initial_position env of
        Inl err \<Rightarrow> Inl err
      | Inr initial_position \<Rightarrow>
          (case req env ''DDB_STREAMS_CONSUMER_STREAM_ARN'' of
             Inl err \<Rightarrow> Inl err
           | Inr stream_arn \<Rightarrow>
               (case req env ''DDB_STREAMS_CONSUMER_LEASE_TABLE'' of
                  Inl err \<Rightarrow> Inl err
                | Inr lease_table \<Rightarrow>
                    Inr \<lparr>cfg_stream_arn = stream_arn, cfg_lease_table = lease_table, cfg_owner = config_owner env pid,
                      cfg_max_leases = unat (opt_u64 env ''DDB_STREAMS_CONSUMER_MAX_LEASES'' 100),
                      cfg_lease_duration_ms = opt_u64 env ''DDB_STREAMS_CONSUMER_LEASE_DURATION_MS'' 10000,
                      cfg_poll_interval_ms = opt_u64 env ''DDB_STREAMS_CONSUMER_POLL_INTERVAL_MS'' 1000,
                      cfg_cycle_interval_ms = opt_u64 env ''DDB_STREAMS_CONSUMER_CYCLE_INTERVAL_MS'' 1000,
                      cfg_initial_position = initial_position,
                      cfg_graceful_shutdown_timeout_ms = opt_u64 env ''DDB_STREAMS_CONSUMER_GRACEFUL_SHUTDOWN_MS'' 5000,
                      cfg_max_records = Option.bind (env ''DDB_STREAMS_CONSUMER_MAX_RECORDS'') parse_i32,
                      cfg_max_processing_concurrency =
                        map_option unat (at_least_one (Option.bind (env ''DDB_STREAMS_CONSUMER_MAX_PROCESSING_CONCURRENCY'') parse_u64)),
                      cfg_checkpoint_interval_ms =
                        at_least_one (Option.bind (env ''DDB_STREAMS_CONSUMER_CHECKPOINT_INTERVAL_MS'') parse_u64),
                      cfg_lease_table_config = config_table env\<rparr>)))"

section \<open>Handoff\<close>

record 'e LeaseHandoff =
  list_owned :: "'e \<Rightarrow> ('e \<times> (WorkerError + ShardId list)) option"
  release_all_owned :: "'e \<Rightarrow> ('e \<times> (WorkerError + nat)) option"

definition fleet_handoff :: "'e fleet_ops \<Rightarrow> ('e \<times> Fleet) LeaseHandoff" where
  "fleet_handoff ops =
     \<lparr>list_owned = (\<lambda>(e, fleet). map_option (\<lambda>(e', r). ((e', fleet), r)) (owned_shards ops fleet e)),
      release_all_owned = (\<lambda>(e, fleet). map_option (\<lambda>(e', fleet', r). ((e', fleet'), r)) (release_owned ops fleet e))\<rparr>"

definition graceful_handoff ::
  "'e LeaseHandoff \<Rightarrow> ('e \<Rightarrow> ShardId \<Rightarrow> 'e) \<Rightarrow> ('e \<Rightarrow> u64 \<Rightarrow> 'e) \<Rightarrow> u64 \<Rightarrow> 'e \<Rightarrow> 'e option" where
  "graceful_handoff H notify sleep timeout_ms e =
     (case list_owned H e of
        None \<Rightarrow> None
      | Some (e1, r) \<Rightarrow>
          (let e2 = (case r of
                 Inr owned \<Rightarrow> if owned \<noteq> [] then sleep (fold (\<lambda>shard e. notify e shard) owned e1) timeout_ms else e1
               | Inl _ \<Rightarrow> e1)
           in map_option fst (release_all_owned H e2)))"

section \<open>The process\<close>

text \<open>
  The connection as the main task sees it: whether a stop was signalled, the wait between cycles
  (with the information whether the stop ended it), and the notifications.
\<close>

record 'e SidecarIpc =
  si_is_stopped :: "'e \<Rightarrow> bool"
  si_wait :: "'e \<Rightarrow> u64 \<Rightarrow> 'e \<times> bool"
  si_notify_shutdown :: "'e \<Rightarrow> ShardId \<Rightarrow> 'e"
  si_shutdown :: "'e \<Rightarrow> string \<Rightarrow> 'e"
  si_sleep :: "'e \<Rightarrow> u64 \<Rightarrow> 'e"

definition sidecar_fleet ::
  "'e AsyncStreamSource \<Rightarrow> 'e AsyncLeaseStore \<Rightarrow> 'e ShardConsumerFactory \<Rightarrow> 'e Runtime \<Rightarrow> Config \<Rightarrow> 'e fleet_ops \<times> Fleet" where
  "sidecar_fleet source leases factory runtime cfg =
     map_prod id (with_checkpoint_interval (cfg_checkpoint_interval_ms cfg) \<circ>
         with_max_processing_concurrency (cfg_max_processing_concurrency cfg))
       (fleet_new source leases factory runtime
          \<lparr>fc_owner = cfg_owner cfg, fc_max_leases = cfg_max_leases cfg, fc_lease_duration_ms = cfg_lease_duration_ms cfg,
           fc_poll_interval_ms = cfg_poll_interval_ms cfg, fc_initial_position = cfg_initial_position cfg\<rparr>)"

text \<open>The coordination loop; \<open>acts n\<close> is the interleaving of the passes of cycle \<open>n\<close>.\<close>

partial_function (option) sidecar_loop ::
  "(string list \<Rightarrow> string list) \<Rightarrow> 'e fleet_ops \<Rightarrow> 'e SidecarIpc \<Rightarrow> (nat \<Rightarrow> pool_act list) \<Rightarrow> u64 \<Rightarrow> Instant \<Rightarrow> nat \<Rightarrow>
   cycle_state \<Rightarrow> 'e \<Rightarrow> ('e \<times> cycle_state) option" where
  "sidecar_loop ord ops ipc acts cycle_interval start n cy e =
     (if si_is_stopped ipc e then Some (e, cy)
      else let (e1, now) = rt_now (f_runtime ops) e in
        case run_cycle ord ops (acts n) (as_millis (now - start)) cy e1 of
          None \<Rightarrow> None
        | Some (e2, cy2, r) \<Rightarrow>
            if r = Inr True then Some (e2, cy2)
            else let (e3, stopped) = si_wait ipc e2 cycle_interval in
              if stopped then Some (e3, cy2)
              else sidecar_loop ord ops ipc acts cycle_interval start (Suc n) cy2 e3)"

definition sidecar_run ::
  "(string list \<Rightarrow> string list) \<Rightarrow> 'e SidecarIpc \<Rightarrow> (nat \<Rightarrow> pool_act list) \<Rightarrow> Config \<Rightarrow> 'e fleet_ops \<times> Fleet \<Rightarrow> 'e \<Rightarrow> ('e \<times> Fleet) option" where
  "sidecar_run ord ipc acts cfg = (\<lambda>(ops, fleet) e.
     let cy = \<lparr>cy_coord = coordinator_new (cfg_owner cfg) (cfg_max_leases cfg) (cfg_lease_duration_ms cfg),
               cy_ld = leadership_new (cfg_owner cfg) (cfg_lease_duration_ms cfg), cy_fleet = fleet\<rparr>;
         (e0, start) = rt_now (f_runtime ops) e
     in case sidecar_loop ord ops ipc acts (cfg_cycle_interval_ms cfg) start 0 cy e0 of
          None \<Rightarrow> None
        | Some (e1, cy1) \<Rightarrow>
            map_option (\<lambda>(e2, fleet2). (si_shutdown ipc e2 ''sidecar stopping'', fleet2))
              (graceful_handoff (fleet_handoff ops) (\<lambda>(e, fleet) shard. (si_notify_shutdown ipc e shard, fleet))
                (\<lambda>(e, fleet) ms. (si_sleep ipc e ms, fleet)) (cfg_graceful_shutdown_timeout_ms cfg) (e1, cy_fleet cy1)))"

section \<open>Lemmas\<close>

subsection \<open>The configuration of the fleet does not change\<close>

lemma leader_shard_sync_config: "leader_shard_sync ord ops rows fleet e = (e', fleet', r) \<Longrightarrow> flt_config fleet' = flt_config fleet"
  by (auto simp: leader_shard_sync_def Let_def split: if_splits prod.splits sum.splits)

lemma leader_phase_config: "leader_phase ord ops rows now ld fleet e = (e', ld', fleet', r) \<Longrightarrow> flt_config fleet' = flt_config fleet"
  by (auto simp: leader_phase_def split: prod.splits bool.splits sum.splits dest: leader_shard_sync_config)

lemma run_bounded_pool_config: "run_bounded_pool ops owned k now acts fleet e = Some (e', fleet') \<Longrightarrow> flt_config fleet' = flt_config fleet"
  by (auto simp: run_bounded_pool_def Let_def split: if_splits prod.splits option.splits)

lemma process_phase_config: "process_phase ops acts rows fleet e = Some (e', fleet', b) \<Longrightarrow> flt_config fleet' = flt_config fleet"
  by (auto simp: process_phase_def Let_def split: if_splits prod.splits option.splits dest: run_bounded_pool_config)

lemma run_cycle_config:
  "run_cycle ord ops acts now cy e = Some (e', cy', r) \<Longrightarrow> flt_config (cy_fleet cy') = flt_config (cy_fleet cy)"
  by (auto simp: run_cycle_def Let_def split: prod.splits option.splits sum.splits dest!: leader_phase_config process_phase_config)

lemma sidecar_loop_config:
  assumes "sidecar_loop ord ops ipc acts ci start n cy e = Some (e', cy')"
  shows "flt_config (cy_fleet cy') = flt_config (cy_fleet cy)"
proof -
  have "case (e', cy') of (e', cy') \<Rightarrow> flt_config (cy_fleet cy') = flt_config (cy_fleet cy)"
  proof (rule sidecar_loop.raw_induct [OF _ assms, where P = "\<lambda>ord ops ipc acts ci start n cy e y.
        case y of (e', cy') \<Rightarrow> flt_config (cy_fleet cy') = flt_config (cy_fleet cy)"], goal_cases)
    case (1 loop ord ops ipc acts ci start n cy e y)
    then show ?case
      by (auto simp: Let_def split: if_splits prod.splits option.splits dest!: run_cycle_config)
  qed
  then show ?thesis by simp
qed

subsection \<open>The handoff\<close>

text \<open>The calls of a handoff, logged next to the environment.\<close>

datatype handoff_event = HListed | HNotified ShardId | HSlept u64 | HReleased

definition traced_handoff :: "'e LeaseHandoff \<Rightarrow> ('e \<times> handoff_event list) LeaseHandoff" where
  "traced_handoff H =
     \<lparr>list_owned = (\<lambda>(e, l). map_option (\<lambda>(e', r). ((e', l @ [HListed]), r)) (list_owned H e)),
      release_all_owned = (\<lambda>(e, l). map_option (\<lambda>(e', r). ((e', l @ [HReleased]), r)) (release_all_owned H e))\<rparr>"

definition traced_notify :: "('e \<Rightarrow> ShardId \<Rightarrow> 'e) \<Rightarrow> 'e \<times> handoff_event list \<Rightarrow> ShardId \<Rightarrow> 'e \<times> handoff_event list" where
  "traced_notify notify = (\<lambda>(e, l) sh. (notify e sh, l @ [HNotified sh]))"

definition traced_sleep :: "('e \<Rightarrow> u64 \<Rightarrow> 'e) \<Rightarrow> 'e \<times> handoff_event list \<Rightarrow> u64 \<Rightarrow> 'e \<times> handoff_event list" where
  "traced_sleep sleep = (\<lambda>(e, l) ms. (sleep e ms, l @ [HSlept ms]))"

lemma fold_traced_notify:
  "snd (fold (\<lambda>sh e. traced_notify notify e sh) shards (e, l)) = l @ map HNotified shards"
  by (induction shards arbitrary: e l) (simp_all add: traced_notify_def)

lemma release_owned_trace:
  assumes r: "release_owned (traced_ops ops) fleet E = Some (E', fleet', res)"
    and d: "\<forall>e e' rows. l_list (f_leases ops) e = Some (e', Inr rows) \<longrightarrow> distinct (map rl_key rows)"
  shows "flt_config fleet' = flt_config fleet \<and>
    ((\<exists>err. snd E' = snd E @ [EvList (Inl err)]) \<or>
     (\<exists>rows segs. snd E' = snd E @ EvList (Inr rows) # concat (map snd segs) \<and>
        list_all2 (\<lambda>r (ok, seg). release_segment (pending_of (flt_ckpt_defer fleet) (rl_key r)) (fc_owner (flt_config fleet)) r ok seg)
          (filter (is_owned (fc_owner (flt_config fleet))) rows) segs \<and>
        (\<forall>r \<in> set rows. is_owned (fc_owner (flt_config fleet)) r \<longrightarrow> pending_of (flt_ckpt_defer fleet') (rl_key r) = None)))"
proof -
  obtain e1 lr where l: "l_list (f_leases ops) (fst E) = Some (e1, lr)"
    using r by (auto simp: release_owned_def traced_ops_def traced_leases_def split: option.splits)
  then have t: "l_list (f_leases (traced_ops ops)) E = Some ((e1, snd E @ [EvList lr]), lr)"
    by (simp add: traced_ops_def traced_leases_def)
  show ?thesis
  proof (cases lr)
    case (Inl err)
    with r t show ?thesis by (auto simp: release_owned_def)
  next
    case (Inr rows)
    obtain E2 defer2 m where s: "release_rows (traced_ops ops) (fc_owner (flt_config fleet)) rows 0 (flt_ckpt_defer fleet)
        (e1, snd E @ [EvList (Inr rows)]) = (E2, defer2, m)" by (metis prod_cases3)
    with r t Inr have "E' = E2" "fleet' = fleet\<lparr>flt_ckpt_defer := defer2\<rparr>" by (auto simp: release_owned_def)
    with release_rows_trace [OF s] d l Inr show ?thesis by auto
  qed
qed

text \<open>The connection carried along a trace of calls.\<close>

definition carried_ipc :: "'e SidecarIpc \<Rightarrow> 'e traced SidecarIpc" where
  "carried_ipc ipc =
     \<lparr>si_is_stopped = si_is_stopped ipc \<circ> fst,
      si_wait = (\<lambda>E ms. let (e', b) = si_wait ipc (fst E) ms in ((e', snd E), b)),
      si_notify_shutdown = (\<lambda>E sh. untraced (\<lambda>e. si_notify_shutdown ipc e sh) E),
      si_shutdown = (\<lambda>E reason. untraced (\<lambda>e. si_shutdown ipc e reason) E),
      si_sleep = (\<lambda>E ms. untraced (\<lambda>e. si_sleep ipc e ms) E)\<rparr>"

lemma fleet_handoff_releases:
  assumes "graceful_handoff (fleet_handoff ops) notify sleep ms s = Some (e', fleet')"
    and "\<And>e f sh. snd (notify (e, f) sh) = f" and "\<And>e f. snd (sleep (e, f) ms) = f"
  shows "\<exists>e2 res. release_owned ops (snd s) e2 = Some (e', fleet', res)"
proof -
  have n: "snd (fold (\<lambda>sh s. notify s sh) shards s) = snd s" for shards s
    by (induction shards arbitrary: s) (simp_all, metis assms(2) prod.collapse)
  obtain s1 r where l: "list_owned (fleet_handoff ops) s = Some (s1, r)" "snd s1 = snd s"
    using assms(1) by (cases s) (auto simp: graceful_handoff_def fleet_handoff_def split: option.splits)
  define s2 where "s2 = (case r of
      Inr owned \<Rightarrow> if owned \<noteq> [] then sleep (fold (\<lambda>sh e. notify e sh) owned s1) ms else s1 | Inl _ \<Rightarrow> s1)"
  have "snd s2 = snd s" using n l(2) assms(3) by (simp add: s2_def split: sum.splits) (metis prod.collapse)
  moreover have "map_option fst (release_all_owned (fleet_handoff ops) s2) = Some (e', fleet')"
    using assms(1) l(1) by (simp add: graceful_handoff_def s2_def)
  ultimately show ?thesis by (cases s2) (auto simp: fleet_handoff_def)
qed

subsection \<open>The configuration\<close>

lemma at_least_one_nz [simp]: "at_least_one n \<noteq> Some 0" "map_option unat (at_least_one n) \<noteq> Some 0"
  by (auto simp: at_least_one_def word_le_nat_alt split: option.splits if_splits)

lemma config_from_env_fields:
  assumes "config_from_env env pid = Inr cfg"
  shows "config_initial_position env = Inr (cfg_initial_position cfg)"
    and "env ''DDB_STREAMS_CONSUMER_STREAM_ARN'' = Some (cfg_stream_arn cfg)"
    and "env ''DDB_STREAMS_CONSUMER_LEASE_TABLE'' = Some (cfg_lease_table cfg)"
    and "cfg_lease_duration_ms cfg = opt_u64 env ''DDB_STREAMS_CONSUMER_LEASE_DURATION_MS'' 10000"
    and "cfg_max_processing_concurrency cfg =
      map_option unat (at_least_one (Option.bind (env ''DDB_STREAMS_CONSUMER_MAX_PROCESSING_CONCURRENCY'') parse_u64))"
    and "cfg_checkpoint_interval_ms cfg = at_least_one (Option.bind (env ''DDB_STREAMS_CONSUMER_CHECKPOINT_INTERVAL_MS'') parse_u64)"
  using assms by (auto simp: config_from_env_def req_def split: sum.splits option.splits)

lemma config_from_env_missing:
  assumes "config_from_env env pid = Inl err" and "config_initial_position env = Inr pos"
  shows "env ''DDB_STREAMS_CONSUMER_STREAM_ARN'' = None \<and> err = ''missing required env var '' @ ''DDB_STREAMS_CONSUMER_STREAM_ARN'' \<or>
    env ''DDB_STREAMS_CONSUMER_STREAM_ARN'' \<noteq> None \<and> env ''DDB_STREAMS_CONSUMER_LEASE_TABLE'' = None \<and>
      err = ''missing required env var '' @ ''DDB_STREAMS_CONSUMER_LEASE_TABLE''"
  using assms
  by (cases "env ''DDB_STREAMS_CONSUMER_STREAM_ARN''"; cases "env ''DDB_STREAMS_CONSUMER_LEASE_TABLE''")
    (simp_all add: config_from_env_def req_def)

lemma sidecar_fleet_limits:
  "cfg_max_processing_concurrency cfg \<noteq> Some 0 \<Longrightarrow>
     flt_processing_limit (snd (sidecar_fleet src leases factory rt cfg)) = cfg_max_processing_concurrency cfg"
  "cfg_checkpoint_interval_ms cfg \<noteq> Some 0 \<Longrightarrow>
     map_option defer_interval (flt_ckpt_defer (snd (sidecar_fleet src leases factory rt cfg))) =
       map_option from_millis (cfg_checkpoint_interval_ms cfg)"
  by (auto simp: sidecar_fleet_def fleet_new_def with_checkpoint_interval_def with_max_processing_concurrency_def
      word_le_nat_alt unat_eq_zero Suc_le_eq split: option.splits)

section \<open>Properties\<close>



text \<open>
  C22 (safety). The order of a graceful handoff, for any leases, notifier and timeout: each owned
  shard is notified once, in the order of the lookup; then, if there was one, the whole window is
  waited; and only then, exactly once, the leases are released. When the lookup fails nothing is
  notified and the leases are still released. The handoff returns whenever lookup and release do.
\<close>

theorem handoff_notifies_before_release:
  assumes "list_owned H e = Some (e1, r)" and "\<And>e. release_all_owned H e \<noteq> None"
  shows "\<exists>e'. graceful_handoff (traced_handoff H) (traced_notify notify) (traced_sleep sleep) ms (e, []) =
    Some (e', HListed # (case r of Inr owned \<Rightarrow> map HNotified owned @ (if owned = [] then [] else [HSlept ms]) | Inl _ \<Rightarrow> []) @ [HReleased])"
proof -
  have rel: "\<exists>e'. map_option fst (release_all_owned (traced_handoff H) s) = Some (e', snd s @ [HReleased])" for s
    using assms(2) [of "fst s"] by (cases s) (auto simp: traced_handoff_def)
  have sl: "snd (traced_sleep sleep s ms) = snd s @ [HSlept ms]" for s by (cases s) (simp add: traced_sleep_def)
  have l: "list_owned (traced_handoff H) (e, []) = Some ((e1, [HListed]), r)" using assms(1) by (simp add: traced_handoff_def)
  define s2 where "s2 = (case r of
      Inr owned \<Rightarrow> if owned \<noteq> [] then traced_sleep sleep (fold (\<lambda>sh e. traced_notify notify e sh) owned (e1, [HListed])) ms
        else (e1, [HListed]) | Inl _ \<Rightarrow> (e1, [HListed]))"
  have "snd s2 = HListed # (case r of Inr owned \<Rightarrow> map HNotified owned @ (if owned = [] then [] else [HSlept ms]) | Inl _ \<Rightarrow> [])"
    by (simp add: s2_def sl fold_traced_notify split: sum.splits)
  with rel [of s2] show ?thesis by (simp add: graceful_handoff_def l s2_def [symmetric])
qed

theorem handoff_notifies_before_release_witness:
  "\<exists>e'. graceful_handoff (traced_handoff \<lparr>list_owned = (\<lambda>e :: nat. Some (e, Inr [''a'', ''b''])), release_all_owned = (\<lambda>e. Some (e, Inr 2))\<rparr>)
     (traced_notify (\<lambda>e sh. e + 1)) (traced_sleep (\<lambda>e ms. e)) 5000 (0, []) =
   Some (e', [HListed, HNotified ''a'', HNotified ''b'', HSlept 5000, HReleased])"
  using handoff_notifies_before_release
    [of "\<lparr>list_owned = (\<lambda>e :: nat. Some (e, Inr [''a'', ''b''])), release_all_owned = (\<lambda>e. Some (e, Inr 2))\<rparr>" 0 0 "Inr [''a'', ''b'']"]
  by simp

text \<open>
  C21 (safety). The sidecar never exits without handing off: whatever ended its coordination loop (a
  stop, a signal, or the completion of all shards, after any number of failed cycles), its last
  calls on the lease table are one scan and, for each lease the scan shows held by this worker and
  not completed, in scan order, the flush of the pending acknowledgement and the release; nothing
  is left pending for them. Only when that scan fails is nothing released.
\<close>

theorem sidecar_releases_at_end:
  assumes "sidecar_run ord (carried_ipc ipc) acts cfg (traced_ops ops, fleet) (e, []) = Some ((e', tr), fleet')"
    and "\<forall>e e' rows. l_list (f_leases ops) e = Some (e', Inr rows) \<longrightarrow> distinct (map rl_key rows)"
  shows "\<exists>xs. (\<exists>err. tr = xs @ [EvList (Inl err)]) \<or>
    (\<exists>rows segs defer. tr = xs @ EvList (Inr rows) # concat (map snd segs) \<and>
      list_all2 (\<lambda>r (ok, seg). release_segment (pending_of defer (rl_key r)) (fc_owner (flt_config fleet)) r ok seg)
        (filter (is_owned (fc_owner (flt_config fleet))) rows) segs \<and>
      (\<forall>r \<in> set rows. is_owned (fc_owner (flt_config fleet)) r \<longrightarrow> pending_of (flt_ckpt_defer fleet') (rl_key r) = None))"
proof -
  let ?cy = "\<lparr>cy_coord = coordinator_new (cfg_owner cfg) (cfg_max_leases cfg) (cfg_lease_duration_ms cfg),
     cy_ld = leadership_new (cfg_owner cfg) (cfg_lease_duration_ms cfg), cy_fleet = fleet\<rparr>"
  obtain E0 start where s: "rt_now (f_runtime (traced_ops ops)) (e, []) = (E0, start)" by fastforce
  with assms(1) obtain E1 cy1 where l: "sidecar_loop ord (traced_ops ops) (carried_ipc ipc) acts (cfg_cycle_interval_ms cfg) start 0 ?cy E0 = Some (E1, cy1)"
    by (auto simp: sidecar_run_def Let_def split: option.splits)
  from assms(1) s l obtain E2 where h: "graceful_handoff (fleet_handoff (traced_ops ops))
        (\<lambda>(e, fleet) shard. (si_notify_shutdown (carried_ipc ipc) e shard, fleet))
        (\<lambda>(e, fleet) ms. (si_sleep (carried_ipc ipc) e ms, fleet)) (cfg_graceful_shutdown_timeout_ms cfg) (E1, cy_fleet cy1) = Some (E2, fleet')"
      and E2: "(e', tr) = si_shutdown (carried_ipc ipc) E2 ''sidecar stopping''"
    by (auto simp: sidecar_run_def Let_def)
  have c: "flt_config (cy_fleet cy1) = flt_config fleet" using sidecar_loop_config [OF l] by simp
  from fleet_handoff_releases [OF h] obtain E3 res where r: "release_owned (traced_ops ops) (cy_fleet cy1) E3 = Some (E2, fleet', res)"
    by auto
  have "tr = snd E2" using E2 by (simp add: carried_ipc_def untraced_def)
  with release_owned_trace [OF r assms(2)] show ?thesis unfolding c by blast
qed

text \<open>A sidecar that is stopped before its first cycle, holding a shard with a pending acknowledgement.\<close>

definition stopped_ipc :: "FakeEnv SidecarIpc" where
  "stopped_ipc =
     \<lparr>si_is_stopped = (\<lambda>e. True), si_wait = (\<lambda>e ms. (e, True)), si_notify_shutdown = (\<lambda>e sh. push_event (''stop:'' @ sh) e),
      si_shutdown = (\<lambda>e reason. e), si_sleep = (\<lambda>e ms. e)\<rparr>"

definition stopped_config :: Config where
  "stopped_config =
     \<lparr>cfg_stream_arn = ''arn'', cfg_lease_table = ''t'', cfg_owner = ''w1'', cfg_max_leases = 100, cfg_lease_duration_ms = 10000,
      cfg_poll_interval_ms = 1000, cfg_cycle_interval_ms = 1000, cfg_initial_position = InitTrimHorizon,
      cfg_graceful_shutdown_timeout_ms = 5000, cfg_max_records = None, cfg_max_processing_concurrency = None,
      cfg_checkpoint_interval_ms = None, cfg_lease_table_config = lease_table_config_default\<rparr>"

definition stopped_row :: RawLease where
  "stopped_row = fake_raw (''s'', fake_lease_default\<lparr>fl_owner := Some ''w1'', fl_counter := 3\<rparr>)"

definition stopped_ops :: "FakeEnv fleet_ops" where
  "stopped_ops = fake_ops\<lparr>f_leases := fake_leases\<lparr>l_list := (\<lambda>e. Some (e, Inr [stopped_row]))\<rparr>\<rparr>"

lemma stopped_run:
  "map_option (snd \<circ> fst) (sidecar_run id (carried_ipc stopped_ipc) (\<lambda>_. []) stopped_config (traced_ops stopped_ops, pending_fleet) (fake_env, [])) =
     Some [EvList (Inr [stopped_row]), EvList (Inr [stopped_row]), EvCheckpoint ''s'' ''w1'' 3 ''12'' (Inr 4), EvRelease ''s'' ''w1'' 4 (Inr ())]"
  by (simp only: sidecar_run_def prod.case Let_def, subst sidecar_loop.simps, code_simp)

theorem sidecar_releases_at_end_witness:
  "\<exists>e' tr fleet' xs segs defer.
     sidecar_run id (carried_ipc stopped_ipc) (\<lambda>_. []) stopped_config (traced_ops stopped_ops, pending_fleet) (fake_env, []) = Some ((e', tr), fleet') \<and>
     tr = xs @ EvList (Inr [stopped_row]) # concat (map snd segs) \<and>
     list_all2 (\<lambda>r (ok, seg). release_segment (pending_of defer (rl_key r)) ''w1'' r ok seg) [stopped_row] segs"
proof -
  obtain e' tr fleet' where r: "sidecar_run id (carried_ipc stopped_ipc) (\<lambda>_. []) stopped_config (traced_ops stopped_ops, pending_fleet) (fake_env, []) = Some ((e', tr), fleet')"
    and tr: "tr = [EvList (Inr [stopped_row]), EvList (Inr [stopped_row]), EvCheckpoint ''s'' ''w1'' 3 ''12'' (Inr 4), EvRelease ''s'' ''w1'' 4 (Inr ())]"
    using stopped_run by auto
  have d: "\<forall>e e' rows. l_list (f_leases stopped_ops) e = Some (e', Inr rows) \<longrightarrow> distinct (map rl_key rows)"
    by (simp add: stopped_ops_def)
  have ow: "fc_owner (flt_config pending_fleet) = ''w1''" by (simp add: pending_fleet_def fresh_fleet_def)
  have row: "is_owned ''w1'' stopped_row" by (simp add: is_owned_def stopped_row_def fake_raw_def fake_lease_default_def)
  have no: "tr \<noteq> xs @ [EvList x]" for xs x by (simp add: tr)
  have rows: "rows = [stopped_row]" if "tr = xs @ EvList (Inr rows) # ys" for xs rows ys
    using that by (auto simp: tr Cons_eq_append_conv)
  from sidecar_releases_at_end [OF r d] no obtain xs rows segs "defer" where c: "tr = xs @ EvList (Inr rows) # concat (map snd segs)"
    "list_all2 (\<lambda>r (ok, seg). release_segment (pending_of defer (rl_key r)) ''w1'' r ok seg) (filter (is_owned ''w1'') rows) segs"
    unfolding ow by blast
  from rows [OF c(1)] c row r show ?thesis by auto
qed

end
