(* ===== verification/Rust_Client.thy ===== *)
theory Rust_Client
  imports Worker_Aws Source_Aws Sidecar
begin

text \<open>
  The Rust client (\<open>clients/rust/src/lib.rs\<close>): the adapter between the processor of an
  application and the core, the worker builder, and the worker's loop. The views of a record are
  in \<open>Change_Record\<close>. The SDK clients the builder resolves are parameters: the source for an ARN,
  and the client and the sleep of the lease store.
\<close>

section \<open>Processors\<close>

record 'e ClientProcessor =
  kp_process_records :: "'e \<Rightarrow> ClientRecord list \<Rightarrow> 'e"
  kp_initialize :: "'e \<Rightarrow> ShardId \<Rightarrow> 'e"
  kp_shard_ended :: "'e \<Rightarrow> ShardId \<Rightarrow> 'e"
  kp_lease_lost :: "'e \<Rightarrow> ShardId \<Rightarrow> 'e"

record 'e ClientProcessorFactory =
  kf_create :: "'e \<Rightarrow> ShardId \<Rightarrow> 'e"
  kf_processor :: "ShardId \<Rightarrow> 'e ClientProcessor"

definition adapter :: "payload_codec \<Rightarrow> RecordFormat \<Rightarrow> 'e ClientProcessor \<Rightarrow> 'e RecordProcessor" where
  "adapter pc format inner =
     \<lparr>p_initialize = kp_initialize inner,
      p_process_records = (\<lambda>e records. kp_process_records inner e (map (\<lambda>r. decode_record pc r format) records)),
      p_shard_ended = kp_shard_ended inner,
      p_lease_lost = kp_lease_lost inner\<rparr>"

definition factory_adapter :: "payload_codec \<Rightarrow> RecordFormat \<Rightarrow> 'e ClientProcessorFactory \<Rightarrow> 'e RecordProcessorFactory" where
  "factory_adapter pc format inner =
     \<lparr>pf_create = kf_create inner, pf_processor = (\<lambda>shard. adapter pc format (kf_processor inner shard))\<rparr>"

section \<open>The builder\<close>

record 'e WorkerBuilder =
  wb_stream_arn :: "string option"
  wb_lease_table :: "string option"
  wb_region :: "string option"
  wb_owner :: "string option"
  wb_record_format :: RecordFormat
  wb_max_leases :: nat
  wb_lease_duration_ms :: u64
  wb_poll_interval_ms :: u64
  wb_initial_position :: InitialPosition
  wb_processor :: "'e ClientProcessorFactory option"
  wb_max_processing_concurrency :: "nat option"
  wb_checkpoint_interval_ms :: "u64 option"

definition worker_builder :: "'e WorkerBuilder" where
  "worker_builder =
     \<lparr>wb_stream_arn = None, wb_lease_table = None, wb_region = None, wb_owner = None, wb_record_format = Native,
      wb_max_leases = 100, wb_lease_duration_ms = 60000, wb_poll_interval_ms = 1000,
      wb_initial_position = initial_position_default, wb_processor = None, wb_max_processing_concurrency = None,
      wb_checkpoint_interval_ms = None\<rparr>"

definition set_stream_arn :: "string \<Rightarrow> 'e WorkerBuilder \<Rightarrow> 'e WorkerBuilder" where
  "set_stream_arn arn b = b\<lparr>wb_stream_arn := Some arn\<rparr>"

definition set_lease_table :: "string \<Rightarrow> 'e WorkerBuilder \<Rightarrow> 'e WorkerBuilder" where
  "set_lease_table name b = b\<lparr>wb_lease_table := Some name\<rparr>"

definition set_region :: "string \<Rightarrow> 'e WorkerBuilder \<Rightarrow> 'e WorkerBuilder" where
  "set_region region b = b\<lparr>wb_region := Some region\<rparr>"

definition set_owner :: "string \<Rightarrow> 'e WorkerBuilder \<Rightarrow> 'e WorkerBuilder" where
  "set_owner owner b = b\<lparr>wb_owner := Some owner\<rparr>"

definition set_record_format :: "RecordFormat \<Rightarrow> 'e WorkerBuilder \<Rightarrow> 'e WorkerBuilder" where
  "set_record_format fmt b = b\<lparr>wb_record_format := fmt\<rparr>"

definition set_max_leases :: "nat \<Rightarrow> 'e WorkerBuilder \<Rightarrow> 'e WorkerBuilder" where
  "set_max_leases n b = b\<lparr>wb_max_leases := n\<rparr>"

definition set_lease_duration_ms :: "u64 \<Rightarrow> 'e WorkerBuilder \<Rightarrow> 'e WorkerBuilder" where
  "set_lease_duration_ms ms b = b\<lparr>wb_lease_duration_ms := ms\<rparr>"

definition set_poll_interval_ms :: "u64 \<Rightarrow> 'e WorkerBuilder \<Rightarrow> 'e WorkerBuilder" where
  "set_poll_interval_ms ms b = b\<lparr>wb_poll_interval_ms := ms\<rparr>"

definition set_initial_position :: "InitialPosition \<Rightarrow> 'e WorkerBuilder \<Rightarrow> 'e WorkerBuilder" where
  "set_initial_position position b = b\<lparr>wb_initial_position := position\<rparr>"

definition set_processor :: "'e ClientProcessorFactory \<Rightarrow> 'e WorkerBuilder \<Rightarrow> 'e WorkerBuilder" where
  "set_processor factory b = b\<lparr>wb_processor := Some factory\<rparr>"

definition set_max_concurrency :: "nat \<Rightarrow> 'e WorkerBuilder \<Rightarrow> 'e WorkerBuilder" where
  "set_max_concurrency k b = b\<lparr>wb_max_processing_concurrency := Some k\<rparr>"

definition set_checkpoint_interval_ms :: "u64 \<Rightarrow> 'e WorkerBuilder \<Rightarrow> 'e WorkerBuilder" where
  "set_checkpoint_interval_ms ms b = b\<lparr>wb_checkpoint_interval_ms := Some ms\<rparr>"

definition default_owner :: "env_vars \<Rightarrow> nat \<Rightarrow> string" where
  "default_owner env pid = (case env ''HOSTNAME'' of Some h \<Rightarrow> h | None \<Rightarrow> ''host'') @ ''-'' @ nat_to_string pid"

record 'e ClientWorker =
  wk_ops :: "'e fleet_ops"
  wk_fleet :: Fleet
  wk_owner :: string
  wk_lease_duration_ms :: u64
  wk_max_leases :: nat
  wk_poll_interval_ms :: u64

text \<open>
  What \<open>build\<close> gets from outside: the source of a stream and the lease store of a table, in the
  region asked for, the codec, the runtime, and the process.
\<close>

record 'e ClientDeps =
  cd_source :: "string option \<Rightarrow> string \<Rightarrow> 'e AsyncStreamSource"
  cd_ddb :: "string option \<Rightarrow> 'e \<Rightarrow> ddb_request \<Rightarrow> 'e \<times> (ddb_error + ddb_output)"
  cd_sleep :: "'e \<Rightarrow> u64 \<Rightarrow> 'e"
  cd_codec :: payload_codec
  cd_runtime :: "'e Runtime"
  cd_env :: env_vars
  cd_pid :: nat

definition make_worker :: "'e ClientDeps \<Rightarrow> 'e WorkerBuilder \<Rightarrow> string \<Rightarrow> 'e DynamoDbLeaseStore \<Rightarrow> 'e ClientProcessorFactory \<Rightarrow> 'e ClientWorker" where
  "make_worker deps b stream_arn leases processor =
     (let owner = (case wb_owner b of Some ow \<Rightarrow> ow | None \<Rightarrow> default_owner (cd_env deps) (cd_pid deps));
          (ops, fleet) = fleet_new (cd_source deps (wb_region b) stream_arn) (aws_leases leases)
            (sync_consumer_factory (factory_adapter (cd_codec deps) (wb_record_format b) processor)) (cd_runtime deps)
            \<lparr>fc_owner = owner, fc_max_leases = wb_max_leases b, fc_lease_duration_ms = wb_lease_duration_ms b,
             fc_poll_interval_ms = wb_poll_interval_ms b, fc_initial_position = wb_initial_position b\<rparr>
      in \<lparr>wk_ops = ops,
          wk_fleet = with_checkpoint_interval (wb_checkpoint_interval_ms b)
            (with_max_processing_concurrency (wb_max_processing_concurrency b) fleet),
          wk_owner = owner, wk_lease_duration_ms = wb_lease_duration_ms b, wk_max_leases = wb_max_leases b,
          wk_poll_interval_ms = wb_poll_interval_ms b\<rparr>)"

definition worker_build :: "'e ClientDeps \<Rightarrow> 'e WorkerBuilder \<Rightarrow> 'e \<Rightarrow> ('e \<times> (string + 'e ClientWorker)) option" where
  "worker_build deps b e =
     (case wb_stream_arn b of
        None \<Rightarrow> Some (e, Inl ''stream_arn is required'')
      | Some stream_arn \<Rightarrow>
          (case wb_lease_table b of
             None \<Rightarrow> Some (e, Inl ''lease_table is required'')
           | Some lease_table \<Rightarrow>
               (case wb_processor b of
                  None \<Rightarrow> Some (e, Inl ''processor is required'')
                | Some processor \<Rightarrow>
                    (let leases = lease_store_new (cd_ddb deps (wb_region b)) (cd_sleep deps) lease_table in
                     case ensure_table leases e of
                       None \<Rightarrow> None
                     | Some (e1, Inl err) \<Rightarrow> Some (e1, Inl err)
                     | Some (e1, Inr _) \<Rightarrow> Some (e1, Inr (make_worker deps b stream_arn leases processor))))))"

section \<open>The loop\<close>

text \<open>\<open>stop\<close> reads the flag that \<open>StopHandle::stop\<close> sets from another task.\<close>

partial_function (option) client_loop ::
  "(string list \<Rightarrow> string list) \<Rightarrow> 'e fleet_ops \<Rightarrow> ('e \<Rightarrow> bool) \<Rightarrow> (nat \<Rightarrow> pool_act list) \<Rightarrow> u64 \<Rightarrow> Instant \<Rightarrow> nat \<Rightarrow>
   cycle_state \<Rightarrow> 'e \<Rightarrow> ('e \<times> cycle_state \<times> (WorkerError + unit)) option" where
  "client_loop ord ops stop acts poll start n cy e =
     (if stop e then Some (e, cy, Inr ())
      else let (e1, now) = rt_now (f_runtime ops) e in
        case run_cycle ord ops (acts n) (as_millis (now - start)) cy e1 of
          None \<Rightarrow> None
        | Some (e2, cy2, Inl err) \<Rightarrow> Some (e2, cy2, Inl err)
        | Some (e2, cy2, Inr complete) \<Rightarrow>
            if complete then Some (e2, cy2, Inr ())
            else client_loop ord ops stop acts poll start (Suc n) cy2 (rt_wait (f_runtime ops) e2 (from_millis poll)))"

definition client_worker_run ::
  "(string list \<Rightarrow> string list) \<Rightarrow> ('e \<Rightarrow> bool) \<Rightarrow> (nat \<Rightarrow> pool_act list) \<Rightarrow> 'e ClientWorker \<Rightarrow> 'e \<Rightarrow>
   ('e \<times> Fleet \<times> (WorkerError + unit)) option" where
  "client_worker_run ord stop acts w e =
     (let ops = wk_ops w;
          cy = \<lparr>cy_coord = coordinator_new (wk_owner w) (wk_max_leases w) (wk_lease_duration_ms w),
                cy_ld = leadership_new (wk_owner w) (wk_lease_duration_ms w), cy_fleet = wk_fleet w\<rparr>;
          (e0, start) = rt_now (f_runtime ops) e
      in case client_loop ord ops stop acts (wk_poll_interval_ms w) start 0 cy e0 of
           None \<Rightarrow> None
         | Some (e1, cy1, Inl err) \<Rightarrow> Some (e1, cy_fleet cy1, Inl err)
         | Some (e1, cy1, Inr _) \<Rightarrow>
             if stop e1
             then (case release_owned ops (cy_fleet cy1) e1 of
                     None \<Rightarrow> None
                   | Some (e2, fleet2, _) \<Rightarrow> Some (e2, fleet2, Inr ()))
             else Some (e1, cy_fleet cy1, Inr ()))"

section \<open>Properties\<close>

text \<open>The record of the client for a record of the stream.\<close>

definition client_view :: "RecordFormat \<Rightarrow> ShardId \<Rightarrow> SdkRecord \<Rightarrow> ClientRecord" where
  "client_view fmt sh r =
     (let sr = from_sdk r in
      \<lparr>cr_shard_id = sh, cr_sequence_number = rseq r, cr_event_name = sr_event_name sr, cr_stream_view_type = sr_stream_view_type sr,
       cr_keys = sr_keys sr, cr_new_image = sr_new_image sr, cr_old_image = sr_old_image sr, cr_format = fmt\<rparr>)"

lemma rseq_from_sdk: "rseq r \<noteq> [] \<Longrightarrow> sr_sequence_number (from_sdk r) = Some (rseq r)"
  by (auto simp: rseq_def seq_of_def from_sdk_def Let_def split: option.splits)

lemma decode_core_record:
  "pc_decode pc (pc_encode pc (from_sdk r)) = Inr (from_sdk r) \<Longrightarrow> rseq r \<noteq> [] \<Longrightarrow>
   decode_record pc (core_record pc sh r) fmt = client_view fmt sh r"
  by (simp add: decode_record_def core_record_def client_view_def rseq_from_sdk Let_def)

lemma adapter_deliver:
  "c_deliver (sync_consumer_factory (factory_adapter pc fmt kf)) e sh records =
     (kp_process_records (kf_processor kf sh) e (map (\<lambda>r. decode_record pc r fmt) records),
      Inr (if records = [] then None else Some (rec_seq (last records))))"
  by (simp add: sync_consumer_factory_def sync_deliver_def factory_adapter_def adapter_def)



text \<open>
  A worker of the client ends with the first cycle that fails, also on a transient error of the
  lease table, and then releases nothing; the sidecar goes on to its next cycle.
\<close>

lemma client_run_ends_at_error:
  assumes "rt_now (f_runtime (wk_ops w)) e = (e0, start)" and "\<not> stop e0" and "rt_now (f_runtime (wk_ops w)) e0 = (e1, now)"
    and "l_list (f_leases (wk_ops w)) e1 = Some (e2, Inl err)"
  shows "client_worker_run ord stop acts w e = Some (e2, wk_fleet w, Inl err)"
    and "sidecar_loop ord (wk_ops w) ipc acts ci start 0 cy e0 \<noteq> None \<Longrightarrow> \<not> si_is_stopped ipc e0 \<Longrightarrow>
      sidecar_loop ord (wk_ops w) ipc acts ci start 0 cy e0 =
        (let (e3, stopped) = si_wait ipc e2 ci in
         if stopped then Some (e3, cy) else sidecar_loop ord (wk_ops w) ipc acts ci start (Suc 0) cy e3)"
  using assms
  by (simp add: client_worker_run_def, subst client_loop.simps, simp add: run_cycle_def)
    (subst sidecar_loop.simps, use assms in \<open>simp add: run_cycle_def\<close>)

end
