(* ===== verification/Stop_Signal.thy ===== *)
theory Stop_Signal
  imports Sidecar
begin

text \<open>
  How a stop reaches the main loop of the sidecar: \<open>Ipc::signal_stop\<close> and \<open>Ipc::stopped\<close> of
  \<open>sidecar/src/ipc.rs\<close> step by step, under the loop of \<open>sidecar/src/main.rs\<close>. The signal is a store of the flag
  followed by \<open>notify_waiters\<close>, which wakes those that wait and leaves nothing for later ones; the wait is
  a load of the flag followed by the creation of the waiter. Any number of tasks may signal (the
  reader, the handler of Ctrl-C), on threads of their own.

  Shown: once the flag is stored no further cycle begins, and the loop is left after a bounded number of its
  steps; it is left for a stop only if one was signalled. A signal that falls between load and
  creation wakes nobody: then the timer of the loop ends the wait. That a cycle returns is a matter of
  its deliveries (\<open>client_gone_strands_call\<close> of \<open>Sidecar_Ipc\<close>).
\<close>

section \<open>The machine\<close>

text \<open>Where the main task is: at the head of its loop, in a cycle, in the wait between cycles, or behind the loop.\<close>

datatype main_phase = LoopHead | InCycle | WaitCalled | WaitChecked | WaitNotified | LeftStopped | LeftComplete

datatype signal_phase = SigIdle | SigStored | SigDone

record StopState =
  st_ipc :: Ipc
  st_main :: main_phase
  st_cycles :: nat
  st_signals :: "nat \<Rightarrow> signal_phase"

definition stop_init :: StopState where
  "stop_init = \<lparr>st_ipc = ipc_new, st_main = LoopHead, st_cycles = 0, st_signals = (\<lambda>_. SigIdle)\<rparr>"

definition loop_head :: "StopState \<Rightarrow> StopState" where
  "loop_head s = (if is_stopped (st_ipc s) then s\<lparr>st_main := LeftStopped\<rparr> else s\<lparr>st_main := InCycle, st_cycles := Suc (st_cycles s)\<rparr>)"

definition stopped_check :: "StopState \<Rightarrow> StopState" where
  "stopped_check s = s\<lparr>st_main := (if is_stopped (st_ipc s) then LeftStopped else WaitChecked)\<rparr>"

definition stopped_notified :: "StopState \<Rightarrow> StopState" where
  "stopped_notified s = s\<lparr>st_main := WaitNotified\<rparr>"

definition stop_store :: "nat \<Rightarrow> StopState \<Rightarrow> StopState" where
  "stop_store k s = s\<lparr>st_ipc := signal_stop (st_ipc s), st_signals := (st_signals s)(k := SigStored)\<rparr>"

definition notify_waiters :: "nat \<Rightarrow> StopState \<Rightarrow> StopState" where
  "notify_waiters k s =
     s\<lparr>st_main := (if st_main s = WaitNotified then LeftStopped else st_main s), st_signals := (st_signals s)(k := SigDone)\<rparr>"

text \<open>
  Steps of the main task and of the others. The timer of the \<open>select!\<close> may fire before the wait is
  first polled or while it waits; \<open>other\<close> is any step of the connection that does not touch the flag.
\<close>

inductive main_step :: "StopState \<Rightarrow> StopState \<Rightarrow> bool" where
  head: "st_main s = LoopHead \<Longrightarrow> main_step s (loop_head s)"
| again: "st_main s = InCycle \<Longrightarrow> main_step s (s\<lparr>st_main := WaitCalled\<rparr>)"
| complete: "st_main s = InCycle \<Longrightarrow> main_step s (s\<lparr>st_main := LeftComplete\<rparr>)"
| check: "st_main s = WaitCalled \<Longrightarrow> main_step s (stopped_check s)"
| notified: "st_main s = WaitChecked \<Longrightarrow> main_step s (stopped_notified s)"
| timer: "st_main s \<in> {WaitCalled, WaitNotified} \<Longrightarrow> main_step s (s\<lparr>st_main := LoopHead\<rparr>)"

inductive other_step :: "StopState \<Rightarrow> StopState \<Rightarrow> bool" where
  store: "st_signals s k = SigIdle \<Longrightarrow> other_step s (stop_store k s)"
| notify: "st_signals s k = SigStored \<Longrightarrow> other_step s (notify_waiters k s)"
| other: "is_stopped p = is_stopped (st_ipc s) \<Longrightarrow> other_step s (s\<lparr>st_ipc := p\<rparr>)"

inductive_simps other_step_simps: "other_step s s'"
inductive_cases main_stepE: "main_step s s'"
inductive_cases other_stepE: "other_step s s'"

text \<open>A run, with the number of steps of the main task.\<close>

inductive stop_run :: "StopState \<Rightarrow> nat \<Rightarrow> StopState \<Rightarrow> bool" where
  refl: "stop_run s 0 s"
| main: "stop_run s n t \<Longrightarrow> main_step t u \<Longrightarrow> stop_run s (Suc n) u"
| other: "stop_run s n t \<Longrightarrow> other_step t u \<Longrightarrow> stop_run s n u"

lemmas stop_defs = loop_head_def stopped_check_def stopped_notified_def stop_store_def notify_waiters_def is_stopped_def signal_stop_def

section \<open>Lemmas\<close>

text \<open>How many steps the main task has before it at most once the flag is stored.\<close>

fun steps_left :: "main_phase \<Rightarrow> nat" where
  "steps_left InCycle = 5"
| "steps_left WaitCalled = 4"
| "steps_left WaitChecked = 3"
| "steps_left WaitNotified = 2"
| "steps_left LoopHead = 1"
| "steps_left LeftStopped = 0"
| "steps_left LeftComplete = 0"

lemma main_step_stopped:
  assumes "main_step s s'" "is_stopped (st_ipc s)"
  shows "is_stopped (st_ipc s')" "st_cycles s' = st_cycles s" "steps_left (st_main s') < steps_left (st_main s)"
  using assms by (auto elim!: main_stepE simp: stop_defs)

lemma other_step_stopped:
  assumes "other_step s s'" "is_stopped (st_ipc s)"
  shows "is_stopped (st_ipc s')" "st_cycles s' = st_cycles s" "steps_left (st_main s') \<le> steps_left (st_main s)"
  using assms by (auto elim!: other_stepE simp: stop_defs)

text \<open>Once the flag is stored, no cycle begins, and a bounded number of steps of the main task is left.\<close>

lemma stop_ends_loop:
  assumes "stop_run s n s'" "is_stopped (st_ipc s)"
  shows "is_stopped (st_ipc s') \<and> st_cycles s' = st_cycles s \<and> n + steps_left (st_main s') \<le> steps_left (st_main s)"
  using assms
proof induction
  case (main s n t u)
  with main_step_stopped [OF main.hyps(2)] show ?case by fastforce
next
  case (other s n t u)
  with other_step_stopped [OF other.hyps(2)] show ?case by fastforce
qed simp

text \<open>The main task is never stuck before it has left the loop.\<close>

lemma main_not_stuck: "st_main s \<notin> {LeftStopped, LeftComplete} \<Longrightarrow> \<exists>s'. main_step s s'"
  by (cases "st_main s") (auto intro: main_step.intros)

text \<open>The loop is left for a stop only if some task stored the flag.\<close>

definition stop_inv :: "StopState \<Rightarrow> bool" where
  "stop_inv s \<longleftrightarrow> (is_stopped (st_ipc s) \<longleftrightarrow> (\<exists>k. st_signals s k \<noteq> SigIdle)) \<and> (st_main s = LeftStopped \<longrightarrow> is_stopped (st_ipc s))"

lemma main_step_inv: "main_step s s' \<Longrightarrow> stop_inv s \<Longrightarrow> stop_inv s'"
  by (auto elim!: main_stepE simp: stop_defs stop_inv_def)

lemma other_step_inv: "other_step s s' \<Longrightarrow> stop_inv s \<Longrightarrow> stop_inv s'"
  by (auto elim!: other_stepE simp: stop_defs stop_inv_def)

lemma stop_run_inv: "stop_run s n s' \<Longrightarrow> stop_inv s \<Longrightarrow> stop_inv s'"
  by (induction rule: stop_run.induct) (auto intro: main_step_inv other_step_inv)

lemma left_only_when_stopped:
  assumes "stop_run stop_init n s" "st_main s = LeftStopped"
  shows "is_stopped (st_ipc s) \<and> (\<exists>k. st_signals s k \<noteq> SigIdle)"
proof -
  have "stop_inv stop_init" by (simp add: stop_inv_def stop_init_def ipc_new_def is_stopped_def)
  from stop_run_inv [OF assms(1) this] assms(2) show ?thesis by (auto simp: stop_inv_def)
qed

text \<open>A notification reaches a wait that exists.\<close>

lemma notify_wakes: "st_main s = WaitNotified \<Longrightarrow> st_main (notify_waiters k s) = LeftStopped"
  by (simp add: notify_waiters_def)

text \<open>
  A signal between the load of the flag and the creation of the waiter is lost: the main task waits
  although the flag is stored and the signal complete, and of its own steps only the timer is left.
\<close>

definition lost_wakeup :: StopState where
  "lost_wakeup = stopped_notified (notify_waiters 0 (stop_store 0 (stopped_check (loop_head stop_init\<lparr>st_main := WaitCalled\<rparr>))))"

lemma wakeup_can_be_lost:
  "stop_run stop_init 4 lost_wakeup \<and> is_stopped (st_ipc lost_wakeup) \<and> st_main lost_wakeup = WaitNotified \<and>
    (\<forall>k. st_signals lost_wakeup k \<noteq> SigStored)"
proof (intro conjI)
  let ?s1 = "loop_head stop_init"
  let ?s2 = "?s1\<lparr>st_main := WaitCalled\<rparr>"
  let ?s3 = "stopped_check ?s2"
  let ?s4 = "stop_store 0 ?s3"
  have ph: "st_main stop_init = LoopHead" "st_main ?s1 = InCycle" "st_main ?s2 = WaitCalled" "st_signals ?s3 0 = SigIdle"
    "st_signals ?s4 0 = SigStored" "st_main (notify_waiters 0 ?s4) = WaitChecked"
    by (simp_all add: stop_defs stop_init_def ipc_new_def)
  note run = stop_run.main [OF stop_run.main [OF stop_run.main [OF stop_run.refl main_step.head [OF ph(1)]] main_step.again [OF ph(2)]]
    main_step.check [OF ph(3)]]
  note stop_run.main [OF stop_run.other [OF stop_run.other [OF run other_step.store [OF ph(4)]] other_step.notify [OF ph(5)]]
    main_step.notified [OF ph(6)]]
  then show "stop_run stop_init 4 lost_wakeup" by (simp add: lost_wakeup_def numeral_eq_Suc)
qed (simp_all add: lost_wakeup_def stop_defs stop_init_def ipc_new_def)

lemma waiting_needs_timer:
  assumes "main_step s s'" "st_main s = WaitNotified"
  shows "st_main s' = LoopHead"
  using assms by (auto elim!: main_stepE)

end
