(* ===== verification/Telemetry.thy ===== *)
theory Telemetry
  imports Source_Aws Sidecar
begin

text \<open>
  The OpenTelemetry sink of the sidecar (\<open>sidecar/src/otel.rs\<close>): its configuration from the
  environment, the instruments, the sink itself, the signing transport, and the lines of \<open>main\<close>
  that attach and flush it. The OpenTelemetry SDK, the URL parser, the HTTP client and the AWS
  signer are parameters: \<open>otel_sdk\<close>, \<open>meter_api\<close>, \<open>sigv4_api\<close>.

  Shown: what a shard task reports is what it did (\<open>metrics_count_deliveries\<close>), the sink never
  influences the task, the endpoint always names the metrics path, and a request that must be
  signed is sent signed or not at all.
\<close>

type_synonym KeyValues = "(string \<times> string) list"
type_synonym BoxError = string

section \<open>Configuration\<close>

definition ends_with :: "string \<Rightarrow> string \<Rightarrow> bool" where
  "ends_with p s \<longleftrightarrow> starts_with (rev p) (rev s)"

text \<open>\<open>trim_end_matches('/')\<close>.\<close>

definition trim_slashes :: "string \<Rightarrow> string" where
  "trim_slashes s = rev (dropWhile (\<lambda>c. c = CHR ''/'') (rev s))"

definition metrics_endpoint :: "string \<Rightarrow> string" where
  "metrics_endpoint endpoint =
     (if ends_with ''/v1/metrics'' endpoint then endpoint else trim_slashes endpoint @ ''/v1/metrics'')"

record 'c SigV4HttpClient =
  sv_creds :: "'c option"
  sv_region :: string
  sv_service :: string
  sv_sign :: bool

text \<open>
  What the SDKs provide: the host of a parsable URL, the ambient AWS configuration, the exporter,
  the default resource and its merge, whose second argument has priority.
\<close>

record ('c, 'x, 'r) otel_sdk =
  url_host :: "string \<Rightarrow> string option"
  aws_region :: "string option"
  aws_credentials :: "'c option"
  exporter_build :: "'c SigV4HttpClient \<Rightarrow> string \<Rightarrow> BoxError + 'x"
  resource_default :: 'r
  resource_merge :: "'r \<Rightarrow> KeyValues \<Rightarrow> 'r"

definition sign_sigv4 :: "('c, 'x, 'r) otel_sdk \<Rightarrow> string \<Rightarrow> bool" where
  "sign_sigv4 sdk endpoint =
     (case url_host sdk endpoint of None \<Rightarrow> False | Some h \<Rightarrow> ends_with ''amazonaws.com'' h)"

definition http_client :: "('c, 'x, 'r) otel_sdk \<Rightarrow> string \<Rightarrow> 'c SigV4HttpClient" where
  "http_client sdk endpoint =
     \<lparr>sv_creds = aws_credentials sdk,
      sv_region = (case aws_region sdk of Some r \<Rightarrow> r | None \<Rightarrow> ''us-east-1''),
      sv_service = ''monitoring'', sv_sign = sign_sigv4 sdk endpoint\<rparr>"

definition otel_resource :: "('c, 'x, 'r) otel_sdk \<Rightarrow> env_vars \<Rightarrow> 'r" where
  "otel_resource sdk env =
     (let has_ns = (case env ''OTEL_RESOURCE_ATTRIBUTES'' of Some v \<Rightarrow> contains v ''service.namespace'' | None \<Rightarrow> False)
      in if has_ns then resource_default sdk
         else resource_merge sdk (resource_default sdk) [(''service.namespace'', ''DynamoDBStreamsConsumer'')])"

definition base_dimensions :: "env_vars \<Rightarrow> KeyValues" where
  "base_dimensions env =
     (case env ''DDB_STREAMS_CONSUMER_OWNER'' of
        Some ow \<Rightarrow> if ow \<noteq> [] then [(''worker'', ow)] else [] | None \<Rightarrow> []) @
     (case env ''DDB_STREAMS_CONSUMER_STREAM_ARN'' of
        Some arn \<Rightarrow> if arn \<noteq> [] then [(''stream'', arn)] else [] | None \<Rightarrow> [])"

section \<open>The sink\<close>

record instrument =
  ins_name :: string
  ins_description :: string
  ins_unit :: "string option"

record ('x, 'r) SdkMeterProvider =
  pr_exporter :: 'x
  pr_interval_ms :: u64
  pr_resource :: 'r

record ('x, 'r) OtelMetricsSink =
  provider :: "('x, 'r) SdkMeterProvider"
  ot_lag :: instrument
  ot_records :: instrument
  ot_bytes :: instrument
  ot_describes :: instrument
  ot_shard_ends :: instrument
  ot_lease_acquired :: instrument
  ot_lease_lost :: instrument
  ot_leases_held :: instrument
  ot_slot_wait :: instrument
  ot_max_concurrency :: instrument
  ot_queue_depth :: instrument
  base_attrs :: KeyValues

definition ins :: "string \<Rightarrow> string \<Rightarrow> string option \<Rightarrow> instrument" where
  "ins name description u =
     \<lparr>ins_name = ''ddbstreams.consumer.'' @ name, ins_description = description, ins_unit = u\<rparr>"

definition otel_instruments :: "('x, 'r) SdkMeterProvider \<Rightarrow> KeyValues \<Rightarrow> ('x, 'r) OtelMetricsSink" where
  "otel_instruments p attrs =
     \<lparr>provider = p,
      ot_lag = ins ''millis_behind_latest'' ''Consumer lag: now - newest record ApproximateCreationDateTime'' (Some ''ms''),
      ot_records = ins ''records_processed'' ''Records delivered to the record processor'' None,
      ot_bytes = ins ''bytes_processed'' ''Payload bytes delivered'' (Some ''By''),
      ot_describes = ins ''describe_stream.count'' ''DescribeStream calls issued by the shard-sync leader'' None,
      ot_shard_ends = ins ''shard_end.count'' ''Shards that reached SHARD_END'' None,
      ot_lease_acquired = ins ''lease.acquired'' ''Shard leases this worker acquired or created'' None,
      ot_lease_lost = ins ''lease.lost'' ''Shard leases this worker lost (stolen or expired)'' None,
      ot_leases_held = ins ''lease.held'' ''Shard leases this worker currently holds'' None,
      ot_slot_wait = ins ''processing.slot_wait_ms''
        ''Time a due shard waited in the queue before a pool worker claimed it (max_processing_concurrency); emitted per claimed pass'' (Some ''ms''),
      ot_max_concurrency = ins ''processing.max_concurrency'' ''Configured max_processing_concurrency cap (0 = unbounded)'' None,
      ot_queue_depth = ins ''processing.queue_depth''
        ''Due shards waiting for or claimed by the processing pool at cycle start; persistently above the pool size means the pool is the bottleneck'' None,
      base_attrs = attrs\<rparr>"

definition otel_from_env :: "('c, 'x, 'r) otel_sdk \<Rightarrow> env_vars \<Rightarrow> BoxError + ('x, 'r) OtelMetricsSink" where
  "otel_from_env sdk env =
     (let endpoint = metrics_endpoint (case env ''OTEL_EXPORTER_OTLP_ENDPOINT'' of Some v \<Rightarrow> v | None \<Rightarrow> ''http://localhost:4318'')
      in case exporter_build sdk (http_client sdk endpoint) endpoint of
           Inl err \<Rightarrow> Inl err
         | Inr exporter \<Rightarrow>
             Inr (otel_instruments
               \<lparr>pr_exporter = exporter, pr_interval_ms = opt_u64 env ''OTEL_METRIC_EXPORT_INTERVAL'' 10000,
                pr_resource = otel_resource sdk env\<rparr>
               (base_dimensions env)))"

text \<open>\<open>Counter::add\<close> and \<open>Gauge::record\<close> of the SDK, on the state of the meter.\<close>

record 'm meter_api =
  counter_add :: "'m \<Rightarrow> instrument \<Rightarrow> u64 \<Rightarrow> KeyValues \<Rightarrow> 'm"
  gauge_u64 :: "'m \<Rightarrow> instrument \<Rightarrow> u64 \<Rightarrow> KeyValues \<Rightarrow> 'm"
  gauge_i64 :: "'m \<Rightarrow> instrument \<Rightarrow> int \<Rightarrow> KeyValues \<Rightarrow> 'm"

definition shard_attrs :: "('x, 'r) OtelMetricsSink \<Rightarrow> string \<Rightarrow> KeyValues" where
  "shard_attrs s shard = base_attrs s @ [(''shard_id'', shard)]"

definition otel_on_batch :: "'m meter_api \<Rightarrow> ('x, 'r) OtelMetricsSink \<Rightarrow> 'm \<Rightarrow> ShardMetrics \<Rightarrow> 'm" where
  "otel_on_batch api s m sm =
     (let attrs = shard_attrs s (sm_shard_id sm);
          m1 = counter_add api m (ot_records s) (sm_records sm) attrs;
          m2 = counter_add api m1 (ot_bytes s) (sm_bytes sm) attrs
      in case sm_millis_behind_latest sm of Some lag \<Rightarrow> gauge_i64 api m2 (ot_lag s) lag attrs | None \<Rightarrow> m2)"

definition otel_sink :: "'m meter_api \<Rightarrow> ('x, 'r) OtelMetricsSink \<Rightarrow> 'm MetricsSink" where
  "otel_sink api s =
     \<lparr>on_batch = otel_on_batch api s,
      on_shard_end = (\<lambda>m shard. counter_add api m (ot_shard_ends s) 1 (shard_attrs s shard)),
      on_describe_stream = (\<lambda>m. counter_add api m (ot_describes s) 1 (base_attrs s)),
      on_lease_acquired = (\<lambda>m shard. counter_add api m (ot_lease_acquired s) 1 (shard_attrs s shard)),
      on_lease_lost = (\<lambda>m shard. counter_add api m (ot_lease_lost s) 1 (shard_attrs s shard)),
      on_leases_held = (\<lambda>m n. gauge_u64 api m (ot_leases_held s) n (base_attrs s)),
      on_processing_slot_wait = (\<lambda>m shard ms. gauge_u64 api m (ot_slot_wait s) ms (shard_attrs s shard)),
      on_max_processing_concurrency = (\<lambda>m cap. gauge_u64 api m (ot_max_concurrency s) cap (base_attrs s)),
      on_processing_queue_depth = (\<lambda>m depth. gauge_u64 api m (ot_queue_depth s) depth (base_attrs s))\<rparr>"

section \<open>The signing transport\<close>

text \<open>
  The HTTP client, the credential chain, the clock and the signer. \<open>header_to_str\<close> is
  \<open>HeaderValue::to_str\<close>: \<open>None\<close> for a value with bytes that are not visible ASCII. A
  body that was received is read by \<open>http_bytes\<close>.
\<close>

record http_request =
  rq_method :: string
  rq_uri :: string
  rq_headers :: "(string \<times> string) list"
  rq_body :: string

record ('e, 'c, 'i, 'p, 'g, 'h) sigv4_api =
  provide_credentials :: "'e \<Rightarrow> 'c \<Rightarrow> 'e \<times> (BoxError + 'i)"
  system_time :: "'e \<Rightarrow> 'e \<times> nat"
  signing_params :: "'i \<Rightarrow> string \<Rightarrow> string \<Rightarrow> nat \<Rightarrow> BoxError + 'p"
  signable_request :: "string \<Rightarrow> string \<Rightarrow> (string \<times> string) list \<Rightarrow> string \<Rightarrow> BoxError + 'g"
  sign_request :: "'g \<Rightarrow> 'p \<Rightarrow> BoxError + (string \<times> string) list"
  header_to_str :: "string \<Rightarrow> string option"
  http_send :: "'e \<Rightarrow> http_request \<Rightarrow> 'e \<times> (BoxError + nat \<times> 'h)"
  http_bytes :: "'e \<Rightarrow> 'h \<Rightarrow> 'e \<times> (BoxError + string)"
  response_build :: "nat \<Rightarrow> string \<Rightarrow> BoxError + (nat \<times> string)"

definition sign_headers ::
  "('e, 'c, 'i, 'p, 'g, 'h) sigv4_api \<Rightarrow> 'c SigV4HttpClient \<Rightarrow> string \<Rightarrow> string \<Rightarrow> (string \<times> string) list \<Rightarrow> string \<Rightarrow> 'e \<Rightarrow>
   'e \<times> (BoxError + (string \<times> string) list)" where
  "sign_headers api cl meth uri headers body e =
     (case sv_creds cl of
        None \<Rightarrow> (e, Inl ''no AWS credentials provider for SigV4'')
      | Some p \<Rightarrow>
          (case provide_credentials api e p of
             (e1, Inl err) \<Rightarrow> (e1, Inl err)
           | (e1, Inr identity) \<Rightarrow>
               (let (e2, now) = system_time api e1 in
                (e2,
                 case signing_params api identity (sv_region cl) (sv_service cl) now of
                   Inl err \<Rightarrow> Inl err
                 | Inr params \<Rightarrow>
                     (case signable_request api meth uri headers body of
                        Inl err \<Rightarrow> Inl err
                      | Inr sg \<Rightarrow>
                          (case sign_request api sg params of
                             Inl err \<Rightarrow> Inl err
                           | Inr added \<Rightarrow> Inr (headers @ added)))))))"

definition readable_headers :: "('e, 'c, 'i, 'p, 'g, 'h) sigv4_api \<Rightarrow> (string \<times> string) list \<Rightarrow> (string \<times> string) list" where
  "readable_headers api hs = List.map_filter (\<lambda>(k, v). map_option (Pair k) (header_to_str api v)) hs"

definition sigv4_send ::
  "('e, 'c, 'i, 'p, 'g, 'h) sigv4_api \<Rightarrow> 'c SigV4HttpClient \<Rightarrow> http_request \<Rightarrow> 'e \<Rightarrow> 'e \<times> (BoxError + (nat \<times> string))" where
  "sigv4_send api cl rq e =
     (let hs = readable_headers api (rq_headers rq);
          (e1, signed) =
            (if sv_sign cl then sign_headers api cl (rq_method rq) (rq_uri rq) hs (rq_body rq) e else (e, Inr hs))
      in case signed of
           Inl err \<Rightarrow> (e1, Inl err)
         | Inr headers \<Rightarrow>
             (case http_send api e1 (rq\<lparr>rq_headers := headers\<rparr>) of
                (e2, Inl err) \<Rightarrow> (e2, Inl err)
              | (e2, Inr (status, h)) \<Rightarrow>
                  (case http_bytes api e2 h of
                     (e3, Inl err) \<Rightarrow> (e3, Inl err)
                   | (e3, Inr bytes) \<Rightarrow> (e3, response_build api status bytes))))"

section \<open>The sink in the sidecar\<close>

text \<open>
  The meter's state stands beside the state of everything else: \<open>beside\<close> runs an operation on the
  first component, \<open>metered_ops M ops\<close> is the fleet with the sink \<open>M\<close> attached.
\<close>

definition beside :: "('e \<Rightarrow> 'e \<times> 'r) \<Rightarrow> 'e \<times> 'm \<Rightarrow> ('e \<times> 'm) \<times> 'r" where
  "beside f S = (let (e', r) = f (fst S) in ((e', snd S), r))"

definition metered :: "('m \<Rightarrow> 'm) \<Rightarrow> 'e \<times> 'm \<Rightarrow> 'e \<times> 'm" where
  "metered f S = (fst S, f (snd S))"

definition metered_sink :: "'m MetricsSink \<Rightarrow> ('e \<times> 'm) MetricsSink" where
  "metered_sink M =
     \<lparr>on_batch = (\<lambda>S sm. metered (\<lambda>m. on_batch M m sm) S),
      on_shard_end = (\<lambda>S sh. metered (\<lambda>m. on_shard_end M m sh) S),
      on_describe_stream = metered (on_describe_stream M),
      on_lease_acquired = (\<lambda>S sh. metered (\<lambda>m. on_lease_acquired M m sh) S),
      on_lease_lost = (\<lambda>S sh. metered (\<lambda>m. on_lease_lost M m sh) S),
      on_leases_held = (\<lambda>S n. metered (\<lambda>m. on_leases_held M m n) S),
      on_processing_slot_wait = (\<lambda>S sh n. metered (\<lambda>m. on_processing_slot_wait M m sh n) S),
      on_max_processing_concurrency = (\<lambda>S n. metered (\<lambda>m. on_max_processing_concurrency M m n) S),
      on_processing_queue_depth = (\<lambda>S n. metered (\<lambda>m. on_processing_queue_depth M m n) S)\<rparr>"

definition metered_leases :: "'e AsyncLeaseStore \<Rightarrow> ('e \<times> 'm) AsyncLeaseStore" where
  "metered_leases L =
     \<lparr>l_get = (\<lambda>S k. beside (\<lambda>e. l_get L e k) S),
      l_list = (\<lambda>S. map_option (\<lambda>(e', r). ((e', snd S), r)) (l_list L (fst S))),
      l_acquire = (\<lambda>S k ow. beside (\<lambda>e. l_acquire L e k ow) S),
      l_renew = (\<lambda>S k ow c. beside (\<lambda>e. l_renew L e k ow c) S),
      l_heartbeat = (\<lambda>S w. beside (\<lambda>e. l_heartbeat L e w) S),
      l_checkpoint = (\<lambda>S k ow c q. beside (\<lambda>e. l_checkpoint L e k ow c q) S),
      l_mark_complete = (\<lambda>S k ow c. beside (\<lambda>e. l_mark_complete L e k ow c) S),
      l_release = (\<lambda>S k ow c. beside (\<lambda>e. l_release L e k ow c) S),
      l_delete_lease = (\<lambda>S k. beside (\<lambda>e. l_delete_lease L e k) S),
      l_create_shard_lease = (\<lambda>S k ps cp. beside (\<lambda>e. l_create_shard_lease L e k ps cp) S),
      l_try_acquire_leadership = (\<lambda>S k ow x. beside (\<lambda>e. l_try_acquire_leadership L e k ow x) S)\<rparr>"

definition metered_ops :: "'m MetricsSink \<Rightarrow> 'e fleet_ops \<Rightarrow> ('e \<times> 'm) fleet_ops" where
  "metered_ops M ops =
     \<lparr>f_source =
        \<lparr>s_describe_shards = beside (s_describe_shards (f_source ops)),
         s_get_records = (\<lambda>S sh a. beside (\<lambda>e. s_get_records (f_source ops) e sh a) S),
         s_describe_child_shards = (\<lambda>S p. beside (\<lambda>e. s_describe_child_shards (f_source ops) e p) S)\<rparr>,
      f_leases = metered_leases (f_leases ops),
      f_factory =
        \<lparr>c_create = (\<lambda>S sh. (c_create (f_factory ops) (fst S) sh, snd S)),
         c_deliver = (\<lambda>S sh rs. beside (\<lambda>e. c_deliver (f_factory ops) e sh rs) S),
         c_shard_ended = (\<lambda>S sh. beside (\<lambda>e. c_shard_ended (f_factory ops) e sh) S),
         c_lease_lost = (\<lambda>S sh. beside (\<lambda>e. c_lease_lost (f_factory ops) e sh) S)\<rparr>,
      f_metrics = metered_sink M,
      f_runtime =
        \<lparr>rt_now = beside (rt_now (f_runtime ops)),
         rt_wait = (\<lambda>S n. (rt_wait (f_runtime ops) (fst S) n, snd S))\<rparr>\<rparr>"

text \<open>\<open>main\<close>: the sink is attached when the variable is set and the exporter can be built.\<close>

definition attach_metrics ::
  "('c, 'x, 'r) otel_sdk \<Rightarrow> (('x, 'r) OtelMetricsSink \<Rightarrow> 'e MetricsSink) \<Rightarrow> env_vars \<Rightarrow> 'e fleet_ops \<times> Fleet \<Rightarrow>
   ('e fleet_ops \<times> Fleet) \<times> ('x, 'r) OtelMetricsSink option" where
  "attach_metrics sdk as_sink env fleet =
     (case env ''OTEL_METRICS_EXPORTER'' of
        None \<Rightarrow> (fleet, None)
      | Some _ \<Rightarrow>
          (case otel_from_env sdk env of
             Inr sink \<Rightarrow> (with_metrics (as_sink sink) fleet, Some sink)
           | Inl _ \<Rightarrow> (fleet, None)))"

text \<open>The last flush stands between the handoff and the shutdown message; its failure is only logged.\<close>

definition flush_before_shutdown ::
  "('e \<Rightarrow> 'e \<times> (BoxError + unit)) \<Rightarrow> ('x, 'r) OtelMetricsSink option \<Rightarrow> 'e SidecarIpc \<Rightarrow> 'e SidecarIpc" where
  "flush_before_shutdown force_flush sink ipc =
     (case sink of
        None \<Rightarrow> ipc
      | Some _ \<Rightarrow> ipc\<lparr>si_shutdown := (\<lambda>e reason. si_shutdown ipc (fst (force_flush e)) reason)\<rparr>)"

definition sidecar_run_otel ::
  "('c, 'x, 'r) otel_sdk \<Rightarrow> (('x, 'r) OtelMetricsSink \<Rightarrow> 'e MetricsSink) \<Rightarrow> ('e \<Rightarrow> 'e \<times> (BoxError + unit)) \<Rightarrow> env_vars \<Rightarrow>
   (string list \<Rightarrow> string list) \<Rightarrow> 'e SidecarIpc \<Rightarrow> (nat \<Rightarrow> pool_act list) \<Rightarrow> Config \<Rightarrow> 'e fleet_ops \<times> Fleet \<Rightarrow> 'e \<Rightarrow> ('e \<times> Fleet) option" where
  "sidecar_run_otel sdk as_sink force_flush env ord ipc acts cfg fleet =
     (case attach_metrics sdk as_sink env fleet of
        (fleet', sink) \<Rightarrow> sidecar_run ord (flush_before_shutdown force_flush sink ipc) acts cfg fleet')"

section \<open>What a task reports\<close>

text \<open>The reports of one pass over a shard, and the sink's effect of a report on the meter.\<close>

datatype report = RBatch "Record list" "int option" | REnded | RLost

primrec emit :: "'m MetricsSink \<Rightarrow> ShardId \<Rightarrow> report \<Rightarrow> 'm \<Rightarrow> 'm" where
  "emit M sh (RBatch rs lag) m =
     on_batch M m \<lparr>sm_shard_id = sh, sm_records = of_nat (length rs),
       sm_bytes = of_nat (sum_list (map (length \<circ> rec_data) rs)), sm_millis_behind_latest = lag\<rparr>"
| "emit M sh REnded m = on_shard_end M m sh"
| "emit M sh RLost m = on_lease_lost M m sh"

primrec reported_of :: "report \<Rightarrow> Record list list" where
  "reported_of (RBatch rs lag) = [rs]"
| "reported_of REnded = []"
| "reported_of RLost = []"

definition reported :: "report list \<Rightarrow> Record list list" where
  "reported reps = concat (map reported_of reps)"

text \<open>Between two states the task made the calls \<open>evs\<close> and the reports \<open>reps\<close>.\<close>

definition moved ::
  "'m MetricsSink \<Rightarrow> ShardId \<Rightarrow> ('e \<times> 'm) traced \<Rightarrow> ('e \<times> 'm) traced \<Rightarrow> event list \<Rightarrow> report list \<Rightarrow> bool" where
  "moved M sh E E' evs reps \<longleftrightarrow> snd E' = snd E @ evs \<and> snd (fst E') = fold (emit M sh) reps (snd (fst E))"

lemma moved_refl: "moved M sh E E [] []"
  by (simp add: moved_def)

lemma moved_trans: "moved M sh E E1 a x \<Longrightarrow> moved M sh E1 E2 b y \<Longrightarrow> moved M sh E E2 (a @ b) (x @ y)"
  by (simp add: moved_def)

lemma moved_call: "traced ev (beside f) E = (E', r) \<Longrightarrow> moved M sh E E' [ev r] []"
  by (auto simp: moved_def traced_def beside_def Let_def split: prod.splits)

lemma metered_call_eta:
  "(\<lambda>S. s_get_records (f_source (metered_ops M ops)) S k a) = beside (\<lambda>e. s_get_records (f_source ops) e k a)"
  "(\<lambda>S. c_deliver (f_factory (metered_ops M ops)) S k rs) = beside (\<lambda>e. c_deliver (f_factory ops) e k rs)"
  "(\<lambda>S. c_shard_ended (f_factory (metered_ops M ops)) S k) = beside (\<lambda>e. c_shard_ended (f_factory ops) e k)"
  "(\<lambda>S. c_lease_lost (f_factory (metered_ops M ops)) S k) = beside (\<lambda>e. c_lease_lost (f_factory ops) e k)"
  "(\<lambda>S. l_checkpoint (f_leases (metered_ops M ops)) S k ow c q) = beside (\<lambda>e. l_checkpoint (f_leases ops) e k ow c q)"
  "(\<lambda>S. l_mark_complete (f_leases (metered_ops M ops)) S k ow c) = beside (\<lambda>e. l_mark_complete (f_leases ops) e k ow c)"
  by (simp_all add: metered_ops_def metered_leases_def)

lemma moved_metric:
  "moved M sh E (on_batch (f_metrics (traced_ops (metered_ops M ops))) E
     \<lparr>sm_shard_id = sh, sm_records = of_nat (length rs), sm_bytes = of_nat (sum_list (map (length \<circ> rec_data) rs)),
      sm_millis_behind_latest = lag\<rparr>) [] [RBatch rs lag]"
  "moved M sh E (on_shard_end (f_metrics (traced_ops (metered_ops M ops))) E sh) [] [REnded]"
  "moved M sh E (on_lease_lost (f_metrics (traced_ops (metered_ops M ops))) E sh) [] [RLost]"
  by (simp_all add: moved_def traced_ops_def carried_metrics_def untraced_def metered_ops_def metered_sink_def metered_def)

lemma moved_now: "rt_now (f_runtime (traced_ops (metered_ops M ops))) E = (E', n) \<Longrightarrow> moved M sh E E' [] []"
  by (auto simp: moved_def traced_ops_def carried_runtime_def metered_ops_def beside_def Let_def split: prod.splits)

lemma lease_lost_moved:
  "moved M sh E (lease_lost_exit (traced_ops (metered_ops M ops)) sh E) [EvLeaseLost sh] [RLost]"
proof -
  let ?ops = "traced_ops (metered_ops M ops)"
  let ?E1 = "on_lease_lost (f_metrics ?ops) E sh"
  obtain E2 r where l: "c_lease_lost (f_factory ?ops) ?E1 sh = (E2, r)" by fastforce
  then have "traced (\<lambda>_. EvLeaseLost sh) (beside (\<lambda>e. c_lease_lost (f_factory ops) e sh)) ?E1 = (E2, r)"
    by (simp add: metered_call_eta)
  from moved_trans [OF moved_metric(3) moved_call [OF this]] l show ?thesis by (simp add: lease_lost_exit_def del: traced_ops_simps)
qed

text \<open>A step that delivers nothing and reports no batch: a checkpoint, accepted or refused.\<close>

lemma checkpoint_moved:
  assumes "l_checkpoint (f_leases (traced_ops (metered_ops M ops))) E k ow c q = (E', r)"
  shows "moved M sh E E' [EvCheckpoint k ow c q r] []"
proof -
  have "traced (EvCheckpoint k ow c q) (beside (\<lambda>e. l_checkpoint (f_leases ops) e k ow c q)) E = (E', r)"
    using assms by (simp add: metered_call_eta)
  from moved_call [OF this] show ?thesis .
qed

text \<open>Calls and reports that agree on the batches, the lost lease and the end of the shard.\<close>

definition agree :: "ShardId \<Rightarrow> bool \<Rightarrow> event list \<Rightarrow> report list \<Rightarrow> bool" where
  "agree sh ended evs reps \<longleftrightarrow>
     count_list reps RLost = (if EvLeaseLost sh \<in> set evs then 1 else 0) \<and>
     count_list reps REnded = (if ended then 1 else 0)"

lemma persists_moved: "persists (traced_ops (metered_ops M ops)) task a d E E1 upd d' \<Longrightarrow> moved M sh E E1 [] []"
  by (auto simp: persists_def moved_refl dest: moved_now simp del: traced_ops_simps split: option.splits)

lemma refused_moved:
  assumes "moved M sh E E1 [] []" "l_checkpoint (f_leases (traced_ops (metered_ops M ops))) E1 sh ow c q = (E2, Inl err)"
  shows "moved M sh E (lease_lost_exit (traced_ops (metered_ops M ops)) sh E2) [EvCheckpoint sh ow c q (Inl err), EvLeaseLost sh] [RLost]"
  using moved_trans [OF moved_trans [OF assms(1) checkpoint_moved [OF assms(2)]] lease_lost_moved [of M sh E2 ops]] by simp

lemma handle_ack_moved:
  assumes "handle_ack (traced_ops (metered_ops M ops)) task c a defer E = (E', defer', r)"
  shows "\<exists>evs reps. moved M (t_shard task) E E' evs reps \<and> delivered evs = [] \<and> reported reps = [] \<and>
    agree (t_shard task) False evs reps \<and>
    (case r of Inl out \<Rightarrow> out = Stopped | Inr _ \<Rightarrow> EvLeaseLost (t_shard task) \<notin> set evs)"
  using assms
proof (cases rule: handle_ack_cases)
  case (deferred d0 now d1)
  with moved_now [OF deferred(2)] show ?thesis
    by (intro exI [of _ "[]"]) (simp add: agree_def reported_def delivered_def)
next
  case (persisted E1 c')
  from moved_trans [OF persists_moved [OF persisted(1)] checkpoint_moved [OF persisted(2)]] persisted(3) show ?thesis
    by (intro exI [of _ "[EvCheckpoint (t_shard task) (t_owner task) c a (Inr c')]"] exI [of _ "[]"])
       (simp add: agree_def reported_def delivered_def)
next
  case (refused E1 E2 err)
  from refused_moved [OF persists_moved [OF refused(1)] refused(2)] refused(3,4) show ?thesis
    by (intro exI [of _ "[EvCheckpoint (t_shard task) (t_owner task) c a (Inl err), EvLeaseLost (t_shard task)]"] exI [of _ "[RLost]"])
       (simp add: agree_def reported_def delivered_def)
qed

lemma deliver_moved:
  assumes "c_deliver (f_factory (traced_ops (metered_ops M ops))) E k rs = (E', r)"
  shows "moved M sh E E' [EvDeliver k rs r] []"
proof -
  have "traced (EvDeliver k rs) (beside (\<lambda>e. c_deliver (f_factory ops) e k rs)) E = (E', r)" using assms by (simp add: metered_call_eta)
  from moved_call [OF this] show ?thesis .
qed

lemma deliver_batch_moved:
  assumes "deliver_batch (traced_ops (metered_ops M ops)) task c b defer E = (E', defer', r)"
  shows "\<exists>evs reps. moved M (t_shard task) E E' evs reps \<and> agree (t_shard task) False evs reps \<and> delivered evs = [batch_records b] \<and>
    (case r of Inl out \<Rightarrow> out = Stopped \<and> reported reps = []
     | Inr _ \<Rightarrow> reported reps = [batch_records b] \<and> EvLeaseLost (t_shard task) \<notin> set evs)"
proof -
  let ?sh = "t_shard task" and ?rs = "batch_records b" and ?rep = "RBatch (batch_records b) (batch_millis_behind_latest b)"
  note on_batch = moved_metric(1) [of M ?sh _ ops ?rs "batch_millis_behind_latest b"]
  from assms show ?thesis
  proof (cases rule: deliver_batch_cases)
    case (failed err)
    with deliver_moved [OF failed(1)] show ?thesis
      by (intro exI [of _ "[EvDeliver ?sh ?rs (Inl err)]"] exI [of _ "[]"]) (simp add: agree_def reported_def delivered_def)
  next
    case (unacked E1)
    with moved_trans [OF deliver_moved [OF unacked(1)] on_batch] show ?thesis
      by (intro exI [of _ "[EvDeliver ?sh ?rs (Inr None)]"] exI [of _ "[?rep]"]) (simp add: agree_def reported_def delivered_def)
  next
    case (stopped E1 a out)
    from handle_ack_moved [OF stopped(2)] obtain evs reps where e: "moved M ?sh E1 E' evs reps" "delivered evs = []" "reported reps = []"
      "agree ?sh False evs reps" "out = Stopped" by auto
    with moved_trans [OF deliver_moved [OF stopped(1)] e(1)] stopped(3) show ?thesis
      by (intro exI [of _ "EvDeliver ?sh ?rs (Inr (Some a)) # evs"] exI [of _ reps]) (simp add: agree_def delivered_def)
  next
    case (acked E1 a E2 c')
    from handle_ack_moved [OF acked(2)] obtain evs reps where e: "moved M ?sh E1 E2 evs reps" "delivered evs = []" "reported reps = []"
      "agree ?sh False evs reps" "EvLeaseLost ?sh \<notin> set evs" by auto
    with moved_trans [OF moved_trans [OF deliver_moved [OF acked(1)] e(1)] on_batch] acked(3,4) show ?thesis
      by (intro exI [of _ "EvDeliver ?sh ?rs (Inr (Some a)) # evs"] exI [of _ "reps @ [?rep]"]) (simp add: agree_def delivered_def reported_def)
  qed
qed

lemma agree_append:
  "agree sh False a x \<Longrightarrow> EvLeaseLost sh \<notin> set a \<Longrightarrow> agree sh en b y \<Longrightarrow> agree sh en (a @ b) (x @ y)"
  by (simp add: agree_def)

lemma delivered_append: "delivered (a @ b) = delivered a @ delivered b"
  by (simp add: delivered_def)

lemma reported_append: "reported (a @ b) = reported a @ reported b"
  by (simp add: reported_def)

lemma close_moved:
  "\<exists>r. moved M (t_shard task) E (close_shard (traced_ops (metered_ops M ops)) task c E)
     [EvShardEnded (t_shard task), EvMarkComplete (t_shard task) (t_owner task) c r] [REnded]"
proof -
  let ?sh = "t_shard task" and ?ow = "t_owner task"
  let ?f = "beside (\<lambda>e. c_shard_ended (f_factory ops) e ?sh)" and ?g = "beside (\<lambda>e. l_mark_complete (f_leases ops) e ?sh ?ow c)"
  obtain E1 x where e: "traced (\<lambda>_. EvShardEnded ?sh) ?f E = (E1, x)" by fastforce
  obtain E2 y where m: "traced (EvMarkComplete ?sh ?ow c) ?g E1 = (E2, y)" by fastforce
  have "close_shard (traced_ops (metered_ops M ops)) task c E = on_shard_end (f_metrics (traced_ops (metered_ops M ops))) E2 ?sh"
    using e m by (simp add: close_shard_def metered_call_eta)
  with moved_trans [OF moved_trans [OF moved_call [OF e, of M ?sh] moved_call [OF m]] moved_metric(2) [of M ?sh E2 ops]]
  show ?thesis by auto
qed

lemma finish_shard_moved:
  assumes "finish_shard (traced_ops (metered_ops M ops)) task c defer E = (E', defer', out)"
  shows "\<exists>evs reps. moved M (t_shard task) E E' evs reps \<and> delivered evs = [] \<and> reported reps = [] \<and>
    agree (t_shard task) (out = Ended) evs reps \<and> (out = Ended \<or> out = Stopped)"
proof -
  let ?sh = "t_shard task" and ?ow = "t_owner task"
  have ended: ?thesis if m: "moved M ?sh E E1 evs []" and "delivered evs = []" "EvLeaseLost ?sh \<notin> set evs"
    and e: "E' = close_shard (traced_ops (metered_ops M ops)) task c' E1" "out = Ended" for E1 evs c'
  proof -
    from close_moved [of M task E1 ops c'] e obtain r where "moved M ?sh E1 E' [EvShardEnded ?sh, EvMarkComplete ?sh ?ow c' r] [REnded]" by auto
    from moved_trans [OF m this] that show ?thesis
      by (intro exI [of _ "evs @ [EvShardEnded ?sh, EvMarkComplete ?sh ?ow c' r]"] exI [of _ "[REnded]"])
         (simp add: agree_def delivered_def reported_def)
  qed
  from assms show ?thesis
  proof (cases rule: finish_shard_cases)
    case settled
    from ended [OF moved_refl _ _ settled(2,3)] show ?thesis by (simp add: delivered_def)
  next
    case (flushed q E1 c')
    from ended [OF checkpoint_moved [OF flushed(2)] _ _ flushed(3,4)] show ?thesis by (simp add: delivered_def)
  next
    case (refused q E1 err)
    from refused_moved [OF moved_refl refused(2)] refused(3,4) show ?thesis
      by (intro exI [of _ "[EvCheckpoint ?sh ?ow c q (Inl err), EvLeaseLost ?sh]"] exI [of _ "[RLost]"])
         (simp add: agree_def reported_def delivered_def)
  qed
qed

text \<open>Every delivered batch is reported, but for the last one of a pass that stops.\<close>

definition accounted :: "WorkerError + PassOutcome \<Rightarrow> event list \<Rightarrow> report list \<Rightarrow> bool" where
  "accounted res evs reps \<longleftrightarrow>
     reported reps = delivered evs \<or> res = Inr Stopped \<and> delivered evs \<noteq> [] \<and> reported reps = butlast (delivered evs)"

lemma accounted_append:
  "reported x = delivered a \<Longrightarrow> accounted res b y \<Longrightarrow> accounted res (a @ b) (x @ y)"
  by (auto simp: accounted_def delivered_append reported_append butlast_append)

lemma get_moved:
  assumes "s_get_records (f_source (traced_ops (metered_ops M ops))) E k a = (E', r)"
  shows "moved M sh E E' [EvGetRecords k a r] []"
proof -
  have "traced (EvGetRecords k a) (beside (\<lambda>e. s_get_records (f_source ops) e k a)) E = (E', r)" using assms by (simp add: metered_call_eta)
  from moved_call [OF this] show ?thesis .
qed

lemma handled_moved:
  assumes "handled (traced_ops (metered_ops M ops)) task c b d E1 E2 d2 r"
    and "s_get_records (f_source (traced_ops (metered_ops M ops))) E (t_shard task) after = (E1, Inr b)"
  shows "\<exists>evs reps. moved M (t_shard task) E E2 evs reps \<and> agree (t_shard task) False evs reps \<and>
    (case r of Inl out \<Rightarrow> out = Stopped \<and> accounted (Inr out) evs reps
     | Inr _ \<Rightarrow> reported reps = delivered evs \<and> EvLeaseLost (t_shard task) \<notin> set evs)"
proof (cases "batch_records b = []")
  case True
  with assms get_moved [OF assms(2)] show ?thesis
    by (intro exI [of _ "[EvGetRecords (t_shard task) after (Inr b)]"] exI [of _ "[]"])
       (auto simp: handled_def agree_def reported_def delivered_def)
next
  case False
  with assms(1) have "deliver_batch (traced_ops (metered_ops M ops)) task c b d E1 = (E2, d2, r)" by (simp add: handled_def)
  from deliver_batch_moved [OF this] obtain evs reps where e: "moved M (t_shard task) E1 E2 evs reps" "agree (t_shard task) False evs reps"
    "delivered evs = [batch_records b]" "case r of Inl out \<Rightarrow> out = Stopped \<and> reported reps = []
       | Inr _ \<Rightarrow> reported reps = [batch_records b] \<and> EvLeaseLost (t_shard task) \<notin> set evs" by blast
  with moved_trans [OF get_moved [OF assms(2)] e(1)] show ?thesis
    by (intro exI [of _ "EvGetRecords (t_shard task) after (Inr b) # evs"] exI [of _ reps])
       (auto simp: agree_def accounted_def delivered_def split: sum.splits)
qed

lemma task_turn_moved:
  assumes t: "task_turn (traced_ops (metered_ops M ops)) task vars defer E = (E', defer', r)"
  shows "\<exists>evs reps. moved M (t_shard task) E E' evs reps \<and> agree (t_shard task) (r = Inl (Inr Ended)) evs reps \<and>
    (case r of Inl res \<Rightarrow> accounted res evs reps
     | Inr _ \<Rightarrow> reported reps = delivered evs \<and> EvLeaseLost (t_shard task) \<notin> set evs)"
proof -
  let ?sh = "t_shard task"
  obtain after c dl where v: "vars = (after, c, dl)" by (metis prod_cases3)
  from t [unfolded v] show ?thesis
  proof (cases rule: task_turn_cases)
    case (fetch_failed err)
    with get_moved [OF fetch_failed(1)] show ?thesis
      by (intro exI [of _ "[EvGetRecords ?sh after (Inl err)]"] exI [of _ "[]"]) (simp add: agree_def accounted_def reported_def delivered_def)
  next
    case (stopped E1 b out)
    with handled_moved [OF stopped(2,1)] show ?thesis by fastforce
  next
    case (ended E1 b E2 d2 c2 out)
    from handled_moved [OF ended(2,1)] obtain a x where a: "moved M ?sh E E2 a x" "agree ?sh False a x" "reported x = delivered a"
      "EvLeaseLost ?sh \<notin> set a" by auto
    from finish_shard_moved [OF ended(4)] obtain b y where f: "moved M ?sh E2 E' b y" "delivered b = []" "reported y = []"
      "agree ?sh (out = Ended) b y" by blast
    then have "accounted (Inr out) b y" by (simp add: accounted_def)
    from accounted_append [OF a(3) this] agree_append [OF a(2,4) f(4)] moved_trans [OF a(1) f(1)] ended(5) show ?thesis
      by (intro exI [of _ "a @ b"] exI [of _ "x @ y"]) simp
  next
    case (drained b)
    with get_moved [OF drained(1)] show ?thesis
      by (intro exI [of _ "[EvGetRecords ?sh after (Inr b)]"] exI [of _ "[]"]) (simp add: agree_def accounted_def reported_def delivered_def)
  next
    case (went_on E1 b c2)
    with handled_moved [OF went_on(3,1)] show ?thesis by auto
  qed
qed

lemma process_shard_moved:
  assumes "process_shard (traced_ops (metered_ops M ops)) task defer E = Some (E', defer', res)"
  shows "\<exists>evs reps. moved M (t_shard task) E E' evs reps \<and> agree (t_shard task) (res = Inr Ended) evs reps \<and> accounted res evs reps"
proof -
  let ?ops = "traced_ops (metered_ops M ops)" and ?sh = "t_shard task"
  let ?I = "\<lambda>(vars :: loop_vars) (d :: CkptDefer option) E1. \<exists>evs reps. moved M ?sh E E1 evs reps \<and> agree ?sh False evs reps \<and>
    reported reps = delivered evs \<and> EvLeaseLost ?sh \<notin> set evs"
  let ?F = "\<lambda>E1 (d :: CkptDefer option) res. \<exists>evs reps. moved M ?sh E E1 evs reps \<and> agree ?sh (res = Inr Ended) evs reps \<and> accounted res evs reps"
  show ?thesis
  proof (rule task_loop_inv [where I = ?I and F = ?F])
    show "task_loop ?ops task (task_start task defer) defer E = Some (E', defer', res)"
      using assms by (simp add: process_shard_def)
    show "?I (task_start task defer) defer E"
      by (intro exI [of _ "[]"]) (simp add: moved_refl agree_def reported_def delivered_def)
  next
    fix vars d E1 E2 d' vars'
    assume "?I vars d E1" "task_turn ?ops task vars d E1 = (E2, d', Inr vars')"
    then obtain a x b y where "moved M ?sh E E1 a x" "agree ?sh False a x" "reported x = delivered a" "EvLeaseLost ?sh \<notin> set a"
      "moved M ?sh E1 E2 b y" "agree ?sh False b y" "reported y = delivered b" "EvLeaseLost ?sh \<notin> set b"
      using task_turn_moved [of M ops task vars d E1 E2 d' "Inr vars'"] by auto
    then show "?I vars' d' E2"
      by (intro exI [of _ "a @ b"] exI [of _ "x @ y"]) (simp add: moved_trans agree_append reported_append delivered_append)
  next
    fix vars d E1 E2 d' res
    assume "?I vars d E1" "task_turn ?ops task vars d E1 = (E2, d', Inl res)"
    then obtain a x b y where "moved M ?sh E E1 a x" "agree ?sh False a x" "reported x = delivered a" "EvLeaseLost ?sh \<notin> set a"
      "moved M ?sh E1 E2 b y" "agree ?sh (res = Inr Ended) b y" "accounted res b y"
      using task_turn_moved [of M ops task vars d E1 E2 d' "Inl res"] by auto
    then show "?F E2 d' res"
      by (intro exI [of _ "a @ b"] exI [of _ "x @ y"]) (simp add: moved_trans agree_append accounted_append)
  qed
qed

section \<open>The interface of the meter\<close>

text \<open>
  What the SDK documents of a counter: its value per instrument and attribute set is the sum of
  what was added (in 64 bits), and a gauge is not a counter. Attribute sets are compared as sets;
  the law is only asked for lists without repeated keys.
\<close>

locale otel_meter =
  fixes api :: "'m meter_api" and csum :: "'m \<Rightarrow> instrument \<Rightarrow> KeyValues \<Rightarrow> u64"
  assumes counter_total: "distinct (map fst a) \<Longrightarrow> distinct (map fst b) \<Longrightarrow>
      csum (counter_add api m i v a) j b = csum m j b + (if i = j \<and> set a = set b then v else 0)"
    and gauge_totals: "csum (gauge_u64 api m i n a) = csum m" "csum (gauge_i64 api m i x a) = csum m"

text \<open>What a report adds to a counter.\<close>

primrec added :: "('x, 'r) OtelMetricsSink \<Rightarrow> instrument \<Rightarrow> report \<Rightarrow> u64" where
  "added s i (RBatch rs lag) =
     (if i = ot_records s then of_nat (length rs) else 0) +
     (if i = ot_bytes s then of_nat (sum_list (map (length \<circ> rec_data) rs)) else 0)"
| "added s i REnded = (if i = ot_shard_ends s then 1 else 0)"
| "added s i RLost = (if i = ot_lease_lost s then 1 else 0)"

context otel_meter
begin

lemma emit_total:
  assumes "distinct (map fst (shard_attrs s sh))" "distinct (map fst B)"
  shows "csum (emit (otel_sink api s) sh rep m) i B =
    csum m i B + (if set B = set (shard_attrs s sh) then added s i rep else 0)"
  using assms by (cases rep) (auto simp: otel_sink_def otel_on_batch_def Let_def counter_total gauge_totals split: option.splits)

lemma reports_total:
  assumes "distinct (map fst (shard_attrs s sh))" "distinct (map fst B)"
  shows "csum (fold (emit (otel_sink api s) sh) reps m) i B =
    csum m i B + (if set B = set (shard_attrs s sh) then sum_list (map (added s i) reps) else 0)"
  by (induction reps arbitrary: m) (simp_all add: emit_total [OF assms])

end

lemma otel_from_env_fields:
  assumes "otel_from_env sdk env = Inr s"
  shows "base_attrs s = base_dimensions env"
    "ins_name (ot_records s) = ''ddbstreams.consumer.records_processed''"
    "ins_name (ot_bytes s) = ''ddbstreams.consumer.bytes_processed''"
    "ins_name (ot_shard_ends s) = ''ddbstreams.consumer.shard_end.count''"
    "ins_name (ot_lease_lost s) = ''ddbstreams.consumer.lease.lost''"
proof -
  obtain p where p: "s = otel_instruments p (base_dimensions env)"
    using assms by (auto simp only: otel_from_env_def Let_def sum.simps split: sum.splits)
  show "base_attrs s = base_dimensions env" by (simp only: p otel_instruments_def OtelMetricsSink.simps)
  show "ins_name (ot_records s) = ''ddbstreams.consumer.records_processed''"
    "ins_name (ot_bytes s) = ''ddbstreams.consumer.bytes_processed''"
    "ins_name (ot_shard_ends s) = ''ddbstreams.consumer.shard_end.count''"
    "ins_name (ot_lease_lost s) = ''ddbstreams.consumer.lease.lost''"
    by (simp_all only: p otel_instruments_def OtelMetricsSink.simps ins_def instrument.simps append.simps)
qed

lemma instruments_distinct:
  assumes "otel_from_env sdk env = Inr s"
  shows "distinct [ot_records s, ot_bytes s, ot_shard_ends s, ot_lease_lost s]"
proof -
  have "distinct (map ins_name [ot_records s, ot_bytes s, ot_shard_ends s, ot_lease_lost s])"
    by (simp add: otel_from_env_fields(2-) [OF assms])
  then show ?thesis unfolding distinct_map ..
qed

lemma dimensions_distinct:
  assumes "otel_from_env sdk env = Inr s"
  shows "distinct (map fst (shard_attrs s sh))"
  by (auto simp: otel_from_env_fields(1) [OF assms] base_dimensions_def shard_attrs_def split: option.splits)

lemma shard_series_distinct:
  assumes "otel_from_env sdk env = Inr s" "set (shard_attrs s a) = set (shard_attrs s b)"
  shows "a = b"
proof -
  have "map_of (shard_attrs s a) = map_of (shard_attrs s b)"
    using assms(2) dimensions_distinct [OF assms(1)] by (metis map_of_inject_set)
  moreover have "map_of (shard_attrs s x) ''shard_id'' = Some x" for x
    using dimensions_distinct [OF assms(1), of x]
    by (auto simp: shard_attrs_def map_add_Some_iff map_of_eq_None_iff)
  ultimately show ?thesis by (metis option.inject)
qed

lemma added_sums:
  assumes "distinct [ot_records s, ot_bytes s, ot_shard_ends s, ot_lease_lost s]"
  shows "sum_list (map (added s (ot_records s)) reps) = of_nat (length (concat (reported reps)))"
    "sum_list (map (added s (ot_bytes s)) reps) = of_nat (sum_list (map (length \<circ> rec_data) (concat (reported reps))))"
    "sum_list (map (added s (ot_shard_ends s)) reps) = of_nat (count_list reps REnded)"
    "sum_list (map (added s (ot_lease_lost s)) reps) = of_nat (count_list reps RLost)"
    "i \<notin> {ot_records s, ot_bytes s, ot_shard_ends s, ot_lease_lost s} \<Longrightarrow> sum_list (map (added s i) reps) = 0"
proof (induction reps)
  case (Cons r reps)
  {
    case 1
    with Cons.IH(1) assms show ?case by (cases r) (auto simp: reported_def)
  next
    case 2
    with Cons.IH(2) assms show ?case by (cases r) (auto simp: reported_def comp_def)
  next
    case 3
    with Cons.IH(3) assms show ?case by (cases r) (auto simp: reported_def)
  next
    case 4
    with Cons.IH(4) assms show ?case by (cases r) (auto simp: reported_def)
  next
    case 5
    with Cons.IH(5) assms show ?case by (cases r) auto
  }
qed (simp_all add: reported_def)

section \<open>The sink does not influence the task\<close>


text \<open>
  \<open>B\<close> does on the image of a state what \<open>A\<close> does on the state, for the calls of a task.
\<close>

definition task_image :: "('a \<Rightarrow> 'b) \<Rightarrow> 'a fleet_ops \<Rightarrow> 'b fleet_ops \<Rightarrow> bool" where
  "task_image h A B \<longleftrightarrow>
     (\<forall>E k a. s_get_records (f_source B) (h E) k a = map_prod h id (s_get_records (f_source A) E k a)) \<and>
     (\<forall>E k rs. c_deliver (f_factory B) (h E) k rs = map_prod h id (c_deliver (f_factory A) E k rs)) \<and>
     (\<forall>E k. c_shard_ended (f_factory B) (h E) k = map_prod h id (c_shard_ended (f_factory A) E k)) \<and>
     (\<forall>E k. c_lease_lost (f_factory B) (h E) k = map_prod h id (c_lease_lost (f_factory A) E k)) \<and>
     (\<forall>E k ow c q. l_checkpoint (f_leases B) (h E) k ow c q = map_prod h id (l_checkpoint (f_leases A) E k ow c q)) \<and>
     (\<forall>E k ow c. l_mark_complete (f_leases B) (h E) k ow c = map_prod h id (l_mark_complete (f_leases A) E k ow c)) \<and>
     (\<forall>E. rt_now (f_runtime B) (h E) = map_prod h id (rt_now (f_runtime A) E)) \<and>
     (\<forall>E sm. on_batch (f_metrics B) (h E) sm = h (on_batch (f_metrics A) E sm)) \<and>
     (\<forall>E k. on_shard_end (f_metrics B) (h E) k = h (on_shard_end (f_metrics A) E k)) \<and>
     (\<forall>E k. on_lease_lost (f_metrics B) (h E) k = h (on_lease_lost (f_metrics A) E k))"

lemma lease_lost_image: "task_image h A B \<Longrightarrow> lease_lost_exit B sh (h E) = h (lease_lost_exit A sh E)"
  by (simp add: task_image_def lease_lost_exit_def)

lemma handle_ack_image:
  assumes "task_image h A B"
  shows "handle_ack B task c a d (h E) = map_prod h id (handle_ack A task c a d E)"
  using assms lease_lost_image [OF assms]
  by (auto simp: task_image_def handle_ack_def Let_def split: option.splits prod.splits sum.splits)

lemma deliver_batch_image:
  assumes "task_image h A B"
  shows "deliver_batch B task c b d (h E) = map_prod h id (deliver_batch A task c b d E)"
  using assms handle_ack_image [OF assms]
  by (auto simp: task_image_def deliver_batch_def Let_def split: option.splits prod.splits sum.splits)

lemma finish_shard_image:
  assumes "task_image h A B"
  shows "finish_shard B task c d (h E) = map_prod h id (finish_shard A task c d E)"
  using assms lease_lost_image [OF assms]
  by (auto simp: task_image_def finish_shard_def Let_def split: option.splits prod.splits sum.splits)

lemma task_turn_image:
  assumes "task_image h A B"
  shows "task_turn B task vars d (h E) = map_prod h id (task_turn A task vars d E)"
proof -
  have "s_get_records (f_source B) (h E) k a = map_prod h id (s_get_records (f_source A) E k a)" for E k a
    using assms by (simp add: task_image_def)
  with deliver_batch_image [OF assms] finish_shard_image [OF assms] show ?thesis
    by (auto simp: task_turn_def Let_def split: prod.splits sum.splits)
qed

lemma process_shard_image:
  assumes "task_image h A B" "process_shard A task d E = Some (E', d', res)"
  shows "process_shard B task d (h E) = Some (h E', d', res)"
proof -
  let ?I = "\<lambda>vars d1 E1. task_loop B task (task_start task d) d (h E) = task_loop B task vars d1 (h E1)"
  show ?thesis unfolding process_shard_def
  proof (rule task_loop_inv [where I = ?I and F = "\<lambda>E1 d1 r. task_loop B task (task_start task d) d (h E) = Some (h E1, d1, r)"])
    show "task_loop A task (task_start task d) d E = Some (E', d', res)" using assms(2) by (simp add: process_shard_def)
    show "?I (task_start task d) d E" by simp
  next
    fix vars d1 E1 E2 d2 vars'
    assume "?I vars d1 E1" "task_turn A task vars d1 E1 = (E2, d2, Inr vars')"
    with task_turn_image [OF assms(1), of task vars d1 E1] show "?I vars' d2 E2"
      by (simp add: task_loop.simps [of B task vars d1 "h E1"])
  next
    fix vars d1 E1 E2 d2 r
    assume "?I vars d1 E1" "task_turn A task vars d1 E1 = (E2, d2, Inl r)"
    with task_turn_image [OF assms(1), of task vars d1 E1] show "task_loop B task (task_start task d) d (h E) = Some (h E2, d2, r)"
      by (simp add: task_loop.simps [of B task vars d1 "h E1"])
  qed
qed

lemma metered_image:
  "task_image (\<lambda>E. (fst (fst E), snd E)) (traced_ops (metered_ops M ops)) (traced_ops (ops\<lparr>f_metrics := noop_sink\<rparr>))"
  by (auto simp: task_image_def traced_ops_def traced_defs metered_ops_def metered_leases_def metered_sink_def noop_sink_def
      traced_def untraced_def beside_def metered_def Let_def split: prod.splits)


text \<open>A meter that remembers what was added, and an SDK that builds every exporter.\<close>

type_synonym sim_meter_state = "(instrument \<times> KeyValues \<times> u64) list"

definition sim_meter :: "sim_meter_state meter_api" where
  "sim_meter = \<lparr>counter_add = (\<lambda>m i v a. (i, a, v) # m), gauge_u64 = (\<lambda>m i n a. m), gauge_i64 = (\<lambda>m i n a. m)\<rparr>"

definition sim_total :: "sim_meter_state \<Rightarrow> instrument \<Rightarrow> KeyValues \<Rightarrow> u64" where
  "sim_total m i b = sum_list (map (\<lambda>(j, a, v). if j = i \<and> set a = set b then v else 0) m)"

interpretation sim_otel: otel_meter sim_meter sim_total
  by unfold_locales (auto simp: sim_meter_def sim_total_def)

definition sim_sdk :: "(unit, unit, KeyValues) otel_sdk" where
  "sim_sdk =
     \<lparr>url_host = (\<lambda>u. Some ''localhost''), aws_region = None, aws_credentials = None, exporter_build = (\<lambda>cl ep. Inr ()),
      resource_default = [], resource_merge = (\<lambda>r kvs. kvs @ r)\<rparr>"

definition sim_otel_env :: env_vars where
  "sim_otel_env = [''OTEL_METRICS_EXPORTER'' \<mapsto> ''otlp'', ''DDB_STREAMS_CONSUMER_OWNER'' \<mapsto> ''w1'']"

definition sim_sink :: "(unit, KeyValues) OtelMetricsSink" where
  "sim_sink = otel_instruments
     \<lparr>pr_exporter = (), pr_interval_ms = 10000, pr_resource = [(''service.namespace'', ''DynamoDBStreamsConsumer'')]\<rparr>
     [(''worker'', ''w1'')]"

lemma sim_sink_built: "otel_from_env sim_sdk sim_otel_env = Inr sim_sink"
proof -
  have "base_dimensions sim_otel_env = [(''worker'', ''w1'')]"
    "otel_resource sim_sdk sim_otel_env = [(''service.namespace'', ''DynamoDBStreamsConsumer'')]"
    "opt_u64 sim_otel_env ''OTEL_METRIC_EXPORT_INTERVAL'' 10000 = 10000"
    by (simp_all add: base_dimensions_def sim_otel_env_def otel_resource_def sim_sdk_def opt_u64_def)
  moreover have "exporter_build sim_sdk cl ep = Inr ()" for cl ep by (simp add: sim_sdk_def)
  ultimately show ?thesis by (simp only: otel_from_env_def Let_def sum.case sim_sink_def)
qed

lemma metered_fake_pass:
  obtains e' m' where "process_shard (traced_ops (metered_ops (otel_sink sim_meter sim_sink) fake_ops)) fake_task None ((fake_env, []), []) =
    Some (((e', m'), fake_trace), None, Inr Ended)"
proof -
  have "map_option (\<lambda>((e', tr), d, r). (tr, d = None, r))
      (process_shard (traced_ops (metered_ops (otel_sink sim_meter sim_sink) fake_ops)) fake_task None ((fake_env, []), [])) =
    Some (fake_trace, True, Inr Ended)"
    by (simp only: process_shard_def, subst task_loop.simps, code_simp)
  with that show ?thesis by auto
qed


section \<open>Endpoint and transport\<close>

text \<open>The endpoint names the metrics path, and is left alone when it already does.\<close>

lemma ends_with_append: "ends_with p (s @ p)"
  by (simp add: ends_with_def)

lemma metrics_endpoint_path: "ends_with ''/v1/metrics'' (metrics_endpoint e)"
  "metrics_endpoint (metrics_endpoint e) = metrics_endpoint e"
proof -
  show p: "ends_with ''/v1/metrics'' (metrics_endpoint e)" for e
    by (cases "ends_with ''/v1/metrics'' e") (simp_all only: metrics_endpoint_def ends_with_append if_True if_False)
  show "metrics_endpoint (metrics_endpoint e) = metrics_endpoint e"
    using p [of e] by (simp only: metrics_endpoint_def [of "metrics_endpoint e"] if_True)
qed

text \<open>A trailing slash after the metrics path repeats the path.\<close>

lemma endpoint_path_doubled: "metrics_endpoint ''h/v1/metrics/'' = ''h/v1/metrics/v1/metrics''"
  by code_simp

text \<open>Any value of the variable attaches the sink.\<close>

lemma exporter_none_attaches:
  assumes "env ''OTEL_METRICS_EXPORTER'' = Some ''none''" "otel_from_env sdk env = Inr s"
  shows "attach_metrics sdk as_sink env (ops, fleet) = ((ops\<lparr>f_metrics := as_sink s\<rparr>, fleet), Some s)"
  using assms by (simp add: attach_metrics_def with_metrics_def)

text \<open>A sink that cannot be built, or is not asked for, leaves the sidecar as it is.\<close>

lemma no_sink_no_change:
  assumes "env ''OTEL_METRICS_EXPORTER'' = None \<or> otel_from_env sdk env = Inl err"
  shows "sidecar_run_otel sdk as_sink force_flush env ord ipc acts cfg fleet = sidecar_run ord ipc acts cfg fleet"
  using assms by (auto simp: sidecar_run_otel_def attach_metrics_def flush_before_shutdown_def fun_eq_iff split: option.splits)

text \<open>A request to sign is sent with the signature, or not at all.\<close>

lemma sign_headers_cases:
  assumes "sign_headers api cl meth uri hs body e = (e1, r)"
  obtains err where "r = Inl err" | ad where "r = Inr (hs @ ad)" "\<exists>g p. sign_request api g p = Inr ad \<and> signable_request api meth uri hs body = Inr g"
  using assms by (auto simp: sign_headers_def Let_def split: option.splits prod.splits sum.splits dest!: sym [of "Inl _"])

lemma signed_or_not_sent:
  assumes "sv_sign cl"
  shows "(\<exists>e1 err. sign_headers api cl (rq_method rq) (rq_uri rq) (readable_headers api (rq_headers rq)) (rq_body rq) e = (e1, Inl err) \<and>
      sigv4_send api cl rq e = (e1, Inl err)) \<or>
    (\<exists>e1 ad g p e2 r. sign_headers api cl (rq_method rq) (rq_uri rq) (readable_headers api (rq_headers rq)) (rq_body rq) e =
        (e1, Inr (readable_headers api (rq_headers rq) @ ad)) \<and>
      signable_request api (rq_method rq) (rq_uri rq) (readable_headers api (rq_headers rq)) (rq_body rq) = Inr g \<and> sign_request api g p = Inr ad \<and>
      http_send api e1 (rq\<lparr>rq_headers := readable_headers api (rq_headers rq) @ ad\<rparr>) = (e2, r) \<and>
      (\<forall>err. r = Inl err \<longrightarrow> sigv4_send api cl rq e = (e2, Inl err)))"
proof -
  let ?hs = "readable_headers api (rq_headers rq)"
  obtain e1 r where s: "sign_headers api cl (rq_method rq) (rq_uri rq) ?hs (rq_body rq) e = (e1, r)" by fastforce
  from s show ?thesis
  proof (cases rule: sign_headers_cases)
    case (1 err)
    with s assms show ?thesis by (auto simp: sigv4_send_def Let_def)
  next
    case (2 ad)
    obtain e2 r2 where "http_send api e1 (rq\<lparr>rq_headers := ?hs @ ad\<rparr>) = (e2, r2)" by fastforce
    with 2 s assms show ?thesis by (auto simp: sigv4_send_def Let_def)
  qed
qed

lemma no_credentials_not_sent:
  assumes "sv_sign cl" "sv_creds cl = None"
  shows "sigv4_send api cl rq e = (e, Inl ''no AWS credentials provider for SigV4'')"
  using assms by (simp add: sigv4_send_def sign_headers_def Let_def)

end
