(* ===== verification/Live_Pass.thy ===== *)
theory Live_Pass
  imports Telemetry
begin

text \<open>
  The shard task on the live source: \<open>worker/src/aws.rs\<close> makes \<open>DdbStreamsSource\<close> the source of a worker.
  The state of the stream and the cursors of the source stand beside the state of the lease table
  and the application.

  Shown: a whole pass over a shard loses no record, and a shard that is marked complete was read to
  the end of its closed history.
\<close>

section \<open>The live source behind the worker's trait\<close>

text \<open>
  The trait's methods forward to the source. A description pages through the stream and may not
  return; what the trait's method does is fixed where it does.
\<close>

definition forwards :: "'e DdbStreamsSource \<Rightarrow> ('x \<times> 'e src_state) AsyncStreamSource \<Rightarrow> bool" where
  "forwards src S \<longleftrightarrow>
     (\<forall>x e cs e' r. describe_shards src e = Some (e', r) \<longrightarrow> s_describe_shards S (x, (e, cs)) = ((x, (e', cs)), r)) \<and>
     (\<forall>x st sh a. s_get_records S (x, st) sh a = (let (st', r) = get_records src sh a st in ((x, st'), r))) \<and>
     (\<forall>x e cs p e' r. describe_child_shards src p e = Some (e', r) \<longrightarrow> s_describe_child_shards S (x, (e, cs)) p = ((x, (e', cs)), r))"

text \<open>The other calls of a task leave stream and cursors alone.\<close>

definition off_stream :: "('x \<times> 's) fleet_ops \<Rightarrow> bool" where
  "off_stream ops \<longleftrightarrow>
     (\<forall>S k rs. snd (fst (c_deliver (f_factory ops) S k rs)) = snd S) \<and>
     (\<forall>S k. snd (fst (c_shard_ended (f_factory ops) S k)) = snd S) \<and>
     (\<forall>S k. snd (fst (c_lease_lost (f_factory ops) S k)) = snd S) \<and>
     (\<forall>S k ow c q. snd (fst (l_checkpoint (f_leases ops) S k ow c q)) = snd S) \<and>
     (\<forall>S k ow c. snd (fst (l_mark_complete (f_leases ops) S k ow c)) = snd S) \<and>
     (\<forall>S. snd (fst (rt_now (f_runtime ops) S)) = snd S) \<and>
     (\<forall>S sm. snd (on_batch (f_metrics ops) S sm) = snd S) \<and>
     (\<forall>S k. snd (on_shard_end (f_metrics ops) S k) = snd S) \<and>
     (\<forall>S k. snd (on_lease_lost (f_metrics ops) S k) = snd S)"

section \<open>One turn\<close>

fun completes :: "event \<Rightarrow> bool" where
  "completes (EvMarkComplete k w c r) = True"
| "completes _ = False"

text \<open>What a pass has done: the stream's state, the deliveries, whether the shard was marked complete.\<close>

definition progress :: "('x \<times> 's) traced \<Rightarrow> 's \<times> Record list list \<times> bool" where
  "progress E = (snd (fst E), delivered (snd E), list_ex completes (snd E))"

lemma traced_progress:
  assumes "traced ev f E = (E', r)" and "\<And>S. snd (fst (f S)) = snd S"
  shows "progress E' = (snd (fst E), delivered (snd E) @ delivered_of (ev r), list_ex completes (snd E) \<or> completes (ev r))"
  using assms(1) assms(2) [of "fst E"] by (auto simp: progress_def traced_def Let_def split: prod.splits)

lemma off_streamD:
  assumes "off_stream ops"
  shows "snd (fst (c_deliver (f_factory ops) S k rs)) = snd S" "snd (fst (c_shard_ended (f_factory ops) S k)) = snd S"
    "snd (fst (c_lease_lost (f_factory ops) S k)) = snd S" "snd (fst (l_checkpoint (f_leases ops) S k ow c q)) = snd S"
    "snd (fst (l_mark_complete (f_leases ops) S k ow c)) = snd S" "snd (fst (rt_now (f_runtime ops) S)) = snd S"
    "snd (on_batch (f_metrics ops) S sm) = snd S" "snd (on_shard_end (f_metrics ops) S k) = snd S"
    "snd (on_lease_lost (f_metrics ops) S k) = snd S"
  using assms unfolding off_stream_def by (metis+)

lemma off_stream_progress:
  assumes "off_stream ops"
  shows "l_checkpoint (f_leases (traced_ops ops)) E k ow c q = (E', r) \<Longrightarrow> progress E' = progress E"
    "c_lease_lost (f_factory (traced_ops ops)) E k = (E', u) \<Longrightarrow> progress E' = progress E"
    "c_shard_ended (f_factory (traced_ops ops)) E k = (E', u) \<Longrightarrow> progress E' = progress E"
    "c_deliver (f_factory (traced_ops ops)) E k rs = (E', a) \<Longrightarrow>
       progress E' = (snd (fst E), delivered (snd E) @ [rs], list_ex completes (snd E))"
    "l_mark_complete (f_leases (traced_ops ops)) E k ow c = (E', u) \<Longrightarrow> progress E' = (snd (fst E), delivered (snd E), True)"
    "rt_now (f_runtime (traced_ops ops)) E = (E', n) \<Longrightarrow> progress E' = progress E"
    "progress (on_batch (f_metrics (traced_ops ops)) E sm) = progress E"
    "progress (on_shard_end (f_metrics (traced_ops ops)) E k) = progress E"
    "progress (on_lease_lost (f_metrics (traced_ops ops)) E k) = progress E"
proof -
  note o = off_streamD [OF assms]
  show "l_checkpoint (f_leases (traced_ops ops)) E k ow c q = (E', r) \<Longrightarrow> progress E' = progress E"
    by (simp add: traced_progress [OF _ o(4)] progress_def [of E])
  show "c_lease_lost (f_factory (traced_ops ops)) E k = (E', u) \<Longrightarrow> progress E' = progress E"
    by (simp add: traced_progress [OF _ o(3)] progress_def [of E])
  show "c_shard_ended (f_factory (traced_ops ops)) E k = (E', u) \<Longrightarrow> progress E' = progress E"
    by (simp add: traced_progress [OF _ o(2)] progress_def [of E])
  show "c_deliver (f_factory (traced_ops ops)) E k rs = (E', a) \<Longrightarrow>
      progress E' = (snd (fst E), delivered (snd E) @ [rs], list_ex completes (snd E))"
    by (simp add: traced_progress [OF _ o(1)])
  show "l_mark_complete (f_leases (traced_ops ops)) E k ow c = (E', u) \<Longrightarrow> progress E' = (snd (fst E), delivered (snd E), True)"
    by (simp add: traced_progress [OF _ o(5)])
  show "rt_now (f_runtime (traced_ops ops)) E = (E', n) \<Longrightarrow> progress E' = progress E"
    "progress (on_batch (f_metrics (traced_ops ops)) E sm) = progress E"
    "progress (on_shard_end (f_metrics (traced_ops ops)) E k) = progress E"
    "progress (on_lease_lost (f_metrics (traced_ops ops)) E k) = progress E"
    using o(6) [of "fst E"] o(7-9)
    by (auto simp: progress_def traced_ops_def carried_metrics_def carried_runtime_def untraced_def Let_def split: prod.splits)
qed

lemma lease_lost_progress: "off_stream ops \<Longrightarrow> progress (lease_lost_exit (traced_ops ops) sh E) = progress E"
  unfolding lease_lost_exit_def by (metis off_stream_progress(2,9) prod.collapse)

lemma persists_progress: "off_stream ops \<Longrightarrow> persists (traced_ops ops) task a d E E1 upd d' \<Longrightarrow> progress E1 = progress E"
  by (auto simp: persists_def simp del: traced_ops_simps dest: off_stream_progress(6) split: option.splits)

lemma handle_ack_progress:
  assumes "off_stream ops" "handle_ack (traced_ops ops) task c ack d E = (E', d', r)"
  shows "progress E' = progress E"
  using assms(2)
  by (cases rule: handle_ack_cases)
     (auto simp: lease_lost_progress [OF assms(1)] simp del: traced_ops_simps
       dest!: off_stream_progress(1,6) [OF assms(1)] persists_progress [OF assms(1)])

lemma deliver_batch_progress:
  assumes "off_stream ops" "deliver_batch (traced_ops ops) task c b d E = (E', d', r)"
  shows "progress E' = (snd (fst E), delivered (snd E) @ [batch_records b], list_ex completes (snd E))"
  using assms(2)
  by (cases rule: deliver_batch_cases)
     (auto simp: off_stream_progress(7) [OF assms(1)] simp del: traced_ops_simps
       dest!: off_stream_progress(4) [OF assms(1)] handle_ack_progress [OF assms(1)])

lemma close_shard_progress:
  assumes "off_stream ops"
  shows "progress (close_shard (traced_ops ops) task c E) = (snd (fst E), delivered (snd E), True)"
proof -
  obtain E1 u where 1: "c_shard_ended (f_factory (traced_ops ops)) E (t_shard task) = (E1, u)" by fastforce
  obtain E2 v where 2: "l_mark_complete (f_leases (traced_ops ops)) E1 (t_shard task) (t_owner task) c = (E2, v)" by fastforce
  have "close_shard (traced_ops ops) task c E = on_shard_end (f_metrics (traced_ops ops)) E2 (t_shard task)"
    using 1 2 by (simp add: close_shard_def del: traced_ops_simps)
  with off_stream_progress(3) [OF assms 1] off_stream_progress(5) [OF assms 2] off_stream_progress(8) [OF assms, of E2] show ?thesis
    by (simp add: progress_def)
qed

lemma finish_shard_progress:
  assumes "off_stream ops" "finish_shard (traced_ops ops) task c d E = (E', d', out)"
  shows "snd (fst E') = snd (fst E) \<and> delivered (snd E') = delivered (snd E)"
  using assms(2)
proof (cases rule: finish_shard_cases)
  case settled
  with close_shard_progress [OF assms(1), of task c E] show ?thesis by (simp add: progress_def)
next
  case (flushed q E1 c')
  with close_shard_progress [OF assms(1), of task c' E1] off_stream_progress(1) [OF assms(1) flushed(2)] show ?thesis
    by (simp add: progress_def)
next
  case (refused q E1 err)
  with lease_lost_progress [OF assms(1)] off_stream_progress(1) [OF assms(1) refused(2)] show ?thesis by (simp add: progress_def)
qed

lemma handled_progress:
  assumes "off_stream ops" "handled (traced_ops ops) task c b d E E' d' r"
  shows "progress E' = (snd (fst E), delivered (snd E) @ (if batch_records b = [] then [] else [batch_records b]), list_ex completes (snd E))"
  using assms deliver_batch_progress [OF assms(1)] by (auto simp: handled_def progress_def split: if_splits)

lemma task_turn_progress:
  assumes o: "off_stream ops" and f: "forwards src (f_source ops)" and t: "task_turn (traced_ops ops) task (after, c, dl) d E = (E', d', r)"
    and g: "get_records src (t_shard task) after (snd (fst E)) = (st, res)"
  shows "snd (fst E') = st \<and>
    delivered (snd E') = delivered (snd E) @ (case res of Inr b \<Rightarrow> if batch_records b = [] then [] else [batch_records b] | Inl _ \<Rightarrow> []) \<and>
    (list_ex completes (snd E') \<longrightarrow> \<not> list_ex completes (snd E) \<longrightarrow> (\<exists>b. res = Inr b \<and> batch_shard_end b)) \<and>
    (\<forall>vars'. r = Inr vars' \<longrightarrow>
      (\<exists>b. res = Inr b \<and> batch_records b \<noteq> [] \<and> \<not> batch_shard_end b \<and> fst vars' = Some (rec_seq (last (batch_records b)))))"
proof -
  obtain E1 where E1: "s_get_records (f_source (traced_ops ops)) E (t_shard task) after = (E1, res)"
    and p: "snd (fst E1) = st" "delivered (snd E1) = delivered (snd E)" "list_ex completes (snd E1) = list_ex completes (snd E)"
    using f g by (cases "fst E") (auto simp: forwards_def traced_def)
  from t show ?thesis
  proof (cases rule: task_turn_cases)
    case (fetch_failed err)
    with E1 p show ?thesis by (auto simp del: traced_ops_simps)
  next
    case (stopped E2 b out)
    with E1 p handled_progress [OF o stopped(2)] show ?thesis by (auto simp: progress_def simp del: traced_ops_simps)
  next
    case (ended E2 b E3 d2 c2 out)
    with E1 p handled_progress [OF o ended(2)] finish_shard_progress [OF o ended(4)] show ?thesis
      by (auto simp: progress_def simp del: traced_ops_simps)
  next
    case (drained b)
    with E1 p show ?thesis by (auto simp del: traced_ops_simps)
  next
    case (went_on E2 b c2)
    with E1 p handled_progress [OF o went_on(3)] show ?thesis by (auto simp: progress_def simp del: traced_ops_simps)
  qed
qed

section \<open>Coverage of the history\<close>

text \<open>
  Record \<open>i\<close> of the shard is not lost to a pass that started after \<open>start\<close> and delivered \<open>ds\<close>: it
  was trimmed, or lies at or before the start, or was delivered.
\<close>

definition accounted_for ::
  "payload_codec \<Rightarrow> 'e stream_view \<Rightarrow> 'e \<Rightarrow> string \<Rightarrow> string option \<Rightarrow> Record list list \<Rightarrow> nat \<Rightarrow> bool" where
  "accounted_for pc V e sh start ds i \<longleftrightarrow>
     i < sv_horizon V e sh \<or>
     (\<exists>j < length (sv_log V e sh). i \<le> j \<and> start = Some (rseq (sv_log V e sh ! j))) \<or>
     core_record pc sh (sv_log V e sh ! i) \<in> set (concat ds)"

text \<open>
  The deliveries \<open>ds\<close> left no gap: everything up to any delivered record is accounted for.
\<close>

definition covered ::
  "payload_codec \<Rightarrow> 'e stream_view \<Rightarrow> 'e \<Rightarrow> string \<Rightarrow> string option \<Rightarrow> Record list list \<Rightarrow> bool" where
  "covered pc V e sh start ds \<longleftrightarrow> [] \<notin> set ds \<and>
     (\<forall>r \<in> set (concat ds). \<exists>j < length (sv_log V e sh). r = core_record pc sh (sv_log V e sh ! j) \<and>
        (\<forall>i \<le> j. accounted_for pc V e sh start ds i))"

text \<open>Sequence numbers are unique within a shard, and none is the sentinel of the tip.\<close>

definition sequenced :: "'e stream_view \<Rightarrow> 'e \<Rightarrow> string \<Rightarrow> bool" where
  "sequenced V e sh \<longleftrightarrow> distinct (map rseq (sv_log V e sh)) \<and> SENTINEL_LATEST \<notin> rseq ` set (sv_log V e sh)"

context streams_service
begin

lemma accounted_for_mono:
  assumes "accounted_for pc V e sh start ds i" "i < length (sv_log V e sh)" "grows V e e'" "set (concat ds) \<subseteq> set (concat ds')"
  shows "accounted_for pc V e' sh start ds' i"
proof -
  obtain t where t: "sv_log V e' sh = sv_log V e sh @ t" "sv_horizon V e sh \<le> sv_horizon V e' sh"
    using assms(3) by (rule growsD [where sh = sh])
  have "\<exists>j < length (sv_log V e' sh). i \<le> j \<and> start = Some (rseq (sv_log V e' sh ! j))"
    if "j < length (sv_log V e sh)" "i \<le> j" "start = Some (rseq (sv_log V e sh ! j))" for j
    using that by (intro exI [of _ j]) (simp add: t nth_append)
  with assms(1,2,4) t show ?thesis unfolding accounted_for_def by (auto simp: nth_append)
qed

lemma covered_mono:
  assumes "covered pc V e sh start ds" "grows V e e'"
  shows "covered pc V e' sh start ds"
proof -
  obtain t where t: "sv_log V e' sh = sv_log V e sh @ t" using assms(2) by (rule growsD [where sh = sh])
  have "\<exists>j < length (sv_log V e' sh). r = core_record pc sh (sv_log V e' sh ! j) \<and> (\<forall>i \<le> j. accounted_for pc V e' sh start ds i)"
    if "j < length (sv_log V e sh)" "r = core_record pc sh (sv_log V e sh ! j)" "\<forall>i \<le> j. accounted_for pc V e sh start ds i" for r j
    using that accounted_for_mono [OF _ _ assms(2), of pc sh start ds _ ds] by (intro exI [of _ j]) (auto simp: t nth_append)
  with assms(1) show ?thesis unfolding covered_def by metis
qed

lemma sequenced_earlier:
  assumes "sequenced V e' sh" "grows V e e'"
  shows "sequenced V e sh"
  using assms(1) growsD [OF assms(2), of sh] by (metis (no_types, lifting) Un_iff distinct_append image_Un map_append sequenced_def set_append)

lemma sequenced_nth:
  assumes "sequenced V e sh" "j < length (sv_log V e sh)"
  shows "rseq (sv_log V e sh ! j) \<noteq> SENTINEL_LATEST"
    "k < length (sv_log V e sh) \<Longrightarrow> rseq (sv_log V e sh ! j) = rseq (sv_log V e sh ! k) \<Longrightarrow> j = k"
proof -
  show "rseq (sv_log V e sh ! j) \<noteq> SENTINEL_LATEST"
    using assms(1) nth_mem [OF assms(2)] by (metis sequenced_def imageI)
  show "j = k" if "k < length (sv_log V e sh)" "rseq (sv_log V e sh ! j) = rseq (sv_log V e sh ! k)"
    using assms nth_eq_iff_index_eq [of "map rseq (sv_log V e sh)" j k] that by (simp add: sequenced_def)
qed

text \<open>Where the next fetch reads: at the start, or behind a delivered record.\<close>

lemma covered_position:
  assumes "covered pc V e sh start ds"
  obtains "resume_after start ds = start"
    | j where "j < length (sv_log V e sh)" "resume_after start ds = Some (rseq (sv_log V e sh ! j))" "\<forall>i \<le> j. accounted_for pc V e sh start ds i"
proof (cases "ds = []")
  case False
  then have "last ds \<in> set ds" by simp
  moreover from this have "last ds \<noteq> []" using assms by (metis covered_def)
  then have "last (last ds) \<in> set (last ds)" by simp
  ultimately have "last (last ds) \<in> set (concat ds)" unfolding set_concat by blast
  with assms obtain j where "j < length (sv_log V e sh)" "last (last ds) = core_record pc sh (sv_log V e sh ! j)"
    "\<forall>i \<le> j. accounted_for pc V e sh start ds i" unfolding covered_def by blast
  with that(2) False show ?thesis by (simp add: resume_after_def core_record_def)
qed (use that(1) in \<open>simp add: resume_after_def\<close>)

text \<open>Everything before a position that continues from where the pass stands is accounted for.\<close>

lemma before_accounted:
  assumes q: "sequenced V e sh" and h: "covered pc V e sh start ds" and s: "start \<noteq> Some SENTINEL_LATEST"
    and n: "no_gap V e sh (resume_after start ds) n" "i < n"
  shows "accounted_for pc V e sh start ds i"
  using h
proof (cases rule: covered_position)
  case 1
  with n s show ?thesis by (auto simp: no_gap_def accounted_for_def)
next
  case (2 k)
  then have "resume_after start ds \<noteq> Some SENTINEL_LATEST" using sequenced_nth(1) [OF q] by auto
  with n consider "i < sv_horizon V e sh" | j where "j < length (sv_log V e sh)" "i \<le> j" "resume_after start ds = Some (rseq (sv_log V e sh ! j))"
    by (auto simp: no_gap_def)
  then show ?thesis
  proof cases
    case (2 j)
    with \<open>resume_after start ds = Some (rseq (sv_log V e sh ! k))\<close> \<open>k < _\<close> have "k = j" using sequenced_nth(2) [OF q] by auto
    with \<open>\<forall>i \<le> k. _ i\<close> 2 show ?thesis by simp
  qed (simp add: accounted_for_def)
qed

lemma read_covers:
  assumes q: "sequenced V e' sh" and h: "covered (src_codec src) V e sh start ds" and s: "start \<noteq> Some SENTINEL_LATEST"
    and c: "cursors_ok V e cs" and g: "get_records src sh (resume_after start ds) (e, cs) = ((e', cs'), Inr b)"
  defines "ds' \<equiv> ds @ (if batch_records b = [] then [] else [batch_records b])"
  shows "covered (src_codec src) V e' sh start ds' \<and>
    (batch_shard_end b \<longrightarrow> sv_closed V e' sh \<and> (\<forall>i < length (sv_log V e' sh). accounted_for (src_codec src) V e' sh start ds' i))"
proof -
  let ?pc = "src_codec src" and ?log = "sv_log V e' sh" and ?rs = "batch_records b"
  note h' = covered_mono [OF h get_records_grows [OF g]]
  obtain n where n: "no_gap V e' sh (resume_after start ds) n"
    and b: "?rs = map (core_record ?pc sh) (take (length ?rs) (drop n ?log))"
    and en: "batch_shard_end b \<longrightarrow> sv_closed V e' sh \<and> n + length ?rs = length ?log"
    using get_records_spec [OF c g] by blast
  have len: "n + length ?rs \<le> length ?log"
    using arg_cong [OF b, of length] n by (auto simp: no_gap_def min_def split: if_splits)
  have nth: "?rs ! k = core_record ?pc sh (?log ! (n + k))" if "k < length ?rs" for k
    using that len by (subst b) simp
  have more: "accounted_for ?pc V e' sh start ds' i" if "accounted_for ?pc V e' sh start ds i" "i < length ?log" for i
    using accounted_for_mono [OF that grows_refl, of ds'] by (simp add: ds'_def)
  have acc: "accounted_for ?pc V e' sh start ds' i" if "i < n + length ?rs" for i
  proof (cases "i < n")
    case True
    with more [OF before_accounted [OF q h' s n True]] len show ?thesis by simp
  next
    case False
    with that nth [of "i - n"] have "core_record ?pc sh (?log ! i) = ?rs ! (i - n)" "i - n < length ?rs" by simp_all
    moreover from this(2) have "?rs \<noteq> []" by auto
    ultimately show ?thesis unfolding accounted_for_def ds'_def by simp
  qed
  have old: "\<exists>j < length ?log. r = core_record ?pc sh (?log ! j) \<and> (\<forall>i \<le> j. accounted_for ?pc V e' sh start ds' i)" if "r \<in> set (concat ds)" for r
    using h' that more unfolding covered_def by (meson le_less_trans)
  have new: "\<exists>j < length ?log. r = core_record ?pc sh (?log ! j) \<and> (\<forall>i \<le> j. accounted_for ?pc V e' sh start ds' i)" if r: "r \<in> set ?rs" for r
  proof -
    from r obtain k where "k < length ?rs" "r = ?rs ! k" by (metis in_set_conv_nth)
    with nth [of k] acc len show ?thesis by (intro exI [of _ "n + k"]) auto
  qed
  have "r \<in> set (concat ds) \<or> r \<in> set ?rs" if "r \<in> set (concat ds')" for r using that by (auto simp: ds'_def split: if_splits)
  moreover have "[] \<notin> set ds'" using h' by (auto simp: covered_def ds'_def)
  ultimately have "covered ?pc V e' sh start ds'" using old new unfolding covered_def by blast
  with acc en show ?thesis by auto
qed

end

section \<open>A pass, turn by turn\<close>

text \<open>
  The states of a pass at the head of its loop. A pass that is cut short, by a crash or because it
  never ends, is in such a state or in the turn after it.
\<close>

inductive task_at ::
  "'e fleet_ops \<Rightarrow> ShardTask \<Rightarrow> CkptDefer option \<Rightarrow> 'e \<Rightarrow> loop_vars \<Rightarrow> CkptDefer option \<Rightarrow> 'e \<Rightarrow> bool"
  for ops task "defer" e0 where
  start: "task_at ops task defer e0 (task_start task defer) defer e0"
| turn: "task_at ops task defer e0 vars d e \<Longrightarrow> task_turn ops task vars d e = (e', d', Inr vars') \<Longrightarrow>
    task_at ops task defer e0 vars' d' e'"

lemma process_shard_last_turn:
  assumes "process_shard ops task defer e0 = Some (e', d', res)"
  obtains vars d e where "task_at ops task defer e0 vars d e" "task_turn ops task vars d e = (e', d', Inl res)"
proof -
  let ?F = "\<lambda>e' d' res. \<exists>vars d e. task_at ops task defer e0 vars d e \<and> task_turn ops task vars d e = (e', d', Inl res)"
  have "?F e' d' res"
  proof (rule task_loop_inv [where I = "task_at ops task defer e0" and F = ?F])
    show "task_loop ops task (task_start task defer) defer e0 = Some (e', d', res)" using assms by (simp add: process_shard_def)
  qed (blast intro: task_at.intros)+
  with that show ?thesis by blast
qed

lemma task_at_spec:
  assumes "task_at (traced_ops ops) task defer (e, []) vars d E"
  shows "\<exists>s. spec_run (t_shard task) (t_owner task) (spec_start task defer) (snd E) = Some s \<and> at_head task vars d s"
  using assms
proof induction
  case start
  show ?case by (auto simp: at_head_def spec_start_def may_fetch_def task_start_def)
next
  case (turn vars d E E' d' vars')
  then show ?case using task_turn_spec [OF turn.hyps(2)] by (fastforce simp: spec_run_append)
qed

text \<open>What holds at the head of the loop, and after a turn that marked the shard complete.\<close>

definition pass_at :: "payload_codec \<Rightarrow> 'e stream_view \<Rightarrow> string \<Rightarrow> string option \<Rightarrow> ('x \<times> 'e src_state) traced \<Rightarrow> bool" where
  "pass_at pc V sh start E \<longleftrightarrow>
     (let (e, cs) = snd (fst E) in
      cursors_ok V e cs \<and> (sequenced V e sh \<longrightarrow> covered pc V e sh start (delivered (snd E))))"

definition pass_done :: "payload_codec \<Rightarrow> 'e stream_view \<Rightarrow> string \<Rightarrow> string option \<Rightarrow> ('x \<times> 'e src_state) traced \<Rightarrow> bool" where
  "pass_done pc V sh start E \<longleftrightarrow>
     (let e = fst (snd (fst E)) in
      sequenced V e sh \<longrightarrow> list_ex completes (snd E) \<longrightarrow>
      sv_closed V e sh \<and> (\<forall>i < length (sv_log V e sh). accounted_for pc V e sh start (delivered (snd E)) i))"

lemma pass_turn:
  assumes svc: "streams_service src V" and f: "forwards src (f_source ops)" and o: "off_stream ops" and s: "start \<noteq> Some SENTINEL_LATEST"
    and i: "pass_at (src_codec src) V (t_shard task) start E" "fst vars = resume_after start (delivered (snd E))" "\<not> list_ex completes (snd E)"
    and t: "task_turn (traced_ops ops) task vars d E = (E', d', r)"
  shows "pass_at (src_codec src) V (t_shard task) start E'" "pass_done (src_codec src) V (t_shard task) start E'"
    "grows V (fst (snd (fst E))) (fst (snd (fst E')))"
    "r = Inr vars' \<Longrightarrow> fst vars' = resume_after start (delivered (snd E')) \<and> \<not> list_ex completes (snd E')"
proof -
  let ?sh = "t_shard task" and ?pc = "src_codec src"
  obtain ct dl where v: "vars = (resume_after start (delivered (snd E)), ct, dl)" using i(2) by (cases vars) auto
  obtain e0 c0 where st: "snd (fst E) = (e0, c0)" by fastforce
  obtain e1 c1 g where g: "get_records src ?sh (resume_after start (delivered (snd E))) (e0, c0) = ((e1, c1), g)" by (metis prod.exhaust)
  note n = task_turn_progress [OF o f t [unfolded v] g [folded st]] and gr = streams_service.get_records_grows [OF svc g]
  have h: "cursors_ok V e0 c0" "sequenced V e1 ?sh \<Longrightarrow> covered ?pc V e0 ?sh start (delivered (snd E))"
    using i(1) st streams_service.sequenced_earlier [OF svc _ gr] by (auto simp: pass_at_def)
  have c1: "cursors_ok V e1 c1" using streams_service.get_records_spec [OF svc h(1) g] by blast
  have b: "covered ?pc V e1 ?sh start (delivered (snd E')) \<and> (\<forall>b. g = Inr b \<and> batch_shard_end b \<longrightarrow>
      sv_closed V e1 ?sh \<and> (\<forall>i < length (sv_log V e1 ?sh). accounted_for ?pc V e1 ?sh start (delivered (snd E')) i))" if q: "sequenced V e1 ?sh"
  proof (cases g)
    case (Inl err)
    with n streams_service.covered_mono [OF svc h(2) [OF q] gr] show ?thesis by simp
  next
    case (Inr b)
    with streams_service.read_covers [OF svc q h(2) [OF q] s h(1) g [unfolded Inr]] n show ?thesis by simp
  qed
  show "pass_at ?pc V ?sh start E'" using b c1 n by (simp add: pass_at_def)
  show "pass_done ?pc V ?sh start E'" using b n i(3) by (auto simp: pass_done_def)
  show "grows V (fst (snd (fst E))) (fst (snd (fst E')))" using gr n st by simp
  show "fst vars' = resume_after start (delivered (snd E')) \<and> \<not> list_ex completes (snd E')" if "r = Inr vars'"
    using n i(3) that by auto
qed

lemma pass_reaches:
  assumes svc: "streams_service src V" and f: "forwards src (f_source ops)" and o: "off_stream ops"
    and c: "cursors_ok V e cs" and s: "start = fst (task_start task defer)" "start \<noteq> Some SENTINEL_LATEST"
    and t: "task_at (traced_ops ops) task defer ((x, (e, cs)), []) vars d E"
  shows "pass_at (src_codec src) V (t_shard task) start E \<and> fst vars = resume_after start (delivered (snd E)) \<and> \<not> list_ex completes (snd E)"
  using t
proof induction
  case start
  show ?case using c s by (simp add: pass_at_def covered_def resume_after_def delivered_def)
next
  case (turn vars d E E' d' vars')
  with pass_turn [OF svc f o s(2) _ _ _ turn.hyps(2)] show ?case by blast
qed

section \<open>A pass on the live source\<close>

text \<open>
  A pass over a shard on the live source loses no record, however often the iterators
  expire, requests are throttled, or the pass is cut short: every record up to the last delivered one was
  delivered in this pass, or trimmed by the service, or lies at or before the position the pass
  started from (the pending acknowledgement, or the checkpoint of the lease). When the shard is
  marked complete it is closed and this holds of every record of its history. The position
  is not the tip of the stream; the sequence numbers of a shard are unique; lease store, consumer and clock leave the
  stream alone.
\<close>

lemma pass_loses_no_record:
  assumes "streams_service src V" and "sequenced V e' (t_shard task)" and "forwards src (f_source ops)" and "off_stream ops"
    and "cursors_ok V e cs" and "start = fst (task_start task defer)" and "start \<noteq> Some SENTINEL_LATEST"
    and "process_shard (traced_ops ops) task defer ((x, (e, cs)), []) = Some (((x', (e', cs')), tr), defer', res)"
  shows "cursors_ok V e' cs' \<and>
    (\<forall>i j. i \<le> j \<and> j < length (sv_log V e' (t_shard task)) \<and>
        resume_after start (delivered tr) = Some (rseq (sv_log V e' (t_shard task) ! j)) \<longrightarrow>
      accounted_for (src_codec src) V e' (t_shard task) start (delivered tr) i) \<and>
    (\<forall>k w c r. EvMarkComplete k w c r \<in> set tr \<longrightarrow> sv_closed V e' (t_shard task) \<and>
      (\<forall>i < length (sv_log V e' (t_shard task)). accounted_for (src_codec src) V e' (t_shard task) start (delivered tr) i))"
proof -
  let ?sh = "t_shard task" and ?pc = "src_codec src"
  from assms(8) obtain vars d E where a: "task_at (traced_ops ops) task defer ((x, (e, cs)), []) vars d E"
    and t: "task_turn (traced_ops ops) task vars d E = (((x', (e', cs')), tr), defer', Inl res)" by (rule process_shard_last_turn)
  note r = pass_reaches [OF assms(1,3-7) a]
  note p = pass_turn(1,2) [OF assms(1,3,4,7) conjunct1 [OF r] _ _ t]
  have c: "cursors_ok V e' cs'" "covered ?pc V e' ?sh start (delivered tr)"
    and d: "list_ex completes tr \<Longrightarrow> sv_closed V e' ?sh \<and> (\<forall>i < length (sv_log V e' ?sh). accounted_for ?pc V e' ?sh start (delivered tr) i)"
    using p r assms(2) by (simp_all add: pass_at_def pass_done_def)
  have "accounted_for ?pc V e' ?sh start (delivered tr) i"
    if "i \<le> j" "j < length (sv_log V e' ?sh)" "resume_after start (delivered tr) = Some (rseq (sv_log V e' ?sh ! j))" for i j
  proof -
    have "no_gap V e' ?sh (resume_after start (delivered tr)) (Suc j)" using that by (auto simp: no_gap_def)
    from streams_service.before_accounted [OF assms(1,2) c(2) assms(7) this, of i] that(1) show ?thesis by simp
  qed
  moreover have "list_ex completes tr" if "EvMarkComplete k w c r \<in> set tr" for k w c r
    using that by (force simp: list_ex_iff)
  ultimately show ?thesis using c(1) d by blast
qed

text \<open>The simulated service behind the fakes of the tests; the iterator expires during the pass.\<close>

definition ssim_live :: "(FakeEnv \<times> ssim src_state) AsyncStreamSource" where
  "ssim_live =
     \<lparr>s_describe_shards = (\<lambda>(x, (e, cs)). case the (describe_shards ssim_source e) of (e', r) \<Rightarrow> ((x, (e', cs)), r)),
      s_get_records = (\<lambda>(x, st) sh a. let (st', r) = get_records ssim_source sh a st in ((x, st'), r)),
      s_describe_child_shards = (\<lambda>(x, (e, cs)) p. case the (describe_child_shards ssim_source p e) of (e', r) \<Rightarrow> ((x, (e', cs)), r))\<rparr>"

definition live_ops :: "(FakeEnv \<times> ssim src_state) fleet_ops" where
  "live_ops = (metered_ops noop_sink fake_ops)\<lparr>f_source := ssim_live\<rparr>"

definition live_closing :: ssim where
  "live_closing = \<lparr>ssim_log = (\<lambda>_. [9, 10, 11, 12]), ssim_closed = True, ssim_script = [(([], []), Some ''ExpiredIteratorException'')]\<rparr>"

definition live_cursors :: cursors where
  "live_cursors = [''s'' \<mapsto> \<lparr>cur_after = Some ''10'', cur_iterator = ssim_token ''s'' 2\<rparr>]"

lemma live_pass:
  obtains x' e' cs' tr where "process_shard (traced_ops live_ops) fake_task None ((fake_env, (live_closing, live_cursors)), []) =
      Some (((x', (e', cs')), tr), None, Inr Ended)"
    "EvMarkComplete ''s'' ''w1'' 4 (Inr ()) \<in> set tr" "map (map rec_seq) (delivered tr) = [[''11'', ''12'']]"
    "ssim_log e' ''s'' = [9, 10, 11, 12]"
proof -
  have "map_option (\<lambda>(((x', (e', cs')), tr), d, r).
      (list_ex (\<lambda>ev. ev = EvMarkComplete ''s'' ''w1'' 4 (Inr ())) tr, map (map rec_seq) (delivered tr), ssim_log e' ''s'', d = None, r))
      (process_shard (traced_ops live_ops) fake_task None ((fake_env, (live_closing, live_cursors)), [])) =
    Some (True, [[''11'', ''12'']], [9, 10, 11, 12], True, Inr Ended)"
    by (simp only: process_shard_def, subst task_loop.simps, code_simp)
  with that show ?thesis by (auto simp: list_ex_iff)
qed

lemma live_hypotheses:
  "forwards ssim_source (f_source live_ops)" "off_stream live_ops" "cursors_ok ssim_view live_closing live_cursors"
  "ssim_log e ''s'' = [9, 10, 11, 12] \<Longrightarrow> sequenced ssim_view e ''s''"
proof -
  show "forwards ssim_source (f_source live_ops)" "off_stream live_ops"
    by (auto simp: forwards_def live_ops_def ssim_live_def off_stream_def metered_ops_def metered_leases_def metered_sink_def noop_sink_def
        beside_def metered_def Let_def split: prod.splits)
  have p: "nat_to_string 9 = ''9''" "nat_to_string 10 = ''10''" "nat_to_string 11 = ''11''" "nat_to_string 12 = ''12''" by code_simp+
  show "cursors_ok ssim_view live_closing live_cursors"
    by (auto simp: cursors_ok_def live_cursors_def no_gap_def ssim_view_def live_closing_def p intro!: exI [of _ 1])
  show "ssim_log e ''s'' = [9, 10, 11, 12] \<Longrightarrow> sequenced ssim_view e ''s''"
    by (simp add: sequenced_def ssim_view_def p SENTINEL_LATEST_def)
qed

lemma pass_loses_no_record_witness:
  "\<exists>x' e' cs' tr. process_shard (traced_ops live_ops) fake_task None ((fake_env, (live_closing, live_cursors)), []) =
      Some (((x', (e', cs')), tr), None, Inr Ended) \<and>
    length (sv_log ssim_view e' ''s'') = 4 \<and> map (map rec_seq) (delivered tr) = [[''11'', ''12'']] \<and>
    (\<forall>i < 4. accounted_for (src_codec ssim_source) ssim_view e' ''s'' (Some ''10'') (delivered tr) i)"
proof -
  obtain x' e' cs' tr where p: "process_shard (traced_ops live_ops) fake_task None ((fake_env, (live_closing, live_cursors)), []) =
      Some (((x', (e', cs')), tr), None, Inr Ended)"
    and t: "EvMarkComplete ''s'' ''w1'' 4 (Inr ()) \<in> set tr" "map (map rec_seq) (delivered tr) = [[''11'', ''12'']]"
    and l: "ssim_log e' ''s'' = [9, 10, 11, 12]" by (rule live_pass)
  have sh: "t_shard fake_task = ''s''" and st: "fst (task_start fake_task None) = Some ''10''"
    by (simp_all add: fake_task_def task_start_def)
  have n: "length (sv_log ssim_view e' ''s'') = 4" by (simp add: ssim_view_def l)
  have "\<forall>i < length (sv_log ssim_view e' ''s''). accounted_for (src_codec ssim_source) ssim_view e' ''s'' (Some ''10'') (delivered tr) i"
    using pass_loses_no_record [OF ssim.streams_service_axioms _ live_hypotheses(1,2,3) refl _ p] t(1) live_hypotheses(4) [OF l]
    unfolding sh st by (auto simp: SENTINEL_LATEST_def)
  with p t(2) n show ?thesis by auto
qed

end
