(* ===== verification/At_Least_Once.thy ===== *)
theory At_Least_Once
  imports Live_Pass
begin

text \<open>
  The history of one shard under many passes: by one worker or several, one after the other or
  overlapping, complete or cut short at any call by a crash. A pass starts where the lease, or the
  worker's pending acknowledgement, says; both are acknowledgements of earlier deliveries, or the
  position the lease was created with.

  Shown: when some pass marks the shard complete, every record of the shard was delivered in some
  pass, or had been trimmed, or lies at or before the initial position.
\<close>

section \<open>Acknowledgements\<close>

fun ack_of :: "event \<Rightarrow> string list" where
  "ack_of (EvDeliver k rs (Inr (Some q))) = [q]"
| "ack_of _ = []"

definition acks :: "event list \<Rightarrow> string set" where
  "acks tr = set (concat (map ack_of tr))"

text \<open>A consumer acknowledges a record of the batch it was given.\<close>

fun ack_ok :: "event \<Rightarrow> bool" where
  "ack_ok (EvDeliver k rs (Inr (Some q))) \<longleftrightarrow> q \<in> rec_seq ` set rs"
| "ack_ok _ \<longleftrightarrow> True"

definition acks_own :: "event list \<Rightarrow> bool" where
  "acks_own tr \<longleftrightarrow> list_all ack_ok tr"

lemma ack_ofD: "q \<in> set (ack_of ev) \<Longrightarrow> ack_ok ev \<Longrightarrow> \<exists>rs \<in> set (delivered_of ev). q \<in> rec_seq ` set rs"
  by (cases ev rule: ack_of.cases) auto

lemma acks_delivered:
  assumes "q \<in> acks tr" "acks_own tr"
  shows "\<exists>r \<in> set (concat (delivered tr)). rec_seq r = q"
proof -
  from assms obtain ev where "ev \<in> set tr" "q \<in> set (ack_of ev)" "ack_ok ev" by (auto simp: acks_def acks_own_def list_all_iff)
  with ack_ofD [of q ev] show ?thesis by (fastforce simp: delivered_def)
qed

section \<open>Runs of a shard\<close>

text \<open>
  \<open>W\<close> are the workers, \<open>K\<close> the positions a pass may start from, \<open>D\<close> what was delivered so far, the flag
  whether the shard was marked complete. A pass is cut behind the calls \<open>snd E @ zs\<close>; its own view of
  the stream may be older than what other passes have seen, hence the common later state \<open>e'\<close>.
\<close>

inductive shard_runs ::
  "('x \<times> 'e src_state) fleet_ops set \<Rightarrow> 'e stream_view \<Rightarrow> ShardId \<Rightarrow> string option \<Rightarrow>
   'e \<Rightarrow> string option set \<Rightarrow> Record list list \<Rightarrow> bool \<Rightarrow> bool"
  for W V sh init where
  fresh: "shard_runs W V sh init e {init} [] False"
| run: "shard_runs W V sh init e K D c \<Longrightarrow> ops \<in> W \<Longrightarrow> t_shard task = sh \<Longrightarrow> fst (task_start task defer) \<in> K \<Longrightarrow>
    cursors_ok V e1 cs \<Longrightarrow> task_at (traced_ops ops) task defer ((x, (e1, cs)), []) vars d E \<Longrightarrow>
    task_turn (traced_ops ops) task vars d E = (E', d', r) \<Longrightarrow> snd E' = snd E @ zs @ ys \<Longrightarrow> acks_own (snd E @ zs) \<Longrightarrow>
    grows V e e' \<Longrightarrow> grows V (fst (snd (fst E'))) e' \<Longrightarrow>
    shard_runs W V sh init e' (K \<union> Some ` acks (snd E @ zs)) (D @ delivered (snd E @ zs)) (c \<or> list_ex completes (snd E @ zs))"

subsection \<open>Cutting a pass\<close>

lemma delivered_cut:
  assumes "off_stream ops" "forwards src (f_source ops)" "task_turn (traced_ops ops) task vars d E = (E', d', r)"
    and "snd E' = snd E @ zs @ ys"
  shows "delivered (snd E @ zs) = delivered (snd E) \<or> delivered (snd E @ zs) = delivered (snd E')"
proof -
  obtain after c dl where v: "vars = (after, c, dl)" by (metis prod_cases3)
  obtain st res where g: "get_records src (t_shard task) after (snd (fst E)) = (st, res)" by fastforce
  from task_turn_progress [OF assms(1,2) assms(3) [unfolded v] g] assms(4)
  have "delivered zs @ delivered ys = (case res of Inr b \<Rightarrow> if batch_records b = [] then [] else [batch_records b] | Inl _ \<Rightarrow> [])"
    by (simp add: delivered_append)
  then have "delivered zs = [] \<or> delivered ys = []" by (cases "delivered zs") (auto split: sum.splits if_splits)
  with assms(4) show ?thesis by (auto simp: delivered_append)
qed

lemma completes_last:
  assumes "spec_run sh ow s tr = Some s'" "list_ex completes xs" "tr = xs @ ys"
  shows "ys = []"
proof -
  from assms(2) obtain ev where "ev \<in> set xs" "completes ev" by (auto simp: list_ex_iff)
  then obtain a b where ab: "xs = a @ ev # b" by (meson split_list)
  from assms(1,3) ab have "spec_run sh ow s (a @ ev # b @ ys) = Some s'" by simp
  then obtain s1 s2 where s: "spec_step sh ow s1 ev = Some s2" "spec_run sh ow s2 (b @ ys) = Some s'" by (rule spec_run_split)
  from \<open>completes ev\<close> s(1) have "sp_phase s2 = Over" by (cases ev) (auto split: if_splits)
  from spec_over [OF this s(2)] show ?thesis by simp
qed

lemma completes_cut:
  assumes "task_at (traced_ops ops) task defer (e, []) vars d E" "task_turn (traced_ops ops) task vars d E = (E', d', r)"
    and "snd E' = snd E @ zs @ ys" "list_ex completes (snd E @ zs)"
  shows "ys = []"
proof -
  from task_at_spec [OF assms(1)] obtain s where s: "spec_run (t_shard task) (t_owner task) (spec_start task defer) (snd E) = Some s"
    "at_head task vars d s" by blast
  from task_turn_spec [OF assms(2) s(2)] obtain evs s' where "snd E' = snd E @ evs" "spec_run (t_shard task) (t_owner task) s evs = Some s'"
    by blast
  with s(1) have "spec_run (t_shard task) (t_owner task) (spec_start task defer) (snd E') = Some s'" by (simp add: spec_run_append)
  from completes_last [OF this assms(4)] assms(3) show ?thesis by simp
qed

subsection \<open>Positions a pass may start from\<close>

definition safe_position ::
  "payload_codec \<Rightarrow> 'e stream_view \<Rightarrow> 'e \<Rightarrow> string \<Rightarrow> string option \<Rightarrow> Record list list \<Rightarrow> string option \<Rightarrow> bool" where
  "safe_position pc V e sh init D k \<longleftrightarrow>
     k = init \<or> (\<exists>j < length (sv_log V e sh). k = Some (rseq (sv_log V e sh ! j)) \<and> (\<forall>i \<le> j. accounted_for pc V e sh init D i))"

context streams_service
begin

lemma safe_position_mono:
  assumes "safe_position pc V e sh init D k" "grows V e e'"
  shows "safe_position pc V e' sh init (D @ D') k"
proof -
  obtain t where t: "sv_log V e' sh = sv_log V e sh @ t" using assms(2) by (rule growsD [where sh = sh])
  have "\<exists>j < length (sv_log V e' sh). k = Some (rseq (sv_log V e' sh ! j)) \<and> (\<forall>i \<le> j. accounted_for pc V e' sh init (D @ D') i)"
    if "j < length (sv_log V e sh)" "k = Some (rseq (sv_log V e sh ! j))" "\<forall>i \<le> j. accounted_for pc V e sh init D i" for j
    using that accounted_for_mono [OF _ _ assms(2), of pc sh init D _ "D @ D'"] by (intro exI [of _ j]) (auto simp: t nth_append)
  with assms(1) show ?thesis unfolding safe_position_def by blast
qed

text \<open>What a pass from a safe position accounts for, seen from the initial position.\<close>

lemma rebase:
  assumes "sequenced V e sh" "safe_position pc V e sh init D start" "accounted_for pc V e sh start ds i"
  shows "accounted_for pc V e sh init (D @ ds) i"
proof -
  have "accounted_for pc V e sh init (D @ ds) i" if j: "j < length (sv_log V e sh)" "i \<le> j" "start = Some (rseq (sv_log V e sh ! j))" for j
    using assms(2) unfolding safe_position_def
  proof
    assume "start = init"
    with j show ?thesis by (auto simp: accounted_for_def)
  next
    assume "\<exists>k < length (sv_log V e sh). start = Some (rseq (sv_log V e sh ! k)) \<and> (\<forall>i \<le> k. accounted_for pc V e sh init D i)"
    then obtain k where k: "k < length (sv_log V e sh)" "start = Some (rseq (sv_log V e sh ! k))" "\<forall>i \<le> k. accounted_for pc V e sh init D i" by blast
    with j sequenced_nth(2) [OF assms(1) k(1) j(1)] have "accounted_for pc V e sh init D i" by simp
    then show ?thesis by (auto simp: accounted_for_def)
  qed
  with assms(3) show ?thesis by (auto simp: accounted_for_def)
qed

lemma safe_position_start:
  assumes "sequenced V e sh" "safe_position pc V e sh init D k" "init \<noteq> Some SENTINEL_LATEST"
  shows "k \<noteq> Some SENTINEL_LATEST"
  using assms(2,3) sequenced_nth(1) [OF assms(1)] unfolding safe_position_def by (metis option.inject)

end

text \<open>One pass, cut anywhere, on the later state \<open>e'\<close>.\<close>

lemma cut_pass:
  assumes svc: "streams_service src V" and w: "forwards src (f_source ops)" "off_stream ops" and k: "cursors_ok V e1 cs"
    and s: "start = fst (task_start task defer)" "start \<noteq> Some SENTINEL_LATEST"
    and a: "task_at (traced_ops ops) task defer ((x, (e1, cs)), []) vars d E" and t: "task_turn (traced_ops ops) task vars d E = (E', d', r)"
    and z: "snd E' = snd E @ zs @ ys" and g: "grows V (fst (snd (fst E'))) e'" and q: "sequenced V e' (t_shard task)"
  shows "covered (src_codec src) V e' (t_shard task) start (delivered (snd E @ zs)) \<and>
    (list_ex completes (snd E @ zs) \<longrightarrow> sv_closed V e' (t_shard task) \<and>
      (\<forall>i < length (sv_log V e' (t_shard task)). accounted_for (src_codec src) V e' (t_shard task) start (delivered (snd E @ zs)) i))"
proof -
  let ?sh = "t_shard task" and ?pc = "src_codec src" and ?e = "fst (snd (fst E))" and ?e' = "fst (snd (fst E'))"
  note h = pass_reaches [OF svc w k s a]
  note p = pass_turn [OF svc w s(2) conjunct1 [OF h] conjunct1 [OF conjunct2 [OF h]] conjunct2 [OF conjunct2 [OF h]] t]
  have q': "sequenced V ?e' ?sh" using streams_service.sequenced_earlier [OF svc q g] .
  have q0: "sequenced V ?e ?sh" using streams_service.sequenced_earlier [OF svc q' p(3)] .
  have "covered ?pc V ?e' ?sh start (delivered (snd E))"
    using streams_service.covered_mono [OF svc _ p(3)] h q0 by (auto simp: pass_at_def)
  moreover have "covered ?pc V ?e' ?sh start (delivered (snd E'))" using p(1) q' by (auto simp: pass_at_def)
  ultimately have "covered ?pc V ?e' ?sh start (delivered (snd E @ zs))" using delivered_cut [OF w(2,1) t z] by metis
  then have c: "covered ?pc V e' ?sh start (delivered (snd E @ zs))" by (rule streams_service.covered_mono [OF svc _ g])
  have "sv_closed V e' ?sh \<and> (\<forall>i < length (sv_log V e' ?sh). accounted_for ?pc V e' ?sh start (delivered (snd E @ zs)) i)"
    if l: "list_ex completes (snd E @ zs)"
  proof -
    have "snd E' = snd E @ zs" using completes_cut [OF a t z l] z by simp
    with p(2) q' l have f: "sv_closed V ?e' ?sh" "\<forall>i < length (sv_log V ?e' ?sh). accounted_for ?pc V ?e' ?sh start (delivered (snd E @ zs)) i"
      by (auto simp: pass_done_def Let_def)
    obtain u where u: "sv_log V e' ?sh = sv_log V ?e' ?sh @ u" "sv_closed V ?e' ?sh \<longrightarrow> u = [] \<and> sv_closed V e' ?sh"
      using streams_service.growsD [OF svc g] by metis
    with f streams_service.accounted_for_mono [OF svc _ _ g, of ?pc ?sh start "delivered (snd E @ zs)" _ "delivered (snd E @ zs)"]
    show ?thesis by simp
  qed
  with c show ?thesis by blast
qed

lemma shard_runs_inv:
  assumes svc: "streams_service src V" and w: "\<forall>ops \<in> W. forwards src (f_source ops) \<and> off_stream ops"
    and i: "init \<noteq> Some SENTINEL_LATEST" and h: "shard_runs W V sh init e K D c"
  shows "sequenced V e sh \<longrightarrow> (\<forall>k \<in> K. safe_position (src_codec src) V e sh init D k) \<and>
    (c \<longrightarrow> sv_closed V e sh \<and> (\<forall>i < length (sv_log V e sh). accounted_for (src_codec src) V e sh init D i))"
  using h
proof induction
  case (fresh e)
  show ?case by (simp add: safe_position_def)
next
  case (run e K D c ops task "defer" e1 cs x vars d E E' d' r zs ys e')
  let ?pc = "src_codec src" and ?start = "fst (task_start task defer)" and ?xs = "snd E @ zs"
  have w: "forwards src (f_source ops)" "off_stream ops" using w run.hyps(2) by auto
  show ?case
  proof
    assume q: "sequenced V e' sh"
    note qe = streams_service.sequenced_earlier [OF svc q run.hyps(10)]
    have old: "safe_position ?pc V e' sh init (D @ delivered ?xs) k" "safe_position ?pc V e' sh init D k" if "k \<in> K" for k
      using run.IH qe that streams_service.safe_position_mono [OF svc _ run.hyps(10), of ?pc sh init D k "delivered ?xs"]
        streams_service.safe_position_mono [OF svc _ run.hyps(10), of ?pc sh init D k "[]"] by simp_all
    note st = old(2) [OF run.hyps(4)]
    have "?start \<noteq> Some SENTINEL_LATEST" by (rule streams_service.safe_position_start [OF svc q st i])
    from cut_pass [OF svc w run.hyps(5) refl this run.hyps(6,7,8,11)] q run.hyps(3)
    have p: "covered ?pc V e' sh ?start (delivered ?xs)" "list_ex completes ?xs \<longrightarrow> sv_closed V e' sh \<and>
        (\<forall>i < length (sv_log V e' sh). accounted_for ?pc V e' sh ?start (delivered ?xs) i)" by auto
    note re = streams_service.rebase [OF svc q st]
    have new: "safe_position ?pc V e' sh init (D @ delivered ?xs) (Some a)" if a: "a \<in> acks ?xs" for a
    proof -
      from acks_delivered [OF a run.hyps(9)] obtain rc where "rc \<in> set (concat (delivered ?xs))" "rec_seq rc = a" by blast
      with p(1) obtain j where "j < length (sv_log V e' sh)" "a = rseq (sv_log V e' sh ! j)"
        "\<forall>i \<le> j. accounted_for ?pc V e' sh ?start (delivered ?xs) i" unfolding covered_def core_record_def by force
      with re show ?thesis unfolding safe_position_def by blast
    qed
    have "sv_closed V e' sh \<and> (\<forall>i < length (sv_log V e' sh). accounted_for ?pc V e' sh init (D @ delivered ?xs) i)" if c
    proof -
      obtain t where "sv_log V e' sh = sv_log V e sh @ t" "sv_closed V e sh \<longrightarrow> t = [] \<and> sv_closed V e' sh"
        using streams_service.growsD [OF svc run.hyps(10)] by metis
      with run.IH qe that streams_service.accounted_for_mono [OF svc _ _ run.hyps(10), of ?pc sh init D _ "D @ delivered ?xs"]
      show ?thesis by simp
    qed
    with old(1) new p(2) re show "(\<forall>k \<in> K \<union> Some ` acks ?xs. safe_position ?pc V e' sh init (D @ delivered ?xs) k) \<and>
      (c \<or> list_ex completes ?xs \<longrightarrow> sv_closed V e' sh \<and> (\<forall>i < length (sv_log V e' sh). accounted_for ?pc V e' sh init (D @ delivered ?xs) i))"
      by blast
  qed
qed

text \<open>What a pass checkpoints is a position the next pass may start from.\<close>

lemma checkpoint_positions:
  assumes "task_at (traced_ops ops) task defer (e, []) vars d E" "task_turn (traced_ops ops) task vars d E = (E', d', r)"
    and "snd E' = xs @ ys" "EvCheckpoint k w c q res \<in> set xs"
  shows "Some q = fst (task_start task defer) \<or> q \<in> acks xs"
proof -
  from task_at_spec [OF assms(1)] obtain s where s: "spec_run (t_shard task) (t_owner task) (spec_start task defer) (snd E) = Some s"
    "at_head task vars d s" by blast
  from task_turn_spec [OF assms(2) s(2)] obtain evs s' where "snd E' = snd E @ evs" "spec_run (t_shard task) (t_owner task) s evs = Some s'"
    by blast
  with s(1) have run: "spec_run (t_shard task) (t_owner task) (spec_start task defer) (snd E') = Some s'" by (simp add: spec_run_append)
  from assms(4) obtain a b where ab: "xs = a @ EvCheckpoint k w c q res # b" by (meson split_list)
  with run assms(3) have "spec_run (t_shard task) (t_owner task) (spec_start task defer) (a @ EvCheckpoint k w c q res # b @ ys) = Some s'" by simp
  then obtain s1 s2 where s1: "spec_run (t_shard task) (t_owner task) (spec_start task defer) a = Some s1"
    "spec_step (t_shard task) (t_owner task) s1 (EvCheckpoint k w c q res) = Some s2" by (rule spec_run_split)
  then have "sp_pending s1 = Some q" by (auto split: if_splits)
  with spec_run_origin [OF s1(1)] have "pending_of defer (t_shard task) = Some q \<or> (\<exists>rs. EvDeliver (t_shard task) rs (Inr (Some q)) \<in> set a)"
    by (auto simp: spec_start_def)
  then show ?thesis
  proof
    assume "pending_of defer (t_shard task) = Some q"
    then show ?thesis by (simp add: task_start_def pending_of_def)
  next
    assume "\<exists>rs. EvDeliver (t_shard task) rs (Inr (Some q)) \<in> set a"
    then show ?thesis unfolding acks_def ab by force
  qed
qed

section \<open>Properties\<close>

text \<open>
  C1 (safety). At-least-once delivery. Over any number of passes on a shard, of any workers, overlapping
  or not, each cut short at any call or not, each starting at the initial position or at an
  acknowledged one: when a pass marks the shard complete, the shard is closed and every record
  of its history was delivered in some pass, had been trimmed by the service, or lies at or before the initial position.
  The initial position is not the tip of the stream, consumers acknowledge records they were given, and
  sequence numbers are unique within the shard.
\<close>

theorem at_least_once:
  assumes "streams_service src V" and "\<forall>ops \<in> W. forwards src (f_source ops) \<and> off_stream ops"
    and "init \<noteq> Some SENTINEL_LATEST" and "shard_runs W V sh init e K D True" and "sequenced V e sh"
  shows "sv_closed V e sh \<and> (\<forall>i < length (sv_log V e sh). accounted_for (src_codec src) V e sh init D i)"
  using shard_runs_inv [OF assms(1-4)] assms(5) by simp

text \<open>A worker that crashes behind its first delivery, before any checkpoint; a second one does the whole pass.\<close>

abbreviation live_start :: "(FakeEnv \<times> ssim src_state) traced" where
  "live_start \<equiv> ((fake_env, (live_closing, live_cursors)), [])"

abbreviation live_turn :: "(FakeEnv \<times> ssim src_state) traced \<times> CkptDefer option \<times> ((WorkerError + PassOutcome) + loop_vars)" where
  "live_turn \<equiv> task_turn (traced_ops live_ops) fake_task (task_start fake_task None) None live_start"

lemma live_turn_facts:
  "case live_turn of (E', d', r) \<Rightarrow>
     acks_own (take 2 (snd E')) \<and> acks_own (snd E') \<and> \<not> list_ex completes (take 2 (snd E')) \<and> list_ex completes (snd E') \<and>
     map (map rec_seq) (delivered (take 2 (snd E'))) = [[''11'', ''12'']] \<and>
     map (map rec_seq) (delivered (snd E')) = [[''11'', ''12'']] \<and> ssim_log (fst (snd (fst E'))) ''s'' = [9, 10, 11, 12]"
  by code_simp

lemma live_runs:
  obtains e K D where "shard_runs {live_ops} ssim_view ''s'' (Some ''10'') e K D True" "ssim_log e ''s'' = [9, 10, 11, 12]"
    "map (map rec_seq) D = [[''11'', ''12''], [''11'', ''12'']]"
proof -
  obtain E' d' r where t: "live_turn = (E', d', r)" by (metis prod_cases3)
  let ?e = "fst (snd (fst E'))" and ?runs = "shard_runs {live_ops} ssim_view ''s'' (Some ''10'')"
  note f = live_turn_facts [unfolded t prod.case]
  have k: "t_shard fake_task = ''s''" "fst (task_start fake_task None) = Some ''10''" by (simp_all add: fake_task_def task_start_def)
  have a: "task_at (traced_ops live_ops) fake_task None live_start (task_start fake_task None) None live_start" by (rule task_at.start)
  have g: "grows ssim_view ?e ?e" by simp
  have s: "snd live_start = []" by simp
  have "?runs ?e {Some ''10''} [] False" by (rule shard_runs.fresh)
  from shard_runs.run [OF this _ k(1) _ live_hypotheses(3) a t, of "take 2 (snd E')" "drop 2 (snd E')" ?e] f g
  obtain K where 1: "?runs ?e K (delivered (take 2 (snd E'))) False" "Some ''10'' \<in> K" by (auto simp: k(2))
  from shard_runs.run [OF 1(1) _ k(1) _ live_hypotheses(3) a t, of "snd E'" "[]" ?e] f g 1(2)
  have 2: "?runs ?e (K \<union> Some ` acks (snd E')) (delivered (take 2 (snd E')) @ delivered (snd E')) True" by (simp add: k(2))
  have "map (map rec_seq) (delivered (take 2 (snd E')) @ delivered (snd E')) = [[''11'', ''12''], [''11'', ''12'']]" using f by simp
  with that [OF 2] f show ?thesis by blast
qed

theorem at_least_once_witness:
  "\<exists>e K D. shard_runs {live_ops} ssim_view ''s'' (Some ''10'') e K D True \<and> length (sv_log ssim_view e ''s'') = 4 \<and>
    map (map rec_seq) D = [[''11'', ''12''], [''11'', ''12'']] \<and> sv_closed ssim_view e ''s'' \<and>
    (\<forall>i < 4. accounted_for (src_codec ssim_source) ssim_view e ''s'' (Some ''10'') D i)"
proof -
  obtain e K D where r: "shard_runs {live_ops} ssim_view ''s'' (Some ''10'') e K D True" and l: "ssim_log e ''s'' = [9, 10, 11, 12]"
    and d: "map (map rec_seq) D = [[''11'', ''12''], [''11'', ''12'']]" by (rule live_runs)
  have n: "length (sv_log ssim_view e ''s'') = 4" by (simp add: ssim_view_def l)
  have "Some ''10'' \<noteq> Some SENTINEL_LATEST" by (simp add: SENTINEL_LATEST_def)
  from at_least_once [OF ssim.streams_service_axioms _ this r live_hypotheses(4) [OF l]] live_hypotheses(1,2)
  have closed: "sv_closed ssim_view e ''s''" and all: "\<forall>i < 4. accounted_for (src_codec ssim_source) ssim_view e ''s'' (Some ''10'') D i"
    unfolding n by simp_all
  show ?thesis by (intro exI [of _ e] exI [of _ K] exI [of _ D] conjI r n d closed all)
qed

section \<open>Consumers that acknowledge what they were given\<close>

definition honest :: "'e ShardConsumerFactory \<Rightarrow> bool" where
  "honest F \<longleftrightarrow> (\<forall>e k rs. ack_ok (EvDeliver k rs (snd (c_deliver F e k rs))))"

lemma sync_consumer_honest: "honest (sync_consumer_factory pf)"
  by (simp add: honest_def sync_consumer_factory_def sync_deliver_def)

lemma acks_own_append [simp]: "acks_own (a @ b) \<longleftrightarrow> acks_own a \<and> acks_own b"
  by (simp add: acks_own_def)

lemma no_delivery_own: "delivered evs = [] \<Longrightarrow> acks_own evs"
  unfolding acks_own_def list_all_iff
proof
  fix ev assume "delivered evs = []" "ev \<in> set evs"
  then have "delivered_of ev = []" by (auto simp: delivered_def)
  then show "ack_ok ev" by (cases ev) auto
qed

lemma handle_ack_own:
  assumes "handle_ack (traced_ops ops) task c a d E = (E', d', r)"
  shows "\<exists>evs. snd E' = snd E @ evs \<and> delivered evs = []"
  using assms
  by (cases rule: handle_ack_cases)
     (auto simp: delivered_def dest!: checkpoint_log traced_now persists_simps(1) simp del: traced_ops_simps)

lemma finish_shard_own:
  assumes "finish_shard (traced_ops ops) task c d E = (E', d', out)"
  shows "\<exists>evs. snd E' = snd E @ evs \<and> delivered evs = []"
  using assms
proof (cases rule: finish_shard_cases)
  case settled
  with close_shard_log [of ops task c E] show ?thesis by (auto simp: delivered_def)
next
  case (flushed q E1 c')
  with close_shard_log [of ops task c' E1] checkpoint_log [OF flushed(2)] show ?thesis by (auto simp: delivered_def)
next
  case (refused q E1 err)
  with checkpoint_log [OF refused(2)] show ?thesis by (auto simp: delivered_def)
qed

lemma deliver_own:
  assumes "honest (f_factory ops)" "c_deliver (f_factory (traced_ops ops)) E k rs = (E', r)"
  shows "\<exists>ev. snd E' = snd E @ [ev] \<and> ack_ok ev"
proof -
  have "r = snd (c_deliver (f_factory ops) (fst E) k rs)" using assms(2) by (auto simp: traced_def split: prod.splits)
  with assms(1) deliver_log [OF assms(2)] show ?thesis unfolding honest_def by blast
qed

lemma deliver_batch_own:
  assumes "honest (f_factory ops)" "deliver_batch (traced_ops ops) task c b d E = (E', d', r)"
  shows "\<exists>evs. snd E' = snd E @ evs \<and> acks_own evs"
  using assms(2)
proof (cases rule: deliver_batch_cases)
  case (stopped E1 a out)
  from deliver_own [OF assms(1) stopped(1)] handle_ack_own [OF stopped(2)] no_delivery_own show ?thesis
    by (fastforce simp: acks_own_def)
next
  case (acked E1 a E2 c')
  from deliver_own [OF assms(1) acked(1)] handle_ack_own [OF acked(2)] no_delivery_own acked(3) show ?thesis
    by (fastforce simp: acks_own_def)
qed (use deliver_own [OF assms(1)] in \<open>fastforce simp: acks_own_def simp del: traced_ops_simps(2)\<close>)+

lemma task_turn_own:
  assumes "honest (f_factory ops)" "task_turn (traced_ops ops) task vars d E = (E', d', r)"
  shows "\<exists>evs. snd E' = snd E @ evs \<and> acks_own evs"
proof -
  obtain after c dl where v: "vars = (after, c, dl)" by (metis prod_cases3)
  have h: "\<exists>evs. snd E2 = snd E @ evs \<and> acks_own evs"
    if "s_get_records (f_source (traced_ops ops)) E (t_shard task) after = (E1, g)" "E2 = E1 \<or> handled (traced_ops ops) task c b d E1 E2 d2 r2" for E1 g b E2 d2 r2
    using get_log [OF that(1)] that(2) deliver_batch_own [OF assms(1), of task c b d E1 E2 d2 r2]
    by (fastforce simp: handled_def acks_own_def split: if_splits)
  from assms(2) [unfolded v] show ?thesis
  proof (cases rule: task_turn_cases)
    case (ended E1 b E2 d2 c2 out)
    from h [OF ended(1) disjI2 [OF ended(2)]] finish_shard_own [OF ended(4)] no_delivery_own show ?thesis by fastforce
  qed (use h in blast)+
qed

text \<open>So the hypothesis on acknowledgements holds of every pass with such a consumer, the synchronous adapter among them.\<close>

lemma honest_runs:
  assumes "honest (f_factory ops)" "task_at (traced_ops ops) task defer (e, []) vars d E"
    and "task_turn (traced_ops ops) task vars d E = (E', d', r)" "snd E' = snd E @ zs @ ys"
  shows "acks_own (snd E @ zs)"
proof -
  have "acks_own (snd E)"
    using assms(2)
  proof induction
    case start
    show ?case by (simp add: acks_own_def)
  next
    case (turn vars d E E' d' vars')
    with task_turn_own [OF assms(1) turn.hyps(2)] show ?case by auto
  qed
  with task_turn_own [OF assms(1,3)] assms(4) show ?thesis by auto
qed

end
